(* ===== verification/Prelude.thy ===== *)
theory Prelude
  imports Main "HOL-Library.Word" "HOL-Library.Monad_Syntax" "HOL-Library.List_Lexorder"
    "HOL-Library.Multiset"
begin

text \<open>
  What every component of the store shares: the machine types, Rust's panicking slice and
  index operations, little-endian integers, the checked arithmetic of \<open>u16\<close>, and generic
  lemmas on lists.

  Panics. A Rust expression that may panic has a type \<open>'a option\<close> here, with \<^term>\<open>None\<close> for
  the panic; sequencing is \<^const>\<open>Option.bind\<close>, written with \<open>do\<close>. The model is the
  debug profile, the one the repository's tests run in: a failed \<open>debug_assert!\<close> and an
  arithmetic overflow are panics. A run that does not panic in the debug profile computes
  the same in the release profile, where these checks are left out.
  A \<open>Result\<close> is a sum, with \<^const>\<open>Inl\<close> for \<open>Err\<close>.

  Sizes. \<open>usize\<close> values that are lengths of vectors or offsets into them are \<^typ>\<open>nat\<close>: a
  vector is shorter than \<open>2 ^ 63\<close> bytes, so adding two such lengths cannot overflow. The
  widths that do matter, the \<open>u16\<close> of the page layouts and the \<open>u64\<close> of page ids, are words.
\<close>

section \<open>Types\<close>

type_synonym byte = "8 word"
type_synonym u16 = "16 word"
type_synonym u32 = "32 word"
type_synonym u64 = "64 word"
type_synonym bytes = "byte list"

text \<open>Keys and values are byte strings; \<open><\<close> on them is the lexicographic order of
  \<open>HOL-Library.List_Lexorder\<close> over unsigned bytes, which is Rust's \<open>Ord\<close> of \<open>[u8]\<close>.\<close>

type_synonym key = bytes
type_synonym val = bytes

named_theorems codec_simps \<open>evaluation of reads and writes at known offsets\<close>
named_theorems width_simps \<open>casts between \<open>u16\<close>, \<open>u64\<close> and lengths, within their ranges\<close>

section \<open>Operations that may panic\<close>

definition assert_that :: "bool \<Rightarrow> unit option" where
  "assert_that b = (if b then Some () else None)"

definition elem_at :: "'a list \<Rightarrow> nat \<Rightarrow> 'a option" where
  "elem_at xs i = (if i < length xs then Some (xs ! i) else None)"

definition put_at :: "'a list \<Rightarrow> nat \<Rightarrow> 'a \<Rightarrow> 'a list option" where
  "put_at xs i x = (if i < length xs then Some (xs[i := x]) else None)"

text \<open>\<open>&xs[a..b]\<close> and \<open>buf[a..b].copy_from_slice(src)\<close>.\<close>

definition slice_of :: "'a list \<Rightarrow> nat \<Rightarrow> nat \<Rightarrow> 'a list option" where
  "slice_of xs a b = (if a \<le> b \<and> b \<le> length xs then Some (take (b - a) (drop a xs)) else None)"

definition copy_into :: "'a list \<Rightarrow> nat \<Rightarrow> nat \<Rightarrow> 'a list \<Rightarrow> 'a list option" where
  "copy_into buf a b src =
     (if a \<le> b \<and> b \<le> length buf \<and> length src = b - a
      then Some (take a buf @ src @ drop b buf) else None)"

lemma assert_that_True [simp]: "assert_that True = Some ()"
  by (simp add: assert_that_def)

lemma assert_that_False [simp]: "assert_that False = None"
  by (simp add: assert_that_def)

lemma assert_that_eq_Some [simp]: "assert_that b = Some u \<longleftrightarrow> b"
  by (simp add: assert_that_def)

lemma assert_that_bind [simp]: "Option.bind (assert_that b) f = (if b then f () else None)"
  by (simp add: assert_that_def)

lemma elem_at_Some [simp]: "i < length xs \<Longrightarrow> elem_at xs i = Some (xs ! i)"
  by (simp add: elem_at_def)

lemma elem_at_None [simp]: "length xs \<le> i \<Longrightarrow> elem_at xs i = None"
  by (simp add: elem_at_def)

lemma put_at_Some: "i < length xs \<Longrightarrow> put_at xs i x = Some (xs[i := x])"
  by (simp add: put_at_def)

lemma slice_of_mid:
  "a = length xs \<Longrightarrow> b = length xs + length ys \<Longrightarrow> slice_of (xs @ ys @ zs) a b = Some ys"
  by (simp add: slice_of_def)

lemma slice_of_end:
  "a = length xs \<Longrightarrow> b = length xs + length ys \<Longrightarrow> slice_of (xs @ ys) a b = Some ys"
  by (simp add: slice_of_def)

lemma slice_of_eq_Some:
  "slice_of xs a b = Some ys \<longleftrightarrow> a \<le> b \<and> b \<le> length xs \<and> ys = take (b - a) (drop a xs)"
  by (auto simp: slice_of_def)

lemma copy_into_zeros:
  assumes "a = length pre" "b = a + length src" "length src \<le> n"
  shows "copy_into (pre @ replicate n z) a b src =
           Some (pre @ src @ replicate (n - length src) z)"
  using assms by (simp add: copy_into_def)

lemma length_copy_into: "copy_into buf a b src = Some buf' \<Longrightarrow> length buf' = length buf"
  by (auto simp: copy_into_def split: if_splits)

lemma slice_copy_same: "copy_into buf a b src = Some buf' \<Longrightarrow> slice_of buf' a b = Some src"
  by (auto simp: copy_into_def slice_of_def split: if_splits)

lemma slice_copy_other:
  assumes "copy_into buf a b src = Some buf'" "slice_of buf c d = Some s" "d \<le> a \<or> b \<le> c"
  shows "slice_of buf' c d = Some s"
  using assms by (auto simp: copy_into_def slice_of_def drop_take min_def split: if_splits)

lemma copy_into_bound: "copy_into buf a b src = Some buf' \<Longrightarrow> b \<le> length buf \<and> length buf' = length buf"
  by (auto simp: copy_into_def split: if_splits)

lemma put_at_bound: "put_at buf i x = Some buf' \<Longrightarrow> i < length buf \<and> length buf' = length buf"
  by (auto simp: put_at_def split: if_splits)

section \<open>Little-endian integers\<close>

fun nat_to_le :: "nat \<Rightarrow> nat \<Rightarrow> bytes" where
  "nat_to_le 0 x = []"
| "nat_to_le (Suc n) x = word_of_nat (x mod 256) # nat_to_le n (x div 256)"

fun nat_of_le :: "bytes \<Rightarrow> nat" where
  "nat_of_le [] = 0"
| "nat_of_le (b # bs) = unat b + 256 * nat_of_le bs"

lemma length_nat_to_le [simp]: "length (nat_to_le n x) = n"
  by (induction n arbitrary: x) auto

lemma nat_of_le_to_le: "x < 256 ^ n \<Longrightarrow> nat_of_le (nat_to_le n x) = x"
proof (induction n arbitrary: x)
  case 0
  then show ?case by simp
next
  case (Suc n)
  have "x div 256 < 256 ^ n"
    using Suc.prems by (simp add: less_mult_imp_div_less mult.commute)
  then show ?case
    using Suc.IH by (simp add: unat_of_nat take_bit_nat_eq_self)
qed

definition u16_to_le :: "u16 \<Rightarrow> bytes" where "u16_to_le w = nat_to_le 2 (unat w)"
definition u32_to_le :: "u32 \<Rightarrow> bytes" where "u32_to_le w = nat_to_le 4 (unat w)"
definition u64_to_le :: "u64 \<Rightarrow> bytes" where "u64_to_le w = nat_to_le 8 (unat w)"

definition u16_from_le :: "bytes \<Rightarrow> u16" where "u16_from_le bs = word_of_nat (nat_of_le bs)"
definition u32_from_le :: "bytes \<Rightarrow> u32" where "u32_from_le bs = word_of_nat (nat_of_le bs)"
definition u64_from_le :: "bytes \<Rightarrow> u64" where "u64_from_le bs = word_of_nat (nat_of_le bs)"

text \<open>\<open>uN::from_le_bytes(bs[p..p + N].try_into().unwrap())\<close>.\<close>

definition read_u16 :: "bytes \<Rightarrow> nat \<Rightarrow> u16 option" where
  "read_u16 bs p = do { s \<leftarrow> slice_of bs p (p + 2); Some (u16_from_le s) }"

definition read_u32 :: "bytes \<Rightarrow> nat \<Rightarrow> u32 option" where
  "read_u32 bs p = do { s \<leftarrow> slice_of bs p (p + 4); Some (u32_from_le s) }"

definition read_u64 :: "bytes \<Rightarrow> nat \<Rightarrow> u64 option" where
  "read_u64 bs p = do { s \<leftarrow> slice_of bs p (p + 8); Some (u64_from_le s) }"

lemma length_to_le [simp]:
  "length (u16_to_le a) = 2" "length (u32_to_le b) = 4" "length (u64_to_le c) = 8"
  by (simp_all add: u16_to_le_def u32_to_le_def u64_to_le_def)

lemma u16_from_to_le [simp]: "u16_from_le (u16_to_le w) = w"
proof -
  have "unat w < 256 ^ 2" using unsigned_less [of w] by simp
  then show ?thesis by (simp add: u16_from_le_def u16_to_le_def nat_of_le_to_le)
qed

lemma u32_from_to_le [simp]: "u32_from_le (u32_to_le w) = w"
proof -
  have "unat w < 256 ^ 4" using unsigned_less [of w] by simp
  then show ?thesis by (simp add: u32_from_le_def u32_to_le_def nat_of_le_to_le)
qed

lemma u64_from_to_le [simp]: "u64_from_le (u64_to_le w) = w"
proof -
  have "unat w < 256 ^ 8" using unsigned_less [of w] by simp
  then show ?thesis by (simp add: u64_from_le_def u64_to_le_def nat_of_le_to_le)
qed

lemma read_u16_mid [codec_simps]: "p = length pre \<Longrightarrow> read_u16 (pre @ u16_to_le w @ post) p = Some w"
  by (simp add: read_u16_def slice_of_mid)

lemma read_u32_mid [codec_simps]: "p = length pre \<Longrightarrow> read_u32 (pre @ u32_to_le w @ post) p = Some w"
  by (simp add: read_u32_def slice_of_mid)

lemma read_u64_mid [codec_simps]: "p = length pre \<Longrightarrow> read_u64 (pre @ u64_to_le w @ post) p = Some w"
  by (simp add: read_u64_def slice_of_mid)

text \<open>
  The loops that write a sequence of page ids back to back and read one of a given length;
  the free-list page and the internal page both contain them.
\<close>

fun write_u64s :: "bytes \<Rightarrow> nat \<Rightarrow> u64 list \<Rightarrow> bytes option" where
  "write_u64s buf pos [] = Some buf"
| "write_u64s buf pos (w # ws) =
     do { buf' \<leftarrow> copy_into buf pos (pos + 8) (u64_to_le w); write_u64s buf' (pos + 8) ws }"

fun read_u64s :: "bytes \<Rightarrow> nat \<Rightarrow> nat \<Rightarrow> u64 list option" where
  "read_u64s bs pos 0 = Some []"
| "read_u64s bs pos (Suc n) =
     do { w \<leftarrow> read_u64 bs pos; ws \<leftarrow> read_u64s bs (pos + 8) n; Some (w # ws) }"

lemma length_u64s_to_le [simp]: "length (concat (map u64_to_le ws)) = 8 * length ws"
  by (induction ws) auto

lemma write_u64s_zeros:
  assumes "pos = length pre" "8 * length ws \<le> n"
  shows "write_u64s (pre @ replicate n 0) pos ws =
           Some (pre @ concat (map u64_to_le ws) @ replicate (n - 8 * length ws) 0)"
  using assms
proof (induction ws arbitrary: pre pos n)
  case Nil
  then show ?case by simp
next
  case (Cons w ws)
  then show ?case
    using Cons.IH [of "pos + 8" "pre @ u64_to_le w" "n - 8"]
    by (simp add: copy_into_zeros diff_diff_left)
qed

lemma read_u64s_mid [codec_simps]:
  assumes "pos = length pre" "n = length ws"
  shows "read_u64s (pre @ concat (map u64_to_le ws) @ post) pos n = Some ws"
  using assms
proof (induction ws arbitrary: pre pos n)
  case Nil
  then show ?case by simp
next
  case (Cons w ws)
  then show ?case
    using Cons.IH [of "pos + 8" "pre @ u64_to_le w" "length ws"]
    by (simp add: read_u64_mid)
qed

section \<open>Casts and checked arithmetic\<close>

text \<open>\<open>n as u16\<close> truncates, in both profiles; \<open>+\<close>, \<open>-\<close> and \<open>*\<close> on \<open>u16\<close> are checked.\<close>

definition as_u16 :: "nat \<Rightarrow> u16" where "as_u16 n = word_of_nat n"

definition u16_add :: "u16 \<Rightarrow> u16 \<Rightarrow> u16 option" where
  "u16_add a b = (if unat a + unat b < 2 ^ 16 then Some (a + b) else None)"

definition u16_sub :: "u16 \<Rightarrow> u16 \<Rightarrow> u16 option" where
  "u16_sub a b = (if unat b \<le> unat a then Some (a - b) else None)"

definition u16_mul :: "u16 \<Rightarrow> u16 \<Rightarrow> u16 option" where
  "u16_mul a b = (if unat a * unat b < 2 ^ 16 then Some (a * b) else None)"

lemma unat_as_u16 [width_simps]: "n < 65536 \<Longrightarrow> unat (as_u16 n) = n"
  by (simp add: as_u16_def unat_of_nat take_bit_nat_eq_self)

lemma as_u16_unat [simp]: "as_u16 (unat w) = w"
  by (simp add: as_u16_def)

lemma uint_as_u16 [width_simps]: "n < 65536 \<Longrightarrow> uint (as_u16 n) = int n"
  by (simp add: uint_nat unat_as_u16 del: uint_nat [symmetric])

lemma as_u16_inject: "m < 65536 \<Longrightarrow> n < 65536 \<Longrightarrow> as_u16 m = as_u16 n \<longleftrightarrow> m = n"
  by (metis unat_as_u16)

lemma unat_u16_less [simp]: "unat (w :: u16) < 65536"
  using unsigned_less [of w] by simp

lemma u16_add_as [width_simps]: "m + n < 65536 \<Longrightarrow> u16_add (as_u16 m) (as_u16 n) = Some (as_u16 (m + n))"
  by (simp add: u16_add_def width_simps) (simp add: as_u16_def)

lemma u16_sub_as [width_simps]:
  "n \<le> m \<Longrightarrow> m < 65536 \<Longrightarrow> u16_sub (as_u16 m) (as_u16 n) = Some (as_u16 (m - n))"
  by (simp add: u16_sub_def width_simps) (simp add: as_u16_def)

lemma u16_mul_as [width_simps]: "m < 65536 \<Longrightarrow> n < 65536 \<Longrightarrow> m * n < 65536 \<Longrightarrow>
    u16_mul (as_u16 m) (as_u16 n) = Some (as_u16 (m * n))"
  by (simp add: u16_mul_def width_simps) (simp add: as_u16_def)

definition usize_sub :: "nat \<Rightarrow> nat \<Rightarrow> nat option" where
  "usize_sub a b = (if b \<le> a then Some (a - b) else None)"

lemma usize_sub_Some [simp]: "b \<le> a \<Longrightarrow> usize_sub a b = Some (a - b)"
  by (simp add: usize_sub_def)

text \<open>The indices of a \<open>for i in a..b\<close> loop over \<open>u16\<close>.\<close>

definition u16_range :: "u16 \<Rightarrow> u16 \<Rightarrow> u16 list" where
  "u16_range a b = map as_u16 [unat a..<unat b]"

lemma u16_range_as: "m < 65536 \<Longrightarrow> n < 65536 \<Longrightarrow> u16_range (as_u16 m) (as_u16 n) = map as_u16 [m..<n]"
  by (simp add: u16_range_def width_simps)

lemma as_u16_numeral [simp]: "as_u16 0 = 0" "as_u16 (Suc 0) = 1" "as_u16 (numeral w) = numeral w"
  by (simp_all add: as_u16_def)

lemma as_u16_le [width_simps]: "m < 65536 \<Longrightarrow> n < 65536 \<Longrightarrow> as_u16 m \<le> as_u16 n \<longleftrightarrow> m \<le> n"
  by (simp add: word_le_nat_alt width_simps)

lemma as_u16_less [width_simps]: "m < 65536 \<Longrightarrow> n < 65536 \<Longrightarrow> as_u16 m < as_u16 n \<longleftrightarrow> m < n"
  by (simp add: word_less_nat_alt width_simps)

lemma as_u16_minus: "n \<le> m \<Longrightarrow> as_u16 m - as_u16 n = as_u16 (m - n)"
  by (simp add: as_u16_def)

lemma as_u16_plus: "as_u16 m + as_u16 n = as_u16 (m + n)"
  by (simp add: as_u16_def)

lemma as_u16_div2: "n < 65536 \<Longrightarrow> as_u16 n div 2 = as_u16 (n div 2)"
  by (simp add: word_unat_eq_iff unat_div width_simps)

lemma unat_minus_one_less:
  assumes "1 \<le> (m :: 'a::len word)"
  shows "unat (m - 1) < unat m"
proof -
  have "m \<noteq> 0" using assms by auto
  then have "unat (m - 1) = unat m - 1" "0 < unat m"
    by (simp_all add: unat_minus_one unat_gt_0)
  then show ?thesis by simp
qed

lemma unat_plus_one_closer:
  assumes "m < (n :: 'a::len word)"
  shows "unat n - unat (m + 1) < unat n - unat m"
proof -
  have lt: "unat m < unat n" using assms by (simp add: word_less_nat_alt)
  moreover have "unat n < 2 ^ LENGTH('a)" by (rule unsigned_less)
  ultimately have "unat m + 1 < 2 ^ LENGTH('a)" by linarith
  then have "unat (m + 1) = unat m + 1"
    by (simp only: unat_word_ariths unsigned_1 mod_less)
  with lt show ?thesis by simp
qed

section \<open>Generic list lemmas\<close>

lemma map_nth_upto_take: "i \<le> j \<Longrightarrow> j \<le> length xs \<Longrightarrow> map (\<lambda>k. xs ! k) [i..<j] = take (j - i) (drop i xs)"
  by (rule nth_equalityI) auto

lemma sorted_wrt_less_nth_iff:
  fixes xs :: "'a::linorder list"
  assumes "sorted_wrt (<) xs" "i < length xs" "j < length xs"
  shows "xs ! i < xs ! j \<longleftrightarrow> i < j"
  by (metis assms less_asym' linorder_neqE_nat sorted_wrt_nth_less less_irrefl)

end
