(* ===== verification/Page_Io.thy ===== *)
theory Page_Io
  imports Prelude
begin

text \<open>
  The backends: \<open>src/01-btree/src/io\<close>. The trait \<open>PageIo\<close> is a record of operations over
  an arbitrary backend state \<open>'io\<close>, as a trait object carries them; the store takes the
  record as an argument. The locale \<open>page_backend\<close> states what the store relies on, and
  both backends, the in-memory page table and the memory-mapped file, interpret it.
\<close>

section \<open>The trait\<close>

type_synonym page_id = u64

record 'io page_io =
  page_size :: "'io \<Rightarrow> nat"
  read_page :: "'io \<Rightarrow> page_id \<Rightarrow> bytes option"
  write_page :: "'io \<Rightarrow> page_id \<Rightarrow> bytes \<Rightarrow> 'io option"
  sync :: "'io \<Rightarrow> 'io option"

text \<open>Writing a list of pages in order: the loop that starts a commit.\<close>

fun write_pages :: "'io page_io \<Rightarrow> 'io \<Rightarrow> (page_id \<times> bytes) list \<Rightarrow> 'io option" where
  "write_pages ops io [] = Some io"
| "write_pages ops io ((i, bs) # ws) =
     do { io' \<leftarrow> write_page ops io i bs; write_pages ops io' ws }"

text \<open>
  The contract. \<open>limit io\<close> is the number of addressable pages: the ids below it can be
  written. A write is read back, and keeps every page that could be read before.
\<close>

locale page_backend =
  fixes ops :: "'io page_io"
    and inv :: "'io \<Rightarrow> bool"
    and limit :: "'io \<Rightarrow> nat"
  assumes read_length: "inv io \<Longrightarrow> read_page ops io i = Some bs \<Longrightarrow> length bs = page_size ops io"
    and write_ok: "inv io \<Longrightarrow> unat i < limit io \<Longrightarrow> length bs = page_size ops io \<Longrightarrow>
      \<exists>io'. write_page ops io i bs = Some io'"
    and write_inv: "inv io \<Longrightarrow> write_page ops io i bs = Some io' \<Longrightarrow> inv io'"
    and write_page_size: "inv io \<Longrightarrow> write_page ops io i bs = Some io' \<Longrightarrow>
      page_size ops io' = page_size ops io"
    and write_limit: "inv io \<Longrightarrow> write_page ops io i bs = Some io' \<Longrightarrow> limit io' = limit io"
    and write_same: "inv io \<Longrightarrow> write_page ops io i bs = Some io' \<Longrightarrow> read_page ops io' i = Some bs"
    and write_other: "inv io \<Longrightarrow> write_page ops io i bs = Some io' \<Longrightarrow> j \<noteq> i \<Longrightarrow>
      read_page ops io j = Some b \<Longrightarrow> read_page ops io' j = Some b"
    and sync_id: "inv io \<Longrightarrow> sync ops io = Some io"
begin

text \<open>\<open>same_backend\<close>: what every sequence of writes keeps.\<close>

definition evolves :: "'io \<Rightarrow> 'io \<Rightarrow> bool" where
  "evolves io io' \<longleftrightarrow> inv io' \<and> page_size ops io' = page_size ops io \<and> limit io' = limit io"

lemma evolves_facts:
  assumes "evolves io io'"
  shows "inv io'" "page_size ops io' = page_size ops io" "limit io' = limit io"
  using assms by (simp_all add: evolves_def)

lemma evolves_refl: "inv io \<Longrightarrow> evolves io io"
  by (simp add: evolves_def)

lemma evolves_trans: "evolves a b \<Longrightarrow> evolves b c \<Longrightarrow> evolves a c"
  by (simp add: evolves_def)

lemma write_evolves: "inv io \<Longrightarrow> write_page ops io i bs = Some io' \<Longrightarrow> evolves io io'"
  by (simp add: evolves_def write_inv write_page_size write_limit)

lemma write_pages_ok:
  assumes "inv io"
    and "\<forall>(i, bs) \<in> set ws. unat i < limit io \<and> length bs = page_size ops io"
  shows "\<exists>io'. write_pages ops io ws = Some io' \<and> evolves io io'"
  using assms
proof (induction ws arbitrary: io)
  case Nil
  then show ?case by (simp add: evolves_refl)
next
  case (Cons w ws)
  obtain i bs where w: "w = (i, bs)" by (cases w)
  from Cons.prems w obtain io1 where io1: "write_page ops io i bs = Some io1"
    using write_ok by fastforce
  with Cons.prems(1) have ev: "evolves io io1" by (auto intro: write_evolves)
  then have "\<forall>(i, bs) \<in> set ws. unat i < limit io1 \<and> length bs = page_size ops io1"
    using Cons.prems(2) by (auto simp: evolves_def)
  with Cons.IH [of io1] ev have "\<exists>io'. write_pages ops io1 ws = Some io' \<and> evolves io1 io'"
    by (simp add: evolves_def)
  with io1 ev w show ?case by (auto intro: evolves_trans)
qed

lemma write_pages_evolves:
  "inv io \<Longrightarrow> write_pages ops io ws = Some io' \<Longrightarrow> evolves io io'"
proof (induction ws arbitrary: io)
  case Nil
  then show ?case by (simp add: evolves_refl)
next
  case (Cons w ws)
  obtain i bs where w: "w = (i, bs)" by (cases w)
  with Cons.prems(2) obtain io1 where
    io1: "write_page ops io i bs = Some io1" "write_pages ops io1 ws = Some io'"
    by (auto simp: bind_eq_Some_conv)
  with Cons.prems(1) have "evolves io io1" by (auto intro: write_evolves)
  with Cons.IH io1 show ?case by (auto simp: evolves_def intro: evolves_trans)
qed

text \<open>After the writes, a page reads as its last write, and as before if it has none.\<close>

lemma write_pages_other:
  "inv io \<Longrightarrow> write_pages ops io ws = Some io' \<Longrightarrow> j \<notin> fst ` set ws \<Longrightarrow>
    read_page ops io j = Some b \<Longrightarrow> read_page ops io' j = Some b"
proof (induction ws arbitrary: io)
  case Nil
  then show ?case by simp
next
  case (Cons w ws)
  obtain i bs where w: "w = (i, bs)" by (cases w)
  with Cons.prems(2) obtain io1 where
    io1: "write_page ops io i bs = Some io1" "write_pages ops io1 ws = Some io'"
    by (auto simp: bind_eq_Some_conv)
  with Cons.prems w have "read_page ops io1 j = Some b" by (auto intro: write_other)
  with Cons io1 w show ?case by (auto intro: write_inv)
qed

lemma write_pages_last:
  "inv io \<Longrightarrow> write_pages ops io ws = Some io' \<Longrightarrow> map_of (rev ws) j = Some b \<Longrightarrow>
    read_page ops io' j = Some b"
proof (induction ws arbitrary: io)
  case Nil
  then show ?case by simp
next
  case (Cons w ws)
  obtain i bs where w: "w = (i, bs)" by (cases w)
  with Cons.prems(2) obtain io1 where
    io1: "write_page ops io i bs = Some io1" "write_pages ops io1 ws = Some io'"
    by (auto simp: bind_eq_Some_conv)
  then have inv1: "inv io1" using Cons.prems(1) by (auto intro: write_inv)
  show ?case
  proof (cases "map_of (rev ws) j")
    case (Some c)
    with Cons.IH [OF inv1 io1(2)] Cons.prems(3) show ?thesis by (simp add: map_add_def)
  next
    case None
    with Cons.prems(3) w have "j = i" "b = bs" by (auto split: if_splits simp: map_add_def)
    moreover from None have "j \<notin> fst ` set ws" by (simp add: map_of_eq_None_iff)
    moreover have "read_page ops io1 i = Some bs" using Cons.prems(1) io1(1) by (rule write_same)
    ultimately show ?thesis using write_pages_other [OF inv1 io1(2)] by simp
  qed
qed

end

section \<open>The in-memory backend\<close>

text \<open>\<open>MemoryPageIo\<close>: a hash map of the pages written so far; an unwritten page is zeros.\<close>

record memory_page_io =
  mem_page_size :: nat
  pages :: "page_id \<rightharpoonup> bytes"

definition memory_new :: "nat \<Rightarrow> memory_page_io" where
  "memory_new ps = \<lparr>mem_page_size = ps, pages = Map.empty\<rparr>"

definition memory_read_page :: "memory_page_io \<Rightarrow> page_id \<Rightarrow> bytes option" where
  "memory_read_page io i =
     Some (case pages io i of Some bs \<Rightarrow> bs | None \<Rightarrow> replicate (mem_page_size io) 0)"

definition memory_write_page :: "memory_page_io \<Rightarrow> page_id \<Rightarrow> bytes \<Rightarrow> memory_page_io option" where
  "memory_write_page io i bs =
     do { assert_that (length bs = mem_page_size io);
          Some (io\<lparr>pages := (pages io)(i \<mapsto> bs)\<rparr>) }"

definition memory_sync :: "memory_page_io \<Rightarrow> memory_page_io option" where
  "memory_sync io = Some io"

definition memory_ops :: "memory_page_io page_io" where
  "memory_ops = \<lparr>page_size = mem_page_size, read_page = memory_read_page,
                 write_page = memory_write_page, sync = memory_sync\<rparr>"

definition memory_inv :: "memory_page_io \<Rightarrow> bool" where
  "memory_inv io \<longleftrightarrow> (\<forall>bs \<in> ran (pages io). length bs = mem_page_size io)"

lemma memory_inv_new: "memory_inv (memory_new ps)"
  by (simp add: memory_inv_def memory_new_def)

lemma memory_ops_simps [simp]:
  "page_size memory_ops = mem_page_size" "read_page memory_ops = memory_read_page"
  "write_page memory_ops = memory_write_page" "sync memory_ops = memory_sync"
  by (simp_all add: memory_ops_def)

interpretation mem: page_backend memory_ops memory_inv "\<lambda>_. 2 ^ 64"
proof (unfold_locales, goal_cases)
  case (1 io i bs)
  then show ?case
    by (auto simp: memory_read_page_def memory_inv_def ran_def split: option.splits)
next
  case (2 io i bs)
  then show ?case by (simp add: memory_write_page_def)
next
  case (3 io i bs io')
  then show ?case
    by (fastforce simp: memory_write_page_def memory_inv_def ran_def split: if_splits)
qed (auto simp: memory_write_page_def memory_read_page_def memory_sync_def
      split: if_splits option.splits)

section \<open>The memory-mapped file\<close>

text \<open>
  \<open>MmapPageIo\<close>. The mapping and the file are one byte string: \<open>file_bytes\<close> holds the file's bytes,
  and the mapping shows them over a reserved range of \<open>mmap_len\<close> bytes. Touching the range
  past the end of the file is \<open>SIGBUS\<close>, here \<^term>\<open>None\<close>. \<open>disk_limit\<close> is the length up to which
  the operating system lets the file grow: \<open>set_len\<close> past it fails, and the caller's
  \<open>expect\<close> panics.
\<close>

record mmap_page_io =
  file_bytes :: bytes
  mmap_len :: nat
  mmap_page_size :: nat
  committed_len :: nat
  disk_limit :: nat

definition DEFAULT_MAX_SIZE :: nat where "DEFAULT_MAX_SIZE = 2 ^ 30"

definition set_len :: "bytes \<Rightarrow> nat \<Rightarrow> bytes" where
  "set_len f n = take n f @ replicate (n - length f) 0"

text \<open>
  Opening makes four system calls; \<open>os\<close> gives the error of a call that fails. \<open>contents\<close> are the
  bytes already in the file, empty for a new one.
\<close>

datatype os_call = OpenFile | Metadata | SetLen | MapRaw

definition mmap_open_with_max_size ::
    "(os_call \<Rightarrow> 'e option) \<Rightarrow> nat \<Rightarrow> bytes \<Rightarrow> nat \<Rightarrow> nat \<Rightarrow> 'e + mmap_page_io" where
  "mmap_open_with_max_size os disk contents ps max_size =
     (case os OpenFile of Some e \<Rightarrow> Inl e | None \<Rightarrow>
      case os Metadata of Some e \<Rightarrow> Inl e | None \<Rightarrow>
      let current_len = length contents; initial_len = max current_len ps
      in case (if initial_len \<noteq> current_len then os SetLen else None) of Some e \<Rightarrow> Inl e | None \<Rightarrow>
      case os MapRaw of Some e \<Rightarrow> Inl e | None \<Rightarrow>
      Inr \<lparr>file_bytes = (if initial_len \<noteq> current_len then set_len contents initial_len else contents),
           mmap_len = max max_size initial_len, mmap_page_size = ps,
           committed_len = initial_len, disk_limit = disk\<rparr>)"

definition mmap_open :: "(os_call \<Rightarrow> 'e option) \<Rightarrow> nat \<Rightarrow> bytes \<Rightarrow> nat \<Rightarrow> 'e + mmap_page_io" where
  "mmap_open os disk contents ps = mmap_open_with_max_size os disk contents ps DEFAULT_MAX_SIZE"

text \<open>\<open>id as usize * self.page_size\<close> is checked for overflow.\<close>

definition usize_mul :: "nat \<Rightarrow> nat \<Rightarrow> nat option" where
  "usize_mul a b = (if a * b < 2 ^ 64 then Some (a * b) else None)"

definition ensure_committed :: "mmap_page_io \<Rightarrow> nat \<Rightarrow> mmap_page_io option" where
  "ensure_committed io needed =
     (if needed > committed_len io then
        do { assert_that (needed \<le> mmap_len io);
             assert_that (needed \<le> disk_limit io);
             Some (io\<lparr>file_bytes := set_len (file_bytes io) needed, committed_len := needed\<rparr>) }
      else Some io)"

definition read_at :: "mmap_page_io \<Rightarrow> nat \<Rightarrow> nat \<Rightarrow> bytes option" where
  "read_at io offset len =
     do { assert_that (offset + len \<le> mmap_len io);
          slice_of (file_bytes io) offset (offset + len) }"

definition write_at :: "mmap_page_io \<Rightarrow> nat \<Rightarrow> bytes \<Rightarrow> mmap_page_io option" where
  "write_at io offset bs =
     do { assert_that (offset + length bs \<le> mmap_len io);
          f \<leftarrow> copy_into (file_bytes io) offset (offset + length bs) bs;
          Some (io\<lparr>file_bytes := f\<rparr>) }"

definition mmap_read_page :: "mmap_page_io \<Rightarrow> page_id \<Rightarrow> bytes option" where
  "mmap_read_page io i =
     do { offset \<leftarrow> usize_mul (unat i) (mmap_page_size io);
          read_at io offset (mmap_page_size io) }"

definition mmap_write_page :: "mmap_page_io \<Rightarrow> page_id \<Rightarrow> bytes \<Rightarrow> mmap_page_io option" where
  "mmap_write_page io i bs =
     do { assert_that (length bs = mmap_page_size io);
          offset \<leftarrow> usize_mul (unat i) (mmap_page_size io);
          io' \<leftarrow> ensure_committed io (offset + mmap_page_size io);
          write_at io' offset bs }"

definition mmap_sync :: "mmap_page_io \<Rightarrow> mmap_page_io option" where
  "mmap_sync io = Some io"

definition mmap_ops :: "mmap_page_io page_io" where
  "mmap_ops = \<lparr>page_size = mmap_page_size, read_page = mmap_read_page,
               write_page = mmap_write_page, sync = mmap_sync\<rparr>"

lemma mmap_ops_simps [simp]:
  "page_size mmap_ops = mmap_page_size" "read_page mmap_ops = mmap_read_page"
  "write_page mmap_ops = mmap_write_page" "sync mmap_ops = mmap_sync"
  by (simp_all add: mmap_ops_def)

definition mmap_inv :: "mmap_page_io \<Rightarrow> bool" where
  "mmap_inv io \<longleftrightarrow> 0 < mmap_page_size io \<and> committed_len io = length (file_bytes io) \<and>
     mmap_page_size io \<le> length (file_bytes io) \<and> length (file_bytes io) \<le> mmap_len io \<and> mmap_len io < 2 ^ 64"

definition mmap_limit :: "mmap_page_io \<Rightarrow> nat" where
  "mmap_limit io = min (mmap_len io) (disk_limit io) div mmap_page_size io"

lemma set_len_slice:
  "length f \<le> n \<Longrightarrow> slice_of f a b = Some s \<Longrightarrow> slice_of (set_len f n) a b = Some s"
  by (auto simp: set_len_def slice_of_def split: if_splits)

lemma length_set_len [simp]: "length (set_len f n) = n"
  by (simp add: set_len_def)

text \<open>A page write unfolded: where the file ends up, and the copy into it.\<close>

lemma mmap_write_page_cases:
  assumes "mmap_inv io" "mmap_write_page io i bs = Some io'"
  obtains f g where
    "f = set_len (file_bytes io) (max (length (file_bytes io)) (unat i * mmap_page_size io + mmap_page_size io))"
    "copy_into f (unat i * mmap_page_size io) (unat i * mmap_page_size io + mmap_page_size io) bs = Some g"
    "length bs = mmap_page_size io" "length g = length f" "length f \<le> mmap_len io"
    "unat i * mmap_page_size io < 2 ^ 64"
    "io' = io\<lparr>file_bytes := g, committed_len := length g\<rparr>"
proof -
  let ?o = "unat i * mmap_page_size io" and ?p = "mmap_page_size io"
  let ?f = "set_len (file_bytes io) (max (length (file_bytes io)) (?o + ?p))"
  have same: "set_len (file_bytes io) (length (file_bytes io)) = file_bytes io"
    by (simp add: set_len_def)
  from assms obtain io1 g where bs: "length bs = ?p" and o: "?o < 2 ^ 64"
    and io1: "ensure_committed io (?o + ?p) = Some io1"
    and g: "copy_into (file_bytes io1) ?o (?o + ?p) bs = Some g"
    and io': "io' = io1\<lparr>file_bytes := g\<rparr>"
    by (auto simp: mmap_write_page_def usize_mul_def write_at_def bind_eq_Some_conv split: if_splits)
  have f: "file_bytes io1 = ?f" "committed_len io1 = length ?f" "length ?f \<le> mmap_len io"
    "io1 = io\<lparr>file_bytes := ?f, committed_len := length ?f\<rparr>"
    using io1 assms(1) same
    by (auto simp: ensure_committed_def mmap_inv_def max_def not_less split: if_splits)
  have "length g = length ?f" using g f(1) by (simp add: length_copy_into)
  with that [of ?f g] bs o g f io' show ?thesis by simp
qed

lemma mmap_write_page_frame:
  assumes "mmap_inv io" "mmap_write_page io i bs = Some io'"
  shows "mmap_inv io'" "mmap_page_size io' = mmap_page_size io" "mmap_limit io' = mmap_limit io"
    "length bs = mmap_page_size io"
proof -
  from assms obtain f g where
    f: "f = set_len (file_bytes io)
              (max (length (file_bytes io)) (unat i * mmap_page_size io + mmap_page_size io))"
    and g: "length bs = mmap_page_size io" "length g = length f" "length f \<le> mmap_len io"
    and io': "io' = io\<lparr>file_bytes := g, committed_len := length g\<rparr>"
    by (rule mmap_write_page_cases) blast
  have "length g = max (length (file_bytes io)) (unat i * mmap_page_size io + mmap_page_size io)"
    using f g by simp
  then show "mmap_inv io'" "mmap_page_size io' = mmap_page_size io" "mmap_limit io' = mmap_limit io"
    "length bs = mmap_page_size io"
    using assms(1) g io' by (auto simp: mmap_inv_def mmap_limit_def)
qed

lemma mmap_write_page_ok:
  assumes "mmap_inv io" "unat i < mmap_limit io" "length bs = mmap_page_size io"
  shows "\<exists>io'. mmap_write_page io i bs = Some io'"
proof -
  let ?p = "mmap_page_size io"
  have "Suc (unat i) * ?p \<le> min (mmap_len io) (disk_limit io)"
    using assms(2) unfolding mmap_limit_def
    by (meson Suc_leI div_times_less_eq_dividend le_trans mult_le_mono1)
  then have lim: "unat i * ?p + ?p \<le> mmap_len io" "unat i * ?p + ?p \<le> disk_limit io"
    by simp_all
  have "unat i * ?p < 2 ^ 64" using lim(1) assms(1) by (simp add: mmap_inv_def)
  with assms lim show ?thesis
    by (auto simp: mmap_write_page_def usize_mul_def ensure_committed_def write_at_def
        copy_into_def mmap_inv_def not_less)
qed

lemma mmap_read_page_eq:
  "mmap_inv io \<Longrightarrow> mmap_read_page io i = Some b \<longleftrightarrow>
     slice_of (file_bytes io) (unat i * mmap_page_size io)
       (unat i * mmap_page_size io + mmap_page_size io) = Some b"
  by (auto simp: mmap_read_page_def usize_mul_def read_at_def mmap_inv_def slice_of_def
      split: if_splits)

lemma pages_disjoint:
  fixes i j :: page_id
  assumes "i \<noteq> j"
  shows "unat j * p + p \<le> unat i * p \<or> unat i * p + p \<le> unat j * p"
proof -
  have "unat i \<noteq> unat j" using assms by (simp add: word_unat_eq_iff)
  then have "Suc (unat j) \<le> unat i \<or> Suc (unat i) \<le> unat j" by arith
  then show ?thesis
    by (metis add.commute mult_Suc mult_le_mono1)
qed

interpretation mmap: page_backend mmap_ops mmap_inv mmap_limit
proof (unfold_locales, goal_cases)
  case (1 io i bs)
  then show ?case by (auto simp: mmap_read_page_eq slice_of_eq_Some)
next
  case (2 io i bs)
  then show ?case by (simp add: mmap_write_page_ok)
next
  case (3 io i bs io')
  then show ?case by (simp add: mmap_write_page_frame)
next
  case (4 io i bs io')
  then show ?case by (simp add: mmap_write_page_frame)
next
  case (5 io i bs io')
  then show ?case by (simp add: mmap_write_page_frame)
next
  case (6 io i bs io')
  then have "mmap_inv io'" by (simp add: mmap_write_page_frame)
  with 6 show ?case
    by (auto simp: mmap_read_page_eq elim!: mmap_write_page_cases dest: slice_copy_same)
next
  case (7 io i bs io' j b)
  then have inv': "mmap_inv io'" by (simp add: mmap_write_page_frame)
  from 7(1,2) obtain f g where
    f: "f = set_len (file_bytes io)
              (max (length (file_bytes io)) (unat i * mmap_page_size io + mmap_page_size io))"
    and g: "copy_into f (unat i * mmap_page_size io)
              (unat i * mmap_page_size io + mmap_page_size io) bs = Some g"
    and io': "io' = io\<lparr>file_bytes := g, committed_len := length g\<rparr>"
    by (auto elim!: mmap_write_page_cases)
  let ?o = "unat j * mmap_page_size io"
  have "slice_of (file_bytes io) ?o (?o + mmap_page_size io) = Some b"
    using 7 by (simp add: mmap_read_page_eq)
  then have "slice_of f ?o (?o + mmap_page_size io) = Some b"
    by (simp add: f set_len_slice)
  with g have "slice_of g ?o (?o + mmap_page_size io) = Some b"
    using pages_disjoint [of i j] 7(3) by (blast intro: slice_copy_other)
  then show ?case using inv' io' by (simp add: mmap_read_page_eq)
next
  case (8 io)
  then show ?case by (simp add: mmap_sync_def)
qed

text \<open>Opening a file gives a backend that satisfies the contract and shows the file's bytes.\<close>

lemma mmap_open_inv:
  assumes "mmap_open_with_max_size os disk contents ps max_size = Inr io" "0 < ps"
    and "max max_size (max (length contents) ps) < 2 ^ 64"
  shows "mmap_inv io" and "take (length contents) (file_bytes io) = contents"
  using assms
  by (auto simp: mmap_open_with_max_size_def mmap_inv_def Let_def set_len_def
      split: option.splits if_splits)

section \<open>Properties\<close>

text \<open>The mapped file as page storage: a page below the ceiling can be written, is read back, and the
  write changes no other page that could be read and nothing of the invariant.\<close>

lemma mmap_write_page_correct:
  assumes "mmap_inv io" "unat i < mmap_limit io" "length bs = mmap_page_size io"
  shows "\<exists>io'. mmap_write_page io i bs = Some io' \<and> mmap_inv io' \<and> mmap_read_page io' i = Some bs \<and>
    (\<forall>j b. j \<noteq> i \<and> mmap_read_page io j = Some b \<longrightarrow> mmap_read_page io' j = Some b)"
proof -
  obtain io' where io': "mmap_write_page io i bs = Some io'" using mmap_write_page_ok [OF assms] by blast
  then show ?thesis
    using assms(1) mmap.write_same [of io i bs io'] mmap.write_other [of io i bs io'] mmap_write_page_frame [of io i bs io']
    by auto
qed

lemma mmap_write_page_correct_witness:
  "\<exists>io'. mmap_write_page \<lparr>file_bytes = replicate 64 0, mmap_len = 256, mmap_page_size = 64,
       committed_len = 64, disk_limit = 200\<rparr> 2 (replicate 64 7) = Some io' \<and>
     mmap_read_page io' 2 = Some (replicate 64 7) \<and> mmap_read_page io' 0 = Some (replicate 64 0)"
proof -
  let ?io = "\<lparr>file_bytes = replicate 64 0, mmap_len = 256, mmap_page_size = 64, committed_len = 64, disk_limit = 200\<rparr>"
  have "mmap_read_page ?io 0 = Some (replicate 64 0)"
    by (simp add: mmap_read_page_def usize_mul_def read_at_def slice_of_def)
  then show ?thesis
    using mmap_write_page_correct [of ?io 2 "replicate 64 7"] by (fastforce simp: mmap_inv_def mmap_limit_def)
qed



end
