(* ===== verification/Page_Codec.thy ===== *)
theory Page_Codec
  imports Page_Io
begin

text \<open>
  The contract that the four page layouts share: a value that fits is serialised into
  exactly one page, and decoding that page gives the value back. Each layout interprets it in
  its own theory. The page-type tags are those of \<open>src/01-btree/src/page/mod.rs\<close>.
\<close>

definition PAGE_TYPE_HEADER :: byte where "PAGE_TYPE_HEADER = 0x2A"
definition PAGE_TYPE_LEAF :: byte where "PAGE_TYPE_LEAF = 0x01"
definition PAGE_TYPE_INTERNAL :: byte where "PAGE_TYPE_INTERNAL = 0x02"
definition PAGE_TYPE_FREE_LIST :: byte where "PAGE_TYPE_FREE_LIST = 0x03"

lemmas page_type_defs =
  PAGE_TYPE_HEADER_def PAGE_TYPE_LEAF_def PAGE_TYPE_INTERNAL_def PAGE_TYPE_FREE_LIST_def

locale page_codec =
  fixes encode :: "'a \<Rightarrow> bytes option"
    and decode :: "bytes \<Rightarrow> 'a option"
    and fits :: "'a \<Rightarrow> bool"
    and size_of_page :: nat
  assumes encode_ok: "fits x \<Longrightarrow> \<exists>bs. encode x = Some bs \<and> length bs = size_of_page"
    and decode_encode: "fits x \<Longrightarrow> encode x = Some bs \<Longrightarrow> decode bs = Some x"
begin

lemma encode_length: "fits x \<Longrightarrow> encode x = Some bs \<Longrightarrow> length bs = size_of_page"
  using encode_ok [of x] by auto

lemma encode_decode_bind: "fits x \<Longrightarrow> Option.bind (encode x) decode = Some x"
  using encode_ok [of x] decode_encode [of x] by auto

lemma encode_inj: "fits x \<Longrightarrow> fits y \<Longrightarrow> encode x = encode y \<Longrightarrow> x = y"
  using encode_ok [of x] by (metis decode_encode option.inject)

end

section \<open>Filling a zeroed page from the front\<close>

lemma put_at_zeros [simp]: "0 < n \<Longrightarrow> put_at (replicate n 0) 0 x = Some (x # replicate (n - 1) 0)"
  by (cases n) (simp_all add: put_at_def)

section \<open>A sequence of encoded items and the table of their offsets\<close>

text \<open>
  Leaf entries and internal keys are both stored back to back in one buffer, with an in-memory
  table of \<open>u16\<close> offsets: the start of each item, and the end of the last.
\<close>

definition enc_all :: "('a \<Rightarrow> bytes) \<Rightarrow> 'a list \<Rightarrow> bytes" where
  "enc_all enc xs = concat (map enc xs)"

definition offsets :: "('a \<Rightarrow> bytes) \<Rightarrow> 'a list \<Rightarrow> u16 list" where
  "offsets enc xs = map (\<lambda>j. as_u16 (length (enc_all enc (take j xs)))) [0..<Suc (length xs)]"

lemma enc_all_simps [simp]:
  "enc_all enc [] = []" "enc_all enc (x # xs) = enc x @ enc_all enc xs"
  "enc_all enc (xs @ ys) = enc_all enc xs @ enc_all enc ys"
  by (simp_all add: enc_all_def)

lemma enc_all_split:
  assumes "i < length xs"
  shows "enc_all enc xs = enc_all enc (take i xs) @ enc (xs ! i) @ enc_all enc (drop (Suc i) xs)"
proof -
  have "xs = take i xs @ xs ! i # drop (Suc i) xs" using assms by (rule id_take_nth_drop)
  then show ?thesis by (metis enc_all_simps(2,3))
qed

lemma enc_all_take_le: "length (enc_all enc (take i xs)) \<le> length (enc_all enc xs)"
  by (metis append_take_drop_id enc_all_simps(3) le_add1 length_append)

lemma enc_all_take_Suc:
  "m < length xs \<Longrightarrow> length (enc_all enc (take (Suc m) xs)) = length (enc_all enc (take m xs)) + length (enc (xs ! m))"
  by (simp add: take_Suc_conv_app_nth)

lemma enc_all_bound:
  "\<forall>x \<in> set xs. length (enc x) + c \<le> B \<Longrightarrow> length (enc_all enc xs) + c * length xs \<le> B * length xs"
  by (induction xs) auto

lemma enc_all_drop: "length (enc_all enc (drop m xs)) = length (enc_all enc xs) - length (enc_all enc (take m xs))"
  by (metis append_take_drop_id add_diff_cancel_left' enc_all_simps(3) length_append)

lemma length_offsets [simp]: "length (offsets enc xs) = Suc (length xs)"
  by (simp add: offsets_def)

lemma offsets_nth: "i \<le> length xs \<Longrightarrow> offsets enc xs ! i = as_u16 (length (enc_all enc (take i xs)))"
  by (simp add: offsets_def nth_append less_Suc_eq_le del: upt_Suc)

lemma offsets_Nil [simp]: "offsets enc [] = [0]"
  by (simp add: offsets_def)

lemma offsets_snoc: "offsets enc (xs @ [x]) = offsets enc xs @ [as_u16 (length (enc_all enc (xs @ [x])))]"
proof -
  have "map (\<lambda>j. as_u16 (length (enc_all enc (take j (xs @ [x]))))) [0..<Suc (length xs)] =
        map (\<lambda>j. as_u16 (length (enc_all enc (take j xs)))) [0..<Suc (length xs)]"
    by (rule map_cong) (auto simp: less_Suc_eq_le)
  then show ?thesis by (simp add: offsets_def)
qed

section \<open>Choosing a split point\<close>

text \<open>
  Leaf and internal splits choose the split point with the same two loops over their closures
  \<open>left_bytes\<close> and \<open>right_bytes\<close>: from the middle down until the left part fits the page, then
  up until the right part fits.
\<close>

function split_down :: "(u16 \<Rightarrow> u16 option) \<Rightarrow> u16 \<Rightarrow> u16 \<Rightarrow> u16 option" where
  "split_down left_bytes ps m =
     (if 1 \<le> m then
        do { b \<leftarrow> left_bytes m;
             if b > ps then split_down left_bytes ps (m - 1) else Some m }
      else Some m)"
  by pat_completeness auto
termination
  by (relation "measure (\<lambda>(f, ps, m). unat m)") (auto intro: unat_minus_one_less)

function split_up :: "(u16 \<Rightarrow> u16 option) \<Rightarrow> u16 \<Rightarrow> u16 \<Rightarrow> u16 \<Rightarrow> u16 option" where
  "split_up right_bytes ps n m =
     (if m < n - 1 then
        do { b \<leftarrow> right_bytes m;
             if b > ps then split_up right_bytes ps n (m + 1) else Some m }
      else Some m)"
  by pat_completeness auto
termination
  by (relation "measure (\<lambda>(f, ps, n, m). unat (n - 1) - unat m)")
    (auto intro: unat_plus_one_closer)

declare split_down.simps [simp del] split_up.simps [simp del]

lemma split_down_spec:
  assumes "\<And>j. j \<le> m \<Longrightarrow> f (as_u16 j) = Some (as_u16 (F j)) \<and> F j < 65536" "m < 65536" "ps < 65536"
  shows "\<exists>m1 \<le> m. split_down f (as_u16 ps) (as_u16 m) = Some (as_u16 m1) \<and>
    (m1 = 0 \<or> F m1 \<le> ps) \<and> (m1 < m \<longrightarrow> ps < F (Suc m1))"
  using assms(1,2)
proof (induction m)
  case 0
  then show ?case by (simp add: split_down.simps)
next
  case (Suc m)
  have f: "f (as_u16 (Suc m)) = Some (as_u16 (F (Suc m)))" "F (Suc m) < 65536"
    using Suc.prems(1) [of "Suc m"] by simp_all
  have one: "1 \<le> as_u16 (Suc m)" and pred: "as_u16 (Suc m) - 1 = as_u16 m"
    using as_u16_le [of 1 "Suc m"] Suc.prems(2) as_u16_minus [of 1 "Suc m"] by simp_all
  have cmp: "as_u16 ps < as_u16 (F (Suc m)) \<longleftrightarrow> ps < F (Suc m)"
    using f(2) assms(3) by (rule as_u16_less [rotated])
  have step: "split_down f (as_u16 ps) (as_u16 (Suc m)) =
      (if ps < F (Suc m) then split_down f (as_u16 ps) (as_u16 m) else Some (as_u16 (Suc m)))"
    using one by (subst split_down.simps) (simp only: f if_True Option.bind.simps cmp pred)
  show ?case
  proof (cases "ps < F (Suc m)")
    case True
    from Suc.IH Suc.prems obtain m1 where "m1 \<le> m"
      "split_down f (as_u16 ps) (as_u16 m) = Some (as_u16 m1)"
      "m1 = 0 \<or> F m1 \<le> ps" "m1 < m \<longrightarrow> ps < F (Suc m1)"
      by auto
    with True step show ?thesis
      by (intro exI [of _ m1]) (auto simp: le_less less_Suc_eq)
  next
    case False
    with step show ?thesis by (intro exI [of _ "Suc m"]) auto
  qed
qed

lemma split_up_spec:
  assumes "\<And>j. m \<le> j \<Longrightarrow> j < n - 1 \<Longrightarrow> f (as_u16 j) = Some (as_u16 (F j)) \<and> F j < 65536"
    and "m < n" "n < 65536" "ps < 65536"
  shows "\<exists>m2. m \<le> m2 \<and> m2 < n \<and> split_up f (as_u16 ps) (as_u16 n) (as_u16 m) = Some (as_u16 m2) \<and>
    (m2 = n - 1 \<or> F m2 \<le> ps) \<and> (m < m2 \<longrightarrow> ps < F (m2 - 1))"
  using assms(1,2)
proof (induction "n - m" arbitrary: m)
  case 0
  then show ?case by simp
next
  case (Suc d)
  let ?up = "split_up f (as_u16 ps) (as_u16 n)"
  have last: "as_u16 n - 1 = as_u16 (n - 1)" and succ: "as_u16 m + 1 = as_u16 (Suc m)"
    using Suc.prems as_u16_minus [of 1 n] as_u16_plus [of m 1] by simp_all
  have more: "as_u16 m < as_u16 (n - 1) \<longleftrightarrow> m < n - 1"
    using assms(3) Suc.prems(2) by (intro as_u16_less) simp_all
  show ?case
  proof (cases "m < n - 1")
    case False
    then have "?up (as_u16 m) = Some (as_u16 m)"
      by (subst split_up.simps) (simp only: last more if_False)
    with False Suc.prems(2) show ?thesis by (intro exI [of _ m]) auto
  next
    case True
    have f: "f (as_u16 m) = Some (as_u16 (F m))" "F m < 65536"
      using Suc.prems(1) [of m] True by simp_all
    have cmp: "as_u16 ps < as_u16 (F m) \<longleftrightarrow> ps < F m"
      using f(2) assms(4) by (rule as_u16_less [rotated])
    have step: "?up (as_u16 m) = (if ps < F m then ?up (as_u16 (Suc m)) else Some (as_u16 m))"
      using True by (subst split_up.simps) (simp only: last succ more cmp f if_True Option.bind.simps)
    show ?thesis
    proof (cases "ps < F m")
      case False
      with step Suc.prems(2) show ?thesis by (intro exI [of _ m]) auto
    next
      case big: True
      from True have "Suc m < n" "d = n - Suc m" using Suc.hyps(2) by linarith+
      with Suc.hyps(1) [of "Suc m"] Suc.prems(1) obtain m2 where m2: "Suc m \<le> m2" "m2 < n"
        "?up (as_u16 (Suc m)) = Some (as_u16 m2)" "m2 = n - 1 \<or> F m2 \<le> ps"
        "Suc m < m2 \<longrightarrow> ps < F (m2 - 1)"
        by (meson Suc_leD)
      have "ps < F (m2 - 1)"
      proof (cases "Suc m = m2")
        case True
        then have "m2 - 1 = m" by simp
        with big show ?thesis by simp
      qed (use m2(1,5) in simp)
      with big step m2 show ?thesis
        by (intro exI [of _ m2]) simp
    qed
  qed
qed

end
