(* ===== verification/Sorted_Alist.thy ===== *)
theory Sorted_Alist
  imports Prelude
begin

text \<open>
  The abstract view of the index: a list of key-value pairs in strictly increasing order of
  their keys. \<open>upsert\<close> is what a \<open>put\<close> promises and \<^const>\<open>map_of\<close> what a \<open>get\<close> promises.
  \<open>lower_bound\<close> and \<open>upper_bound\<close> are the positions the two binary searches look for.
\<close>

abbreviation sorted_keys :: "'a::linorder list \<Rightarrow> bool" where
  "sorted_keys ks \<equiv> sorted_wrt (<) ks"

fun upsert :: "'k::linorder \<Rightarrow> 'v \<Rightarrow> ('k \<times> 'v) list \<Rightarrow> ('k \<times> 'v) list" where
  "upsert k v [] = [(k, v)]"
| "upsert k v (p # ps) =
     (if fst p < k then p # upsert k v ps
      else (k, v) # (if fst p = k then ps else p # ps))"

lemma fst_set_upsert: "fst ` set (upsert k v ps) = insert k (fst ` set ps)"
  by (induction ps) auto

lemma map_of_upsert: "map_of (upsert k v ps) = (map_of ps)(k \<mapsto> v)"
  by (induction ps) (auto simp: fun_eq_iff)

lemma sorted_upsert: "sorted_keys (map fst ps) \<Longrightarrow> sorted_keys (map fst (upsert k v ps))"
proof (induction ps)
  case Nil
  then show ?case by simp
next
  case (Cons p ps)
  have "\<forall>a \<in> fst ` set (upsert k v ps). fst p < a" if "fst p < k"
    using Cons.prems that by (auto simp: fst_set_upsert)
  with Cons show ?case by auto
qed

lemma upsert_append_right:
  "\<forall>a \<in> fst ` set xs. a < k \<Longrightarrow> upsert k v (xs @ ys) = xs @ upsert k v ys"
  by (induction xs) auto

lemma upsert_append_left:
  "\<forall>a \<in> fst ` set ys. k < a \<Longrightarrow> upsert k v (xs @ ys) = upsert k v xs @ ys"
proof (induction xs)
  case Nil
  then show ?case by (cases ys) auto
qed simp

lemma map_of_append_middle:
  assumes "k \<notin> fst ` set xs" "k \<notin> fst ` set zs"
  shows "map_of (xs @ ys @ zs) k = map_of ys k"
proof -
  have "map_of xs k = None" "map_of zs k = None"
    using assms by (simp_all add: map_of_eq_None_iff)
  then show ?thesis by (simp add: map_add_def split: option.splits)
qed

section \<open>Positions in a sorted list\<close>

definition lower_bound :: "'a::linorder list \<Rightarrow> 'a \<Rightarrow> nat" where
  "lower_bound ks k = length (filter (\<lambda>a. a < k) ks)"

definition upper_bound :: "'a::linorder list \<Rightarrow> 'a \<Rightarrow> nat" where
  "upper_bound ks k = length (filter (\<lambda>a. a \<le> k) ks)"

lemma length_filter_prefix:
  assumes "p \<le> length ks" "\<forall>i < p. P (ks ! i)" "\<forall>i. p \<le> i \<longrightarrow> i < length ks \<longrightarrow> \<not> P (ks ! i)"
  shows "length (filter P ks) = p"
proof -
  have "filter P (take p ks) = take p ks"
    using assms(1,2) by (auto simp: filter_id_conv in_set_conv_nth)
  moreover have "filter P (drop p ks) = []"
    using assms(1,3) by (auto simp: filter_empty_conv in_set_conv_nth)
  ultimately have "filter P ks = take p ks"
    by (metis append_Nil2 append_take_drop_id filter_append)
  then show ?thesis using assms(1) by simp
qed

lemma lower_bound_eq:
  assumes "p \<le> length ks" "\<forall>i < p. ks ! i < k" "\<forall>i. p \<le> i \<longrightarrow> i < length ks \<longrightarrow> k \<le> ks ! i"
  shows "lower_bound ks k = p"
  using assms unfolding lower_bound_def by (intro length_filter_prefix) (auto simp: not_less)

lemma upper_bound_eq:
  assumes "p \<le> length ks" "\<forall>i < p. ks ! i \<le> k" "\<forall>i. p \<le> i \<longrightarrow> i < length ks \<longrightarrow> k < ks ! i"
  shows "upper_bound ks k = p"
  using assms unfolding upper_bound_def by (intro length_filter_prefix) (auto simp: not_le)

lemma sorted_below:
  "sorted_keys ks \<Longrightarrow> i < m \<Longrightarrow> m < length ks \<Longrightarrow> ks ! m \<le> k \<Longrightarrow> ks ! i < k"
  by (meson less_le_trans sorted_wrt_nth_less)

lemma sorted_above:
  "sorted_keys ks \<Longrightarrow> m < i \<Longrightarrow> i < length ks \<Longrightarrow> k \<le> ks ! m \<Longrightarrow> k < ks ! i"
  by (meson le_less_trans sorted_wrt_nth_less)

lemma lower_bound_le [simp]: "lower_bound ks k \<le> length ks"
  by (simp add: lower_bound_def)

lemma upper_bound_le [simp]: "upper_bound ks k \<le> length ks"
  by (simp add: upper_bound_def)

lemma filter_sorted_prefix:
  assumes "sorted_keys ks" "\<And>a b. a < b \<Longrightarrow> P b \<Longrightarrow> P a"
  shows "filter P ks = take (length (filter P ks)) ks"
  using assms
proof (induction ks)
  case Nil
  then show ?case by simp
next
  case (Cons a ks)
  show ?case
  proof (cases "P a")
    case True
    with Cons show ?thesis by simp
  next
    case False
    then have "filter P ks = []" using Cons.prems by (auto simp: filter_empty_conv)
    with False show ?thesis by simp
  qed
qed

lemma filter_prefix_split:
  assumes "filter P ks = take p ks" "p = length (filter P ks)"
  shows "i < p \<Longrightarrow> P (ks ! i)" and "p \<le> i \<Longrightarrow> i < length ks \<Longrightarrow> \<not> P (ks ! i)"
proof -
  have le: "p \<le> length ks" using assms(2) by simp
  show "P (ks ! i)" if "i < p"
  proof -
    have "ks ! i = filter P ks ! i" using assms(1) that by simp
    moreover have "filter P ks ! i \<in> set (filter P ks)"
      using assms(2) that by (intro nth_mem) simp
    ultimately show ?thesis by simp
  qed
  have "filter P (take p ks) = take p ks"
    by (simp add: assms(1) [symmetric])
  moreover have "filter P ks = filter P (take p ks) @ filter P (drop p ks)"
    by (simp flip: filter_append)
  ultimately have "filter P (drop p ks) = []" using assms(1) by simp
  then have none: "\<forall>a \<in> set (drop p ks). \<not> P a" by (simp add: filter_empty_conv)
  show "\<not> P (ks ! i)" if "p \<le> i" "i < length ks"
  proof -
    have "ks ! i = drop p ks ! (i - p)" "i - p < length (drop p ks)" using that by auto
    with none show ?thesis by (metis nth_mem)
  qed
qed

lemma lower_bound_split:
  assumes "sorted_keys ks"
  shows "i < lower_bound ks k \<Longrightarrow> ks ! i < k"
    and "lower_bound ks k \<le> i \<Longrightarrow> i < length ks \<Longrightarrow> k \<le> ks ! i"
proof -
  have "filter (\<lambda>a. a < k) ks = take (lower_bound ks k) ks"
    using filter_sorted_prefix [OF assms, of "\<lambda>a. a < k"] by (simp add: lower_bound_def)
  note split = filter_prefix_split [OF this lower_bound_def]
  show "i < lower_bound ks k \<Longrightarrow> ks ! i < k" by (rule split)
  show "lower_bound ks k \<le> i \<Longrightarrow> i < length ks \<Longrightarrow> k \<le> ks ! i"
    using split(2) by (simp add: not_less)
qed

lemma upper_bound_split:
  assumes "sorted_keys ks"
  shows "i < upper_bound ks k \<Longrightarrow> ks ! i \<le> k"
    and "upper_bound ks k \<le> i \<Longrightarrow> i < length ks \<Longrightarrow> k < ks ! i"
proof -
  have "filter (\<lambda>a. a \<le> k) ks = take (upper_bound ks k) ks"
    using filter_sorted_prefix [OF assms, of "\<lambda>a. a \<le> k"] by (simp add: upper_bound_def)
  note split = filter_prefix_split [OF this upper_bound_def]
  show "i < upper_bound ks k \<Longrightarrow> ks ! i \<le> k" by (rule split)
  show "upper_bound ks k \<le> i \<Longrightarrow> i < length ks \<Longrightarrow> k < ks ! i"
    using split(2) by (simp add: not_le)
qed

text \<open>\<open>upsert\<close> by position, as the leaf operations do it.\<close>

lemma upsert_at:
  assumes "sorted_keys (map fst ps)"
  shows "upsert k v ps =
    (let p = lower_bound (map fst ps) k
     in take p ps @ (k, v) # drop (if p < length ps \<and> fst (ps ! p) = k then Suc p else p) ps)"
  using assms
proof (induction ps)
  case Nil
  then show ?case by (simp add: lower_bound_def)
next
  case (Cons a ps)
  show ?case
  proof (cases "fst a < k")
    case True
    with Cons show ?thesis by (simp add: lower_bound_def Let_def)
  next
    case False
    then have "filter (\<lambda>a. a < k) (map fst ps) = []"
      using Cons.prems by (auto simp: filter_empty_conv)
    with False show ?thesis by (auto simp: lower_bound_def Let_def)
  qed
qed

lemma map_of_at:
  assumes "sorted_keys (map fst ps)"
  shows "map_of ps k =
    (let p = lower_bound (map fst ps) k
     in if p < length ps \<and> fst (ps ! p) = k then Some (snd (ps ! p)) else None)"
  using assms
proof (induction ps)
  case Nil
  then show ?case by (simp add: lower_bound_def)
next
  case (Cons a ps)
  show ?case
  proof (cases "fst a < k")
    case True
    with Cons show ?thesis by (auto simp add: lower_bound_def Let_def)
  next
    case False
    then have "filter (\<lambda>a. a < k) (map fst ps) = []"
      using Cons.prems by (auto simp: filter_empty_conv)
    moreover have "k \<notin> fst ` set ps" if "fst a \<noteq> k"
      using Cons.prems False that by force
    ultimately show ?thesis using False
      by (auto simp: lower_bound_def Let_def map_of_eq_None_iff)
  qed
qed

end
