(* ===== verification/Leaf_Page.thy ===== *)
theory Leaf_Page
  imports Page_Codec Sorted_Alist
begin

text \<open>
  The leaf page, \<open>src/01-btree/src/page/leaf.rs\<close>. The first part is the code: the node with its
  flat byte buffer and its table of entry offsets, and every operation on it. The second part
  relates it to lists of pairs: \<open>mk_leaf i kvs\<close> is the node that holds \<open>kvs\<close>, and every
  operation on it is an equation between such nodes.
\<close>

section \<open>The code\<close>

definition LEAF_HEADER :: u16 where "LEAF_HEADER = 11"

record leaf_node =
  leaf_id :: page_id
  entries :: bytes
  entry_start :: "u16 list"

text \<open>\<open>LeafNode::empty\<close>; its argument only sizes the buffer ahead.\<close>

definition leaf_empty :: leaf_node where
  "leaf_empty = \<lparr>leaf_id = 0, entries = [], entry_start = [0]\<rparr>"

fun leaf_scan :: "bytes \<Rightarrow> nat \<Rightarrow> u16 \<Rightarrow> u16 list \<Rightarrow> (u16 \<times> u16 list) option" where
  "leaf_scan es 0 pos starts = Some (pos, starts)"
| "leaf_scan es (Suc n) pos starts =
     do { klen \<leftarrow> read_u16 es (unat pos);
          vlen \<leftarrow> read_u16 es (unat pos + 2 + unat klen);
          a \<leftarrow> u16_add 4 klen;
          b \<leftarrow> u16_add a vlen;
          pos' \<leftarrow> u16_add pos b;
          leaf_scan es n pos' (starts @ [pos']) }"

definition leaf_decode :: "page_id \<Rightarrow> bytes \<Rightarrow> leaf_node option" where
  "leaf_decode expected_id bs =
     do { tag \<leftarrow> elem_at bs 0;
          assert_that (tag = PAGE_TYPE_LEAF);
          i \<leftarrow> read_u64 bs 1;
          assert_that (i = expected_id);
          nkeys \<leftarrow> read_u16 bs 9;
          es \<leftarrow> slice_of bs (unat LEAF_HEADER) (length bs);
          (pos, starts) \<leftarrow> leaf_scan es (unat nkeys) 0 [0];
          Some \<lparr>leaf_id = i, entries = take (unat pos) es, entry_start = starts\<rparr> }"

definition leaf_nkeys :: "leaf_node \<Rightarrow> u16 option" where
  "leaf_nkeys l = do { n \<leftarrow> usize_sub (length (entry_start l)) 1; Some (as_u16 n) }"

definition leaf_get_key :: "leaf_node \<Rightarrow> u16 \<Rightarrow> bytes option" where
  "leaf_get_key l idx =
     do { start \<leftarrow> elem_at (entry_start l) (unat idx);
          klen \<leftarrow> read_u16 (entries l) (unat start);
          slice_of (entries l) (unat start + 2) (unat start + 2 + unat klen) }"

definition leaf_get_val :: "leaf_node \<Rightarrow> u16 \<Rightarrow> bytes option" where
  "leaf_get_val l idx =
     do { start \<leftarrow> elem_at (entry_start l) (unat idx);
          klen \<leftarrow> read_u16 (entries l) (unat start);
          let vstart = unat start + 2 + unat klen;
          vlen \<leftarrow> read_u16 (entries l) vstart;
          slice_of (entries l) (vstart + 2) (vstart + 2 + unat vlen) }"

definition leaf_nbytes :: "leaf_node \<Rightarrow> nat" where
  "leaf_nbytes l = unat LEAF_HEADER + length (entries l)"

definition leaf_push :: "leaf_node \<Rightarrow> bytes \<Rightarrow> bytes \<Rightarrow> leaf_node option" where
  "leaf_push l k v =
     do { n \<leftarrow> leaf_nkeys l;
          ok \<leftarrow> (if n = 0 then Some True
                else do { last_key \<leftarrow> leaf_get_key l (n - 1); Some (last_key < k) });
          assert_that ok;
          let es = entries l @ u16_to_le (as_u16 (length k)) @ k @ u16_to_le (as_u16 (length v)) @ v;
          Some (l\<lparr>entries := es, entry_start := entry_start l @ [as_u16 (length es)]\<rparr>) }"

fun leaf_push_each :: "leaf_node \<Rightarrow> leaf_node \<Rightarrow> u16 list \<Rightarrow> leaf_node option" where
  "leaf_push_each new src [] = Some new"
| "leaf_push_each new src (i # is) =
     do { k \<leftarrow> leaf_get_key src i;
          v \<leftarrow> leaf_get_val src i;
          new' \<leftarrow> leaf_push new k v;
          leaf_push_each new' src is }"

definition leaf_push_range :: "leaf_node \<Rightarrow> leaf_node \<Rightarrow> u16 \<Rightarrow> u16 \<Rightarrow> leaf_node option" where
  "leaf_push_range new src from to = leaf_push_each new src (u16_range from to)"

definition leaf_to_bytes :: "leaf_node \<Rightarrow> page_id \<Rightarrow> nat \<Rightarrow> bytes option" where
  "leaf_to_bytes l i ps =
     do { assert_that (leaf_nbytes l \<le> ps);
          b0 \<leftarrow> put_at (replicate ps 0) 0 PAGE_TYPE_LEAF;
          b1 \<leftarrow> copy_into b0 1 9 (u64_to_le i);
          n \<leftarrow> leaf_nkeys l;
          b2 \<leftarrow> copy_into b1 9 11 (u16_to_le n);
          copy_into b2 (unat LEAF_HEADER) (unat LEAF_HEADER + length (entries l)) (entries l) }"

text \<open>
  The binary search. \<open>lo\<close> and \<open>hi\<close> are \<open>i32\<close>; they stay between \<open>-1\<close> and the number of keys, a
  \<open>u16\<close>, so their arithmetic is that of \<^typ>\<open>int\<close>. The result is \<open>Ok\<close> of the index of the key or
  \<open>Err\<close> of the position where it belongs.
\<close>

function leaf_search_loop :: "leaf_node \<Rightarrow> bytes \<Rightarrow> int \<Rightarrow> int \<Rightarrow> (u16 + u16) option" where
  "leaf_search_loop node key lo hi =
     (if lo \<le> hi then
        let mid = lo + (hi - lo) div 2
        in do { k \<leftarrow> leaf_get_key node (word_of_int mid);
                if k = key then Some (Inr (word_of_int mid))
                else if k < key then leaf_search_loop node key (mid + 1) hi
                else leaf_search_loop node key lo (mid - 1) }
      else Some (Inl (word_of_int lo)))"
  by pat_completeness auto
termination
  by (relation "measure (\<lambda>(node, key, lo, hi). nat (hi - lo + 1))") auto

declare leaf_search_loop.simps [simp del]

definition leaf_search :: "leaf_node \<Rightarrow> bytes \<Rightarrow> (u16 + u16) option" where
  "leaf_search node key =
     do { n \<leftarrow> leaf_nkeys node; leaf_search_loop node key 0 (int (unat n) - 1) }"

definition leaf_insert :: "leaf_node \<Rightarrow> u16 \<Rightarrow> bytes \<Rightarrow> bytes \<Rightarrow> leaf_node option" where
  "leaf_insert old idx k v =
     do { new1 \<leftarrow> leaf_push_range leaf_empty old 0 idx;
          new2 \<leftarrow> leaf_push new1 k v;
          n \<leftarrow> leaf_nkeys old;
          leaf_push_range new2 old idx n }"

definition leaf_update :: "leaf_node \<Rightarrow> u16 \<Rightarrow> bytes \<Rightarrow> bytes \<Rightarrow> leaf_node option" where
  "leaf_update old idx k v =
     do { new1 \<leftarrow> leaf_push_range leaf_empty old 0 idx;
          new2 \<leftarrow> leaf_push new1 k v;
          next \<leftarrow> u16_add idx 1;
          n \<leftarrow> leaf_nkeys old;
          leaf_push_range new2 old next n }"

text \<open>The two closures of the split, in checked \<open>u16\<close> arithmetic.\<close>

definition leaf_left_bytes :: "leaf_node \<Rightarrow> u16 \<Rightarrow> u16 option" where
  "leaf_left_bytes old m =
     do { s \<leftarrow> elem_at (entry_start old) (unat m); u16_add LEAF_HEADER s }"

definition leaf_right_bytes :: "leaf_node \<Rightarrow> u16 \<Rightarrow> u16 option" where
  "leaf_right_bytes old m =
     do { s \<leftarrow> elem_at (entry_start old) (unat m);
          d \<leftarrow> u16_sub (as_u16 (length (entries old))) s;
          u16_add LEAF_HEADER d }"

definition leaf_split_by_size :: "leaf_node \<Rightarrow> nat \<Rightarrow> (leaf_node \<times> leaf_node) option" where
  "leaf_split_by_size old ps =
     do { n \<leftarrow> leaf_nkeys old;
          assert_that (2 \<le> n);
          assert_that (ps \<le> 65535);
          let psize = as_u16 ps;
          m1 \<leftarrow> split_down (leaf_left_bytes old) psize (n div 2);
          assert_that (1 \<le> m1);
          m \<leftarrow> split_up (leaf_right_bytes old) psize n m1;
          b \<leftarrow> leaf_right_bytes old m;
          assert_that (b \<le> psize);
          assert_that (m < n);
          left \<leftarrow> leaf_push_range leaf_empty old 0 m;
          right \<leftarrow> leaf_push_range leaf_empty old m n;
          Some (left, right) }"

section \<open>The node that holds a list of pairs\<close>

definition enc_entry :: "key \<times> val \<Rightarrow> bytes" where
  "enc_entry p = u16_to_le (as_u16 (length (fst p))) @ fst p @
     u16_to_le (as_u16 (length (snd p))) @ snd p"

abbreviation enc_entries :: "(key \<times> val) list \<Rightarrow> bytes" where
  "enc_entries \<equiv> enc_all enc_entry"

abbreviation starts :: "(key \<times> val) list \<Rightarrow> u16 list" where
  "starts \<equiv> offsets enc_entry"

definition mk_leaf :: "page_id \<Rightarrow> (key \<times> val) list \<Rightarrow> leaf_node" where
  "mk_leaf i kvs = \<lparr>leaf_id = i, entries = enc_entries kvs, entry_start = starts kvs\<rparr>"

text \<open>The offsets of the entries, and with them their lengths and number, fit \<open>u16\<close>.\<close>

definition leaf_small :: "(key \<times> val) list \<Rightarrow> bool" where
  "leaf_small kvs \<longleftrightarrow> length (enc_entries kvs) < 65536"

lemma length_enc_entry: "length (enc_entry p) = 4 + length (fst p) + length (snd p)"
  by (simp add: enc_entry_def)

lemma length_le_enc_entries: "4 * length kvs \<le> length (enc_entries kvs)"
  by (induction kvs) (simp_all add: length_enc_entry)

lemma leaf_small_length: "leaf_small kvs \<Longrightarrow> length kvs < 65536"
  using length_le_enc_entries [of kvs] by (simp add: leaf_small_def)

lemma leaf_small_append: "leaf_small (xs @ ys) \<Longrightarrow> leaf_small xs" "leaf_small (xs @ ys) \<Longrightarrow> leaf_small ys"
  by (simp_all add: leaf_small_def)

lemma leaf_small_take [simp]: "leaf_small kvs \<Longrightarrow> leaf_small (take i kvs)"
  using enc_all_take_le [of enc_entry i kvs] by (simp add: leaf_small_def)

lemma leaf_small_drop [simp]: "leaf_small kvs \<Longrightarrow> leaf_small (drop i kvs)"
  by (metis append_take_drop_id leaf_small_append(2))

lemma mk_leaf_simps [simp]:
  "leaf_id (mk_leaf i kvs) = i" "entries (mk_leaf i kvs) = enc_entries kvs"
  "entry_start (mk_leaf i kvs) = starts kvs"
  by (simp_all add: mk_leaf_def)

lemma mk_leaf_Nil: "mk_leaf 0 [] = leaf_empty"
  by (simp add: mk_leaf_def leaf_empty_def)

lemma mk_leaf_inject: "leaf_small xs \<Longrightarrow> leaf_small ys \<Longrightarrow> mk_leaf i xs = mk_leaf i ys \<Longrightarrow> length xs = length ys"
  by (metis length_offsets mk_leaf_simps(3) nat.inject)

lemma leaf_nbytes_mk: "leaf_nbytes (mk_leaf i kvs) = 11 + length (enc_entries kvs)"
  by (simp add: leaf_nbytes_def LEAF_HEADER_def)

lemma leaf_nkeys_mk: "leaf_nkeys (mk_leaf i kvs) = Some (as_u16 (length kvs))"
  by (simp add: leaf_nkeys_def)

subsection \<open>Reading an entry\<close>

lemma leaf_entry_at:
  assumes "leaf_small kvs" "j < length kvs"
  defines "off \<equiv> length (enc_entries (take j kvs))"
  shows "elem_at (entry_start (mk_leaf i kvs)) (unat (as_u16 j)) = Some (as_u16 off)"
    and "unat (as_u16 off) = off"
    and "read_u16 (enc_entries kvs) off = Some (as_u16 (length (fst (kvs ! j))))"
    and "unat (as_u16 (length (fst (kvs ! j)))) = length (fst (kvs ! j))"
    and "slice_of (enc_entries kvs) (off + 2) (off + 2 + length (fst (kvs ! j))) = Some (fst (kvs ! j))"
    and "read_u16 (enc_entries kvs) (off + 2 + length (fst (kvs ! j))) = Some (as_u16 (length (snd (kvs ! j))))"
    and "unat (as_u16 (length (snd (kvs ! j)))) = length (snd (kvs ! j))"
    and "slice_of (enc_entries kvs) (off + 2 + length (fst (kvs ! j)) + 2)
           (off + 2 + length (fst (kvs ! j)) + 2 + length (snd (kvs ! j))) = Some (snd (kvs ! j))"
proof -
  let ?pre = "enc_entries (take j kvs)" and ?post = "enc_entries (drop (Suc j) kvs)"
  let ?k = "fst (kvs ! j)" and ?v = "snd (kvs ! j)"
  let ?kl = "u16_to_le (as_u16 (length ?k))" and ?vl = "u16_to_le (as_u16 (length ?v))"
  have eq: "enc_entries kvs = ?pre @ ?kl @ ?k @ ?vl @ ?v @ ?post"
    using enc_all_split [OF assms(2)] by (simp add: enc_entry_def)
  have len: "length (enc_entries kvs) < 65536" using assms(1) by (simp add: leaf_small_def)
  have j: "unat (as_u16 j) = j"
    using leaf_small_length [OF assms(1)] assms(2) by (simp add: width_simps)
  show "elem_at (entry_start (mk_leaf i kvs)) (unat (as_u16 j)) = Some (as_u16 off)"
    using assms(2) by (simp add: j offsets_nth off_def)
  have bounds: "off < 65536" "length ?k < 65536" "length ?v < 65536"
    using len eq by (simp_all add: off_def)
  then show "unat (as_u16 off) = off" "unat (as_u16 (length ?k)) = length ?k"
    "unat (as_u16 (length ?v)) = length ?v"
    by (simp_all add: width_simps)
  show "read_u16 (enc_entries kvs) off = Some (as_u16 (length ?k))"
    unfolding eq by (simp add: read_u16_mid off_def)
  show "slice_of (enc_entries kvs) (off + 2) (off + 2 + length ?k) = Some ?k"
    unfolding eq using slice_of_mid [of "off + 2" "?pre @ ?kl" "off + 2 + length ?k" ?k] by (simp add: off_def)
  show "read_u16 (enc_entries kvs) (off + 2 + length ?k) = Some (as_u16 (length ?v))"
    unfolding eq using read_u16_mid [of "off + 2 + length ?k" "?pre @ ?kl @ ?k"] by (simp add: off_def)
  show "slice_of (enc_entries kvs) (off + 2 + length ?k + 2) (off + 2 + length ?k + 2 + length ?v) = Some ?v"
    unfolding eq using slice_of_mid [of "off + 2 + length ?k + 2" "?pre @ ?kl @ ?k @ ?vl"
        "off + 2 + length ?k + 2 + length ?v" ?v]
    by (simp add: off_def)
qed

lemma leaf_get_key_mk:
  "leaf_small kvs \<Longrightarrow> j < length kvs \<Longrightarrow> leaf_get_key (mk_leaf i kvs) (as_u16 j) = Some (fst (kvs ! j))"
  using leaf_entry_at [of kvs j] by (simp add: leaf_get_key_def)

lemma leaf_get_val_mk:
  "leaf_small kvs \<Longrightarrow> j < length kvs \<Longrightarrow> leaf_get_val (mk_leaf i kvs) (as_u16 j) = Some (snd (kvs ! j))"
  using leaf_entry_at [of kvs j] by (simp add: leaf_get_val_def Let_def)

subsection \<open>Appending entries\<close>

lemma leaf_push_small:
  assumes small: "leaf_small kvs" and "kvs = [] \<or> fst (last kvs) < k"
  shows "leaf_push (mk_leaf i kvs) k v = Some (mk_leaf i (kvs @ [(k, v)]))"
proof -
  have n: "length kvs < 65536" using small by (rule leaf_small_length)
  have new: "(mk_leaf i kvs)\<lparr>entries := enc_entries (kvs @ [(k, v)]),
      entry_start := starts kvs @ [as_u16 (length (enc_entries (kvs @ [(k, v)])))]\<rparr> =
      mk_leaf i (kvs @ [(k, v)])"
    by (simp add: mk_leaf_def offsets_snoc)
  show ?thesis
  proof (cases "kvs = []")
    case True
    with new show ?thesis by (simp add: leaf_push_def leaf_nkeys_mk enc_entry_def)
  next
    case False
    have nz: "as_u16 (length kvs) \<noteq> 0"
      using False n by (metis as_u16_numeral(1) as_u16_inject length_0_conv zero_less_numeral)
    have "as_u16 (length kvs) - 1 = as_u16 (length kvs - 1)"
      using False as_u16_minus [of 1 "length kvs"] by (simp add: Suc_leI)
    then have "leaf_get_key (mk_leaf i kvs) (as_u16 (length kvs) - 1) = Some (fst (last kvs))"
      using False small by (simp add: leaf_get_key_mk last_conv_nth)
    with False nz assms(2) new show ?thesis
      by (simp add: leaf_push_def leaf_nkeys_mk enc_entry_def)
  qed
qed

lemma leaf_push_mk:
  "leaf_small (kvs @ [(k, v)]) \<Longrightarrow> kvs = [] \<or> fst (last kvs) < k \<Longrightarrow>
    leaf_push (mk_leaf i kvs) k v = Some (mk_leaf i (kvs @ [(k, v)]))"
  by (rule leaf_push_small) (rule leaf_small_append)

lemma leaf_push_out_of_order:
  assumes "leaf_small kvs" "kvs \<noteq> []" "k \<le> fst (last kvs)"
  shows "leaf_push (mk_leaf i kvs) k v = None"
proof -
  have n: "length kvs < 65536" using assms(1) by (rule leaf_small_length)
  have nz: "as_u16 (length kvs) \<noteq> 0"
    using assms(2) n by (metis as_u16_numeral(1) as_u16_inject length_0_conv zero_less_numeral)
  have "as_u16 (length kvs) - 1 = as_u16 (length kvs - 1)"
    using assms(2) as_u16_minus [of 1 "length kvs"] by (simp add: Suc_leI)
  then have "leaf_get_key (mk_leaf i kvs) (as_u16 (length kvs) - 1) = Some (fst (last kvs))"
    using assms(1,2) by (simp add: leaf_get_key_mk last_conv_nth)
  with nz assms(3) show ?thesis
    by (simp add: leaf_push_def leaf_nkeys_mk not_less)
qed

text \<open>Copying the entries \<open>a..b\<close> of a source behind those already there.\<close>

lemma leaf_push_each_mk:
  assumes "leaf_small kvs" "b \<le> length kvs" "a \<le> b"
    and "leaf_small (xs @ take (b - a) (drop a kvs))"
    and "sorted_keys (map fst (xs @ take (b - a) (drop a kvs)))"
  shows "leaf_push_each (mk_leaf i xs) (mk_leaf j kvs) (map as_u16 [a..<b]) =
           Some (mk_leaf i (xs @ take (b - a) (drop a kvs)))"
  using assms(3-5)
proof (induction "b - a" arbitrary: a xs)
  case 0
  then show ?case by simp
next
  case (Suc d)
  then have ab: "a < b" by simp
  obtain k v where kv: "kvs ! a = (k, v)" by (cases "kvs ! a")
  have "drop a kvs = (k, v) # drop (Suc a) kvs"
    using ab assms(2) kv by (simp add: Cons_nth_drop_Suc [symmetric])
  moreover have "b - a = Suc (b - Suc a)" using ab by simp
  ultimately have tail: "take (b - a) (drop a kvs) = (k, v) # take (b - Suc a) (drop (Suc a) kvs)"
    by simp
  have sm: "leaf_small (xs @ [(k, v)])"
    using Suc.prems(2) unfolding tail by (simp add: leaf_small_def)
  have ord: "xs = [] \<or> fst (last xs) < k"
    using Suc.prems(3) unfolding tail by (cases "xs = []") (auto simp: sorted_wrt_append)
  have "leaf_push_each (mk_leaf i (xs @ [(k, v)])) (mk_leaf j kvs) (map as_u16 [Suc a..<b]) =
      Some (mk_leaf i ((xs @ [(k, v)]) @ take (b - Suc a) (drop (Suc a) kvs)))"
  proof (rule Suc.hyps(1))
    show "d = b - Suc a" "Suc a \<le> b" using Suc.hyps(2) ab by simp_all
    show "leaf_small ((xs @ [(k, v)]) @ take (b - Suc a) (drop (Suc a) kvs))"
      "sorted_keys (map fst ((xs @ [(k, v)]) @ take (b - Suc a) (drop (Suc a) kvs)))"
      using Suc.prems(2,3) unfolding tail by simp_all
  qed
  then show ?case
    using ab assms(1,2) kv sm ord unfolding tail
    by (simp add: upt_conv_Cons leaf_get_key_mk leaf_get_val_mk leaf_push_mk)
qed

lemma leaf_push_range_mk:
  assumes "leaf_small kvs" "b \<le> length kvs" "a \<le> b"
    and "leaf_small (xs @ take (b - a) (drop a kvs))"
    and "sorted_keys (map fst (xs @ take (b - a) (drop a kvs)))"
  shows "leaf_push_range (mk_leaf i xs) (mk_leaf j kvs) (as_u16 a) (as_u16 b) =
           Some (mk_leaf i (xs @ take (b - a) (drop a kvs)))"
proof -
  have "length kvs < 65536" using assms(1) by (rule leaf_small_length)
  with assms show ?thesis
    by (simp add: leaf_push_range_def u16_range_as leaf_push_each_mk)
qed

text \<open>The two uses: a prefix into an empty node, and the rest behind what is there.\<close>

lemma sorted_map_take: "sorted_keys (map fst xs) \<Longrightarrow> sorted_keys (map fst (take n xs))"
  by (metis sorted_wrt_take take_map)

lemma sorted_map_drop: "sorted_keys (map fst xs) \<Longrightarrow> sorted_keys (map fst (drop n xs))"
  by (metis sorted_wrt_drop drop_map)

lemma leaf_push_range_prefix:
  assumes "leaf_small kvs" "m \<le> length kvs" "sorted_keys (map fst kvs)"
  shows "leaf_push_range leaf_empty (mk_leaf j kvs) 0 (as_u16 m) = Some (mk_leaf 0 (take m kvs))"
  using leaf_push_range_mk [of kvs m 0 "[]" 0 j] assms
  by (simp add: mk_leaf_Nil sorted_map_take)

lemma leaf_push_range_suffix:
  assumes "leaf_small kvs" "m \<le> length kvs" "leaf_small (xs @ drop m kvs)"
    and "sorted_keys (map fst (xs @ drop m kvs))"
  shows "leaf_push_range (mk_leaf i xs) (mk_leaf j kvs) (as_u16 m) (as_u16 (length kvs)) =
           Some (mk_leaf i (xs @ drop m kvs))"
  using leaf_push_range_mk [of kvs "length kvs" m xs i j] assms by simp

subsection \<open>The page codec\<close>

definition leaf_image :: "page_id \<Rightarrow> (key \<times> val) list \<Rightarrow> bytes" where
  "leaf_image i kvs =
     PAGE_TYPE_LEAF # u64_to_le i @ u16_to_le (as_u16 (length kvs)) @ enc_entries kvs"

lemma length_leaf_image [simp]: "length (leaf_image i kvs) = 11 + length (enc_entries kvs)"
  by (simp add: leaf_image_def)

lemma leaf_to_bytes_image:
  assumes "11 + length (enc_entries kvs) \<le> ps"
  shows "leaf_to_bytes (mk_leaf j kvs) i ps =
           Some (leaf_image i kvs @ replicate (ps - 11 - length (enc_entries kvs)) 0)"
  using assms
  by (simp add: leaf_to_bytes_def leaf_nbytes_mk leaf_nkeys_mk LEAF_HEADER_def leaf_image_def
      copy_into_def drop_Cons')

lemma leaf_to_bytes_overflow: "ps < leaf_nbytes l \<Longrightarrow> leaf_to_bytes l i ps = None"
  by (simp add: leaf_to_bytes_def)

lemma leaf_scan_enc:
  assumes "leaf_small (xs @ ys)"
  shows "leaf_scan (enc_entries (xs @ ys) @ post) (length ys) (as_u16 (length (enc_entries xs))) (starts xs)
           = Some (as_u16 (length (enc_entries (xs @ ys))), starts (xs @ ys))"
  using assms
proof (induction ys arbitrary: xs)
  case Nil
  then show ?case by simp
next
  case (Cons y ys)
  obtain k v where y: "y = (k, v)" by (cases y)
  define es where "es = enc_entries (xs @ y # ys) @ post"
  let ?off = "length (enc_entries xs)"
  let ?kl = "u16_to_le (as_u16 (length k))" and ?vl = "u16_to_le (as_u16 (length v))"
  have es: "es = enc_entries xs @ ?kl @ k @ ?vl @ v @ enc_entries ys @ post"
    by (simp add: es_def y enc_entry_def)
  have bound: "?off + (4 + length k + length v) < 65536"
    using Cons.prems by (simp add: leaf_small_def y length_enc_entry)
  have k: "read_u16 es ?off = Some (as_u16 (length k))"
    unfolding es by (simp add: read_u16_mid)
  have v: "read_u16 es (?off + 2 + length k) = Some (as_u16 (length v))"
    unfolding es using read_u16_mid [of "?off + 2 + length k" "enc_entries xs @ ?kl @ k"] by simp
  have add: "u16_add 4 (as_u16 (length k)) = Some (as_u16 (4 + length k))"
    "u16_add (as_u16 (4 + length k)) (as_u16 (length v)) = Some (as_u16 (4 + length k + length v))"
    "u16_add (as_u16 ?off) (as_u16 (4 + length k + length v)) =
       Some (as_u16 (length (enc_entries (xs @ [y]))))"
    using bound u16_add_as [of 4 "length k"] by (simp_all add: u16_add_as y length_enc_entry)
  have rec: "leaf_scan es (length ys) (as_u16 (length (enc_entries (xs @ [y])))) (starts (xs @ [y])) =
      Some (as_u16 (length (enc_entries (xs @ y # ys))), starts (xs @ y # ys))"
    using Cons.IH [of "xs @ [y]"] Cons.prems by (simp add: es_def)
  have len: "unat (as_u16 ?off) = ?off" "unat (as_u16 (length k)) = length k"
    using bound by (simp_all add: unat_as_u16)
  show ?case
    unfolding es_def [symmetric]
    by (simp only: list.size leaf_scan.simps len k v add offsets_snoc [symmetric] rec
        Option.bind.simps add_Suc_right add_0_right)
qed

lemma leaf_decode_image:
  assumes "leaf_small kvs"
  shows "leaf_decode i (leaf_image i kvs @ post) = Some (mk_leaf i kvs)"
proof -
  let ?bs = "leaf_image i kvs @ post" and ?n = "as_u16 (length kvs)"
  have 0: "elem_at ?bs 0 = Some PAGE_TYPE_LEAF"
    by (simp add: leaf_image_def)
  have 1: "read_u64 ?bs (Suc 0) = Some i"
    using read_u64_mid [of 1 "[PAGE_TYPE_LEAF]" i] by (simp add: leaf_image_def)
  have 9: "read_u16 ?bs 9 = Some ?n"
    using read_u16_mid [of 9 "PAGE_TYPE_LEAF # u64_to_le i"] by (simp add: leaf_image_def)
  have 11: "slice_of ?bs (unat LEAF_HEADER) (length ?bs) = Some (enc_entries kvs @ post)"
    using slice_of_end [of 11 "PAGE_TYPE_LEAF # u64_to_le i @ u16_to_le ?n"
        "length ?bs" "enc_entries kvs @ post"]
    by (simp add: leaf_image_def LEAF_HEADER_def)
  have scan: "leaf_scan (enc_entries kvs @ post) (length kvs) 0 [0] =
      Some (as_u16 (length (enc_entries kvs)), starts kvs)"
    using leaf_scan_enc [of "[]" kvs post] assms by simp
  have len: "unat ?n = length kvs" "unat (as_u16 (length (enc_entries kvs))) = length (enc_entries kvs)"
    using assms leaf_small_length [of kvs] by (simp_all add: width_simps leaf_small_def)
  show ?thesis
    by (simp only: leaf_decode_def 0 1 9 11 len scan One_nat_def Option.bind.simps assert_that_bind)
      (simp add: mk_leaf_def len)
qed

lemma leaf_decode_wrong_id:
  assumes "i \<noteq> j"
  shows "leaf_decode j (leaf_image i kvs @ post) = None"
proof -
  have "read_u64 (leaf_image i kvs @ post) (Suc 0) = Some i"
    using read_u64_mid [of 1 "[PAGE_TYPE_LEAF]" i] by (simp add: leaf_image_def)
  then show ?thesis
    using assms by (simp add: leaf_decode_def bind_eq_None_conv)
qed

text \<open>A node that holds \<open>kvs\<close> under id \<open>i\<close>, in a page of \<open>ps\<close> bytes.\<close>

definition leaf_fits :: "nat \<Rightarrow> page_id \<Rightarrow> leaf_node \<Rightarrow> bool" where
  "leaf_fits ps i l \<longleftrightarrow>
     (\<exists>kvs. l = mk_leaf i kvs \<and> leaf_small kvs \<and> 11 + length (enc_entries kvs) \<le> ps)"

interpretation leaf_codec:
  page_codec "\<lambda>l. leaf_to_bytes l i ps" "leaf_decode i" "leaf_fits ps i" ps for i ps
  by unfold_locales (auto simp: leaf_fits_def leaf_to_bytes_image leaf_decode_image)

subsection \<open>Searching\<close>

definition search_result :: "key list \<Rightarrow> key \<Rightarrow> u16 + u16" where
  "search_result ks k =
     (let p = lower_bound ks k
      in if p < length ks \<and> ks ! p = k then Inr (as_u16 p) else Inl (as_u16 p))"

lemma search_result_found:
  assumes "sorted_keys ks" "m < length ks" "ks ! m = k"
  shows "search_result ks k = Inr (as_u16 m)"
proof -
  have "lower_bound ks k = m"
    using assms sorted_below [OF assms(1)] sorted_above [OF assms(1)] by (intro lower_bound_eq) (auto simp: le_less)
  then show ?thesis using assms(2,3) by (simp add: search_result_def)
qed

lemma search_result_gap:
  assumes "p \<le> length ks" "\<forall>i < p. ks ! i < k" "\<forall>i. p \<le> i \<longrightarrow> i < length ks \<longrightarrow> k < ks ! i"
  shows "search_result ks k = Inl (as_u16 p)"
proof -
  have "lower_bound ks k = p" using assms by (intro lower_bound_eq) (auto simp: le_less)
  then show ?thesis using assms(3) by (auto simp: search_result_def Let_def)
qed

lemma as_u16_nat: "0 \<le> i \<Longrightarrow> word_of_int i = as_u16 (nat i)"
  by (simp add: as_u16_def)

lemma leaf_search_loop_mk:
  assumes "leaf_small kvs" "sorted_keys (map fst kvs)"
    and "0 \<le> lo" "lo \<le> hi + 1" "hi < int (length kvs)"
    and "\<forall>i < nat lo. fst (kvs ! i) < key"
    and "\<forall>i. hi < int i \<longrightarrow> i < length kvs \<longrightarrow> key < fst (kvs ! i)"
  shows "leaf_search_loop (mk_leaf j kvs) key lo hi = Some (search_result (map fst kvs) key)"
  using assms(3-7)
proof (induction "nat (hi - lo + 1)" arbitrary: lo hi rule: less_induct)
  case less
  let ?ks = "map fst kvs"
  have prems: "\<And>i. i < nat lo \<Longrightarrow> ?ks ! i < key" "\<And>i. hi < int i \<Longrightarrow> i < length kvs \<Longrightarrow> key < ?ks ! i"
    using less.prems by simp_all
  show ?case
  proof (cases "lo \<le> hi")
    case False
    then have "search_result ?ks key = Inl (as_u16 (nat lo))"
      using less.prems(1-3) prems by (intro search_result_gap) auto
    with False less.prems(1) show ?thesis
      by (simp add: leaf_search_loop.simps [of _ _ lo hi] as_u16_nat)
  next
    case True
    define mid where "mid = lo + (hi - lo) div 2"
    have mid: "lo \<le> mid" "mid \<le> hi" using True by (auto simp: mid_def)
    define m where "m = nat mid"
    have m: "m < length kvs" "word_of_int mid = as_u16 m" "mid = int m"
      using mid less.prems by (auto simp: m_def as_u16_nat)
    have get: "leaf_get_key (mk_leaf j kvs) (as_u16 m) = Some (fst (kvs ! m))"
      using m assms(1) by (simp add: leaf_get_key_mk)
    have lt: "i < m \<or> i = m" if "i < nat (mid + 1)" for i using that m(3) by auto
    have gt: "m < i \<or> i = m" if "mid - 1 < int i" for i using that m(3) by auto
    note below = sorted_below [OF assms(2), of _ m key] and above = sorted_above [OF assms(2), of m _ key]
    consider "?ks ! m = key" | "?ks ! m < key" | "key < ?ks ! m" by fastforce
    then show ?thesis
    proof cases
      case 1
      then have "search_result ?ks key = Inr (as_u16 m)"
        using assms(2) m(1) by (intro search_result_found) simp_all
      with True 1 get m(1,2) show ?thesis
        by (simp add: leaf_search_loop.simps [of _ _ lo hi] mid_def [symmetric])
    next
      case 2
      then have "leaf_search_loop (mk_leaf j kvs) key (mid + 1) hi = Some (search_result ?ks key)"
        using less.prems mid m(1) below by (intro less.hyps) (auto dest: lt)
      with True 2 less_imp_neq [OF 2] get m(1,2) show ?thesis
        by (simp add: leaf_search_loop.simps [of _ _ lo hi] mid_def [symmetric])
    next
      case 3
      then have "leaf_search_loop (mk_leaf j kvs) key lo (mid - 1) = Some (search_result ?ks key)"
        using less.prems mid m(1) above by (intro less.hyps) (auto dest: gt)
      with True 3 less_not_sym [OF 3] less_imp_neq [OF 3] get m(1,2) show ?thesis
        by (auto simp add: leaf_search_loop.simps [of _ _ lo hi] mid_def [symmetric])
    qed
  qed
qed

lemma leaf_search_mk:
  assumes "leaf_small kvs" "sorted_keys (map fst kvs)"
  shows "leaf_search (mk_leaf j kvs) key = Some (search_result (map fst kvs) key)"
  using assms leaf_small_length [OF assms(1)]
  by (simp add: leaf_search_def leaf_nkeys_mk uint_as_u16 leaf_search_loop_mk)

subsection \<open>Inserting and updating\<close>

lemma leaf_insert_mk:
  assumes "leaf_small kvs" "sorted_keys (map fst kvs)" "p \<le> length kvs"
    and "leaf_small (take p kvs @ (k, v) # drop p kvs)"
    and "sorted_keys (map fst (take p kvs @ (k, v) # drop p kvs))"
  shows "leaf_insert (mk_leaf j kvs) (as_u16 p) k v =
           Some (mk_leaf 0 (take p kvs @ (k, v) # drop p kvs))"
proof -
  let ?pre = "take p kvs @ [(k, v)]"
  have "leaf_push_range leaf_empty (mk_leaf j kvs) 0 (as_u16 p) = Some (mk_leaf 0 (take p kvs))"
    using assms(1-3) by (intro leaf_push_range_prefix)
  moreover have "leaf_push (mk_leaf 0 (take p kvs)) k v = Some (mk_leaf 0 ?pre)"
  proof (rule leaf_push_mk)
    show "leaf_small ?pre" using assms(4) by (simp add: leaf_small_def)
    show "take p kvs = [] \<or> fst (last (take p kvs)) < k"
      using assms(5) by (cases "take p kvs = []") (auto simp: sorted_wrt_append)
  qed
  moreover have "leaf_push_range (mk_leaf 0 ?pre) (mk_leaf j kvs) (as_u16 p) (as_u16 (length kvs)) =
      Some (mk_leaf 0 (?pre @ drop p kvs))"
    using assms by (intro leaf_push_range_suffix) simp_all
  ultimately show ?thesis by (simp add: leaf_insert_def leaf_nkeys_mk)
qed

lemma leaf_update_mk:
  assumes "leaf_small kvs" "sorted_keys (map fst kvs)" "p < length kvs"
    and "leaf_small (take p kvs @ (k, v) # drop (Suc p) kvs)"
    and "sorted_keys (map fst (take p kvs @ (k, v) # drop (Suc p) kvs))"
  shows "leaf_update (mk_leaf j kvs) (as_u16 p) k v =
           Some (mk_leaf 0 (take p kvs @ (k, v) # drop (Suc p) kvs))"
proof -
  let ?pre = "take p kvs @ [(k, v)]"
  have "leaf_push_range leaf_empty (mk_leaf j kvs) 0 (as_u16 p) = Some (mk_leaf 0 (take p kvs))"
    using assms(1-3) by (intro leaf_push_range_prefix) simp_all
  moreover have "leaf_push (mk_leaf 0 (take p kvs)) k v = Some (mk_leaf 0 ?pre)"
  proof (rule leaf_push_mk)
    show "leaf_small ?pre" using assms(4) by (simp add: leaf_small_def)
    show "take p kvs = [] \<or> fst (last (take p kvs)) < k"
      using assms(5) by (cases "take p kvs = []") (auto simp: sorted_wrt_append)
  qed
  moreover have "u16_add (as_u16 p) 1 = Some (as_u16 (Suc p))"
    using assms(3) leaf_small_length [OF assms(1)] u16_add_as [of p 1] by simp
  moreover have "leaf_push_range (mk_leaf 0 ?pre) (mk_leaf j kvs) (as_u16 (Suc p)) (as_u16 (length kvs)) =
      Some (mk_leaf 0 (?pre @ drop (Suc p) kvs))"
    using assms by (intro leaf_push_range_suffix) simp_all
  ultimately show ?thesis by (simp add: leaf_update_def leaf_nkeys_mk)
qed

subsection \<open>Splitting\<close>

text \<open>\<open>leaf_off kvs m\<close>: the bytes of the first \<open>m\<close> entries.\<close>

abbreviation leaf_off :: "(key \<times> val) list \<Rightarrow> nat \<Rightarrow> nat" where
  "leaf_off kvs m \<equiv> length (enc_entries (take m kvs))"

text \<open>All the offsets of the oversized node plus a page header fit \<open>u16\<close>.\<close>

definition leaf_splittable :: "(key \<times> val) list \<Rightarrow> bool" where
  "leaf_splittable kvs \<longleftrightarrow> 11 + length (enc_entries kvs) < 65536"

lemma leaf_splittable_small: "leaf_splittable kvs \<Longrightarrow> leaf_small kvs"
  by (simp add: leaf_splittable_def leaf_small_def)

lemma leaf_left_bytes_mk:
  assumes "leaf_splittable kvs" "m \<le> length kvs"
  shows "leaf_left_bytes (mk_leaf j kvs) (as_u16 m) = Some (as_u16 (11 + leaf_off kvs m))"
proof -
  have "m < 65536" "11 + leaf_off kvs m < 65536"
    using assms leaf_small_length [OF leaf_splittable_small] enc_all_take_le [of enc_entry m kvs]
    by (fastforce simp: leaf_splittable_def)+
  then show ?thesis
    using assms(2) u16_add_as [of 11 "leaf_off kvs m"]
    by (simp add: leaf_left_bytes_def unat_as_u16 offsets_nth LEAF_HEADER_def)
qed

lemma leaf_right_bytes_mk:
  assumes "leaf_splittable kvs" "m \<le> length kvs"
  shows "leaf_right_bytes (mk_leaf j kvs) (as_u16 m) =
           Some (as_u16 (11 + (length (enc_entries kvs) - leaf_off kvs m)))"
proof -
  have "m < 65536" "11 + length (enc_entries kvs) < 65536"
    "leaf_off kvs m \<le> length (enc_entries kvs)"
    using assms leaf_small_length [OF leaf_splittable_small] enc_all_take_le [of enc_entry m kvs]
    by (fastforce simp: leaf_splittable_def)+
  then show ?thesis
    using assms(2) u16_add_as [of 11 "length (enc_entries kvs) - leaf_off kvs m"]
    by (simp add: leaf_right_bytes_def unat_as_u16 offsets_nth LEAF_HEADER_def u16_sub_as)
qed

text \<open>
  The split of an oversized node. \<open>B\<close> bounds its entries: two of them and 31 bytes fit one page.
  The node has outgrown the page by at most one entry. Then both halves are non-empty, fit
  the page and hold the entries in order; no assertion of the code fails.
\<close>

text \<open>The two halves that are built once the searches have found the place of the cut.\<close>

lemma leaf_cut_mk:
  fixes kvs :: "(key \<times> val) list"
  defines "n \<equiv> length kvs"
  assumes kvs: "leaf_splittable kvs" "sorted_keys (map fst kvs)" and ps: "ps < 65536" and n2: "2 \<le> n"
    and down: "split_down (leaf_left_bytes (mk_leaf j kvs)) (as_u16 ps) (as_u16 (n div 2)) = Some (as_u16 m1)"
    and up: "split_up (leaf_right_bytes (mk_leaf j kvs)) (as_u16 ps) (as_u16 n) (as_u16 m1) = Some (as_u16 m)"
    and m: "1 \<le> m1" "m1 \<le> m" "m < n"
    and right: "11 + (length (enc_entries kvs) - leaf_off kvs m) \<le> ps"
  shows "leaf_split_by_size (mk_leaf j kvs) ps = Some (mk_leaf 0 (take m kvs), mk_leaf 0 (drop m kvs))"
proof -
  have small: "leaf_small kvs" using kvs(1) by (rule leaf_splittable_small)
  have n16: "n < 65536" using leaf_small_length [OF small] by (simp add: n_def)
  have m16: "m < 65536" "m1 < 65536" "11 + (length (enc_entries kvs) - leaf_off kvs m) < 65536"
    using m n16 kvs(1) by (auto simp: leaf_splittable_def)
  have cmp: "2 \<le> as_u16 n" "1 \<le> as_u16 m1" "as_u16 m < as_u16 n"
    "as_u16 (11 + (length (enc_entries kvs) - leaf_off kvs m)) \<le> as_u16 ps"
    using n2 m right n16 m16 ps as_u16_le [of 2 n] as_u16_le [of 1 m1]
    by (simp_all add: as_u16_less as_u16_le)
  have halves: "leaf_push_range leaf_empty (mk_leaf j kvs) 0 (as_u16 m) = Some (mk_leaf 0 (take m kvs))"
    "leaf_push_range leaf_empty (mk_leaf j kvs) (as_u16 m) (as_u16 n) = Some (mk_leaf 0 (drop m kvs))"
    using small kvs(2) m(3) leaf_push_range_suffix [of kvs m "[]" 0 j]
    by (simp_all add: n_def leaf_push_range_prefix mk_leaf_Nil sorted_map_drop)
  show ?thesis
    using cmp ps down up m(3) halves leaf_right_bytes_mk [OF kvs(1), of m j]
    by (simp add: leaf_split_by_size_def leaf_nkeys_mk as_u16_div2 [OF n16] Let_def n_def [symmetric])
qed

lemma leaf_split_mk:
  assumes "leaf_splittable kvs" "sorted_keys (map fst kvs)" "ps < 65536"
    and "\<forall>p \<in> set kvs. length (enc_entry p) \<le> B" "2 * B + 31 \<le> ps"
    and "ps < 11 + length (enc_entries kvs)" "11 + length (enc_entries kvs) \<le> ps + B"
  obtains m where "1 \<le> m" "m < length kvs"
    "leaf_split_by_size (mk_leaf j kvs) ps = Some (mk_leaf 0 (take m kvs), mk_leaf 0 (drop m kvs))"
    "11 + length (enc_entries (take m kvs)) \<le> ps" "11 + length (enc_entries (drop m kvs)) \<le> ps"
proof -
  let ?n = "length kvs" and ?T = "length (enc_entries kvs)" and ?S = "leaf_off kvs"
  have small: "leaf_small kvs" using assms(1) by (rule leaf_splittable_small)
  have n16: "?n < 65536" using small by (rule leaf_small_length)
  have entry: "?S (Suc i) \<le> ?S i + B" if "i < ?n" for i
    using assms(4) that by (simp add: enc_all_take_Suc)
  have whole: "?S ?n = ?T" by simp
  have le: "?S i \<le> ?T" for i by (rule enc_all_take_le)
  have off16: "11 + ?S i < 65536" and off16': "11 + (?T - ?S i) < 65536" for i
    using assms(1) le [of i] by (simp_all add: leaf_splittable_def)
  have half: "?n div 2 < 65536" using n16 by linarith
  have "?T + 0 * ?n \<le> B * ?n" using assms(4) by (intro enc_all_bound) simp
  moreover have "B * ?n \<le> B * 1" if "?n \<le> 1" using that by (rule mult_le_mono2)
  ultimately have n2: "2 \<le> ?n" using assms(5,6) by linarith
  obtain m1 where m1: "m1 \<le> ?n div 2"
    "split_down (leaf_left_bytes (mk_leaf j kvs)) (as_u16 ps) (as_u16 (?n div 2)) = Some (as_u16 m1)"
    "m1 = 0 \<or> 11 + ?S m1 \<le> ps" "m1 < ?n div 2 \<longrightarrow> ps < 11 + ?S (Suc m1)"
    using split_down_spec [of "?n div 2" "leaf_left_bytes (mk_leaf j kvs)" "\<lambda>i. 11 + ?S i" ps]
      leaf_left_bytes_mk [OF assms(1)] off16 half assms(3) by auto
  have m1_pos: "1 \<le> m1"
  proof (rule ccontr)
    assume "\<not> 1 \<le> m1"
    then have "m1 = 0" by simp
    moreover have "?S (Suc 0) \<le> B" using entry [of 0] n2 by (cases kvs) simp_all
    ultimately show False using m1(4) n2 assms(5) by simp
  qed
  have m1_lt: "m1 < ?n" using m1(1) n2 by linarith
  obtain m where m: "m1 \<le> m" "m < ?n"
    "split_up (leaf_right_bytes (mk_leaf j kvs)) (as_u16 ps) (as_u16 ?n) (as_u16 m1) = Some (as_u16 m)"
    "m = ?n - 1 \<or> 11 + (?T - ?S m) \<le> ps" "m1 < m \<longrightarrow> ps < 11 + (?T - ?S (m - 1))"
    using split_up_spec [of m1 ?n "leaf_right_bytes (mk_leaf j kvs)" "\<lambda>i. 11 + (?T - ?S i)" ps]
      leaf_right_bytes_mk [OF assms(1)] off16' n16 m1_lt assms(3) by auto
  have right: "11 + (?T - ?S m) \<le> ps"
    using m(4) entry [of "?n - 1"] whole n2 assms(5) by fastforce
  have left: "11 + ?S m \<le> ps"
  proof (cases "m1 < m")
    case True
    then have "?S m \<le> ?S (m - 1) + B" using entry [of "m - 1"] m(2) by simp
    with True m(5) assms(5,7) le [of "m - 1"] show ?thesis by linarith
  next
    case False
    with m(1) m1(3) m1_pos show ?thesis by simp
  qed
  have "leaf_split_by_size (mk_leaf j kvs) ps = Some (mk_leaf 0 (take m kvs), mk_leaf 0 (drop m kvs))"
    using assms(1-3) n2 m1(2) m(3) m1_pos m(1,2) right by (rule leaf_cut_mk)
  with that [of m] m1_pos m(1,2) left right show thesis
    by (simp add: enc_all_drop)
qed

section \<open>Properties\<close>

text \<open>C33. Binary search in a leaf whose keys are sorted: the result is the position of the key if
  the leaf holds it, and otherwise the position where it is to be inserted.\<close>

theorem leaf_search_correct:
  assumes "leaf_small kvs" "sorted_keys (map fst kvs)"
  shows "leaf_search (mk_leaf j kvs) key = Some (search_result (map fst kvs) key)"
  using assms by (rule leaf_search_mk)

lemma leaf_search_correct_witness:
  "leaf_search (mk_leaf 3 [([1], [10]), ([2], [20]), ([4], [40])]) [2] = Some (Inr 1) \<and>
   leaf_search (mk_leaf 3 [([1], [10]), ([2], [20]), ([4], [40])]) [3] = Some (Inl 2)"
  using leaf_search_correct [of "[([1], [10]), ([2], [20]), ([4], [40])]" 3 "[2]"]
    leaf_search_correct [of "[([1], [10]), ([2], [20]), ([4], [40])]" 3 "[3]"]
  by (simp add: leaf_small_def length_enc_entry search_result_def lower_bound_def as_u16_def)

text \<open>C22. Splitting: an overfull leaf whose entries are each at most \<open>B\<close> bytes, with room for two
  of them and the slack of the header on a page, splits into a non-empty prefix and a non-empty suffix
  that both fit their pages; the two loops that move the split point end inside the leaf and none of
  the assertions fails.\<close>

theorem leaf_split_correct:
  assumes "leaf_splittable kvs" "sorted_keys (map fst kvs)" "ps < 65536"
    and "\<forall>p \<in> set kvs. length (enc_entry p) \<le> B" "2 * B + 31 \<le> ps"
    and "ps < 11 + length (enc_entries kvs)" "11 + length (enc_entries kvs) \<le> ps + B"
  shows "\<exists>m. 1 \<le> m \<and> m < length kvs \<and>
    leaf_split_by_size (mk_leaf j kvs) ps = Some (mk_leaf 0 (take m kvs), mk_leaf 0 (drop m kvs)) \<and>
    11 + length (enc_entries (take m kvs)) \<le> ps \<and> 11 + length (enc_entries (drop m kvs)) \<le> ps"
  by (rule leaf_split_mk [OF assms]) (rule exI; intro conjI; assumption)

lemma leaf_split_correct_witness:
  "\<exists>m. 1 \<le> m \<and> m < 4 \<and>
    leaf_split_by_size (mk_leaf 7 (map (\<lambda>k. ([k], replicate 11 0)) [1, 2, 3, 4])) 64 =
      Some (mk_leaf 0 (take m (map (\<lambda>k. ([k], replicate 11 0)) [1, 2, 3, 4])),
            mk_leaf 0 (drop m (map (\<lambda>k. ([k], replicate 11 0)) [1, 2, 3, 4])))"
  using leaf_split_correct [of "map (\<lambda>k. ([k], replicate 11 0)) [1, 2, 3, 4]" 64 16 7]
  by (auto simp: leaf_splittable_def length_enc_entry)

text \<open>Order check: appending to a leaf succeeds exactly when the key is above the last one, and
  gives the leaf with the pair at the end; otherwise the debug assertion panics.\<close>

lemma leaf_push_checks_order:
  assumes "leaf_small (kvs @ [(k, v)])"
  shows "leaf_push (mk_leaf i kvs) k v =
    (if kvs = [] \<or> fst (last kvs) < k then Some (mk_leaf i (kvs @ [(k, v)])) else None)"
  using assms leaf_small_append(1) [OF assms] by (auto simp: leaf_push_mk leaf_push_out_of_order not_less)

lemma leaf_push_checks_order_witness:
  "leaf_push (mk_leaf 2 [([1], [5]), ([4], [])]) [4] [6] = None \<and>
   leaf_push (mk_leaf 2 [([1], [5]), ([4], [])]) [4, 0] [6] = Some (mk_leaf 2 [([1], [5]), ([4], []), ([4, 0], [6])])"
  using leaf_push_checks_order [of "[([1], [5]), ([4], [])]" "[4]" "[6]" 2]
    leaf_push_checks_order [of "[([1], [5]), ([4], [])]" "[4, 0]" "[6]" 2]
  by (simp add: leaf_small_def length_enc_entry)

end
