(* ===== verification/Internal_Page.thy ===== *)
theory Internal_Page
  imports Page_Codec Sorted_Alist
begin

text \<open>
  The internal page, \<open>src/01-btree/src/page/internal.rs\<close>: separator keys in a flat buffer with
  their offsets, and the child page ids. As for leaves, the code comes first, then the node
  \<open>mk_internal i ks cs\<close> that holds given keys and children, and every operation as an equation
  between such nodes.
\<close>

section \<open>The code\<close>

definition INTERNAL_HEADER :: u16 where "INTERNAL_HEADER = 11"

record internal_node =
  internal_id :: page_id
  keys :: bytes
  key_start :: "u16 list"
  children :: "page_id list"

definition internal_empty :: internal_node where
  "internal_empty = \<lparr>internal_id = 0, keys = [], key_start = [0], children = []\<rparr>"

fun internal_scan :: "bytes \<Rightarrow> nat \<Rightarrow> nat \<Rightarrow> u16 list \<Rightarrow> (nat \<times> u16 list) option" where
  "internal_scan bs 0 pos starts = Some (pos, starts)"
| "internal_scan bs (Suc n) pos starts =
     do { klen \<leftarrow> read_u16 bs pos;
          let pos' = pos + (2 + unat klen);
          off \<leftarrow> usize_sub pos' (unat INTERNAL_HEADER);
          internal_scan bs n pos' (starts @ [as_u16 off]) }"

definition internal_decode :: "page_id \<Rightarrow> bytes \<Rightarrow> internal_node option" where
  "internal_decode expected_id bs =
     do { tag \<leftarrow> elem_at bs 0;
          assert_that (tag = PAGE_TYPE_INTERNAL);
          i \<leftarrow> read_u64 bs 1;
          assert_that (i = expected_id);
          nkeys \<leftarrow> read_u16 bs 9;
          (keys_end, starts) \<leftarrow> internal_scan bs (unat nkeys) (unat INTERNAL_HEADER) [0];
          ks \<leftarrow> slice_of bs (unat INTERNAL_HEADER) keys_end;
          cs \<leftarrow> read_u64s bs keys_end (unat nkeys + 1);
          Some \<lparr>internal_id = i, keys = ks, key_start = starts, children = cs\<rparr> }"

definition internal_nkeys :: "internal_node \<Rightarrow> u16 option" where
  "internal_nkeys n = do { k \<leftarrow> usize_sub (length (key_start n)) 1; Some (as_u16 k) }"

definition internal_nchildren :: "internal_node \<Rightarrow> u16 option" where
  "internal_nchildren n = do { k \<leftarrow> internal_nkeys n; u16_add k 1 }"

definition internal_get_key :: "internal_node \<Rightarrow> u16 \<Rightarrow> bytes option" where
  "internal_get_key n idx =
     do { start \<leftarrow> elem_at (key_start n) (unat idx);
          kend \<leftarrow> elem_at (key_start n) (unat idx + 1);
          slice_of (keys n) (unat start + 2) (unat kend) }"

definition internal_get_child :: "internal_node \<Rightarrow> u16 \<Rightarrow> page_id option" where
  "internal_get_child n idx = elem_at (children n) (unat idx)"

definition internal_nbytes :: "internal_node \<Rightarrow> nat" where
  "internal_nbytes n = unat INTERNAL_HEADER + length (keys n) + 8 * length (children n)"

definition internal_push_key :: "internal_node \<Rightarrow> bytes \<Rightarrow> internal_node option" where
  "internal_push_key n k =
     do { nk \<leftarrow> internal_nkeys n;
          ok \<leftarrow> (if nk = 0 then Some True
                else do { last_key \<leftarrow> internal_get_key n (nk - 1); Some (last_key < k) });
          assert_that ok;
          let ks = keys n @ u16_to_le (as_u16 (length k)) @ k;
          Some (n\<lparr>keys := ks, key_start := key_start n @ [as_u16 (length ks)]\<rparr>) }"

definition internal_push_child :: "internal_node \<Rightarrow> page_id \<Rightarrow> internal_node" where
  "internal_push_child n c = n\<lparr>children := children n @ [c]\<rparr>"

text \<open>The \<open>for\<close> loops that copy keys and children of a source at given indices.\<close>

fun internal_push_keys :: "internal_node \<Rightarrow> internal_node \<Rightarrow> u16 list \<Rightarrow> internal_node option" where
  "internal_push_keys new src [] = Some new"
| "internal_push_keys new src (i # is) =
     do { k \<leftarrow> internal_get_key src i;
          new' \<leftarrow> internal_push_key new k;
          internal_push_keys new' src is }"

fun internal_push_children :: "internal_node \<Rightarrow> internal_node \<Rightarrow> u16 list \<Rightarrow> internal_node option" where
  "internal_push_children new src [] = Some new"
| "internal_push_children new src (i # is) =
     do { c \<leftarrow> internal_get_child src i;
          internal_push_children (internal_push_child new c) src is }"

definition internal_to_bytes :: "internal_node \<Rightarrow> page_id \<Rightarrow> nat \<Rightarrow> bytes option" where
  "internal_to_bytes n i ps =
     do { assert_that (internal_nbytes n \<le> ps);
          nk \<leftarrow> internal_nkeys n;
          assert_that (length (children n) = unat nk + 1);
          b0 \<leftarrow> put_at (replicate ps 0) 0 PAGE_TYPE_INTERNAL;
          b1 \<leftarrow> copy_into b0 1 9 (u64_to_le i);
          b2 \<leftarrow> copy_into b1 9 11 (u16_to_le nk);
          let keys_end = unat INTERNAL_HEADER + length (keys n);
          b3 \<leftarrow> copy_into b2 (unat INTERNAL_HEADER) keys_end (keys n);
          write_u64s b3 keys_end (children n) }"

text \<open>
  The search for the child that covers a key. Under the guard \<open>lo < hi\<close> none of the \<open>u16\<close>
  operations overflows (\<open>midpoint_between\<close> below).
\<close>

lemma midpoint_between:
  assumes "(lo :: u16) < hi"
  defines "mid \<equiv> lo + (hi - lo) div 2"
  shows "unat mid = unat lo + (unat hi - unat lo) div 2" and "mid < hi" and "unat (mid + 1) = unat mid + 1"
proof -
  have lt: "unat lo < unat hi" using assms(1) by (simp add: word_less_nat_alt)
  have "unat ((hi - lo) div 2) = (unat hi - unat lo) div 2"
    using lt by (simp add: unat_div unat_sub word_le_nat_alt)
  moreover have "unat lo + (unat hi - unat lo) div 2 < unat hi" using lt by linarith
  moreover have "unat hi < 2 ^ LENGTH(16)" by (rule unsigned_less)
  ultimately show mid: "unat mid = unat lo + (unat hi - unat lo) div 2"
    unfolding mid_def by (simp only: unat_word_ariths mod_less order_less_trans)
  show less: "mid < hi"
    using \<open>unat lo + (unat hi - unat lo) div 2 < unat hi\<close> by (simp add: word_less_nat_alt mid)
  then have "unat mid + 1 < 2 ^ LENGTH(16)"
    using \<open>unat hi < 2 ^ LENGTH(16)\<close> unfolding word_less_nat_alt by linarith
  then show "unat (mid + 1) = unat mid + 1"
    by (simp only: unat_word_ariths unsigned_1 mod_less)
qed

function internal_child_loop :: "internal_node \<Rightarrow> bytes \<Rightarrow> u16 \<Rightarrow> u16 \<Rightarrow> u16 option" where
  "internal_child_loop node key lo hi =
     (if lo < hi then
        let mid = lo + (hi - lo) div 2
        in do { k \<leftarrow> internal_get_key node mid;
                if k \<le> key then internal_child_loop node key (mid + 1) hi
                else internal_child_loop node key lo mid }
      else Some lo)"
  by pat_completeness auto
termination
proof (relation "measure (\<lambda>(node, key, lo, hi). unat hi - unat lo)", goal_cases)
  case 1
  show ?case by simp
next
  case (2 node key lo hi mid k)
  then have "unat (mid + 1) = unat lo + (unat hi - unat lo) div 2 + 1" "unat lo < unat hi"
    using midpoint_between [of lo hi] by (simp_all add: word_less_nat_alt)
  then show ?case unfolding in_measure prod.case by linarith
next
  case (3 node key lo hi mid k)
  then have "unat mid = unat lo + (unat hi - unat lo) div 2" "unat lo < unat hi"
    using midpoint_between [of lo hi] by (simp_all add: word_less_nat_alt)
  then show ?case unfolding in_measure prod.case by linarith
qed

declare internal_child_loop.simps [simp del]

definition internal_child_index :: "internal_node \<Rightarrow> bytes \<Rightarrow> u16 option" where
  "internal_child_index node key =
     do { n \<leftarrow> internal_nkeys node; internal_child_loop node key 0 n }"

fun internal_replace_children ::
    "internal_node \<Rightarrow> internal_node \<Rightarrow> u16 \<Rightarrow> page_id \<Rightarrow> u16 list \<Rightarrow> internal_node option" where
  "internal_replace_children new node idx new_child [] = Some new"
| "internal_replace_children new node idx new_child (i # is) =
     do { c \<leftarrow> (if i = idx then Some new_child else internal_get_child node i);
          internal_replace_children (internal_push_child new c) node idx new_child is }"

definition internal_replace_child :: "internal_node \<Rightarrow> u16 \<Rightarrow> page_id \<Rightarrow> internal_node option" where
  "internal_replace_child node idx new_child =
     do { nk \<leftarrow> internal_nkeys node;
          new1 \<leftarrow> internal_push_keys internal_empty node (u16_range 0 nk);
          nc \<leftarrow> internal_nchildren node;
          internal_replace_children new1 node idx new_child (u16_range 0 nc) }"

definition internal_insert_split_child ::
    "internal_node \<Rightarrow> u16 \<Rightarrow> bytes \<Rightarrow> page_id \<Rightarrow> page_id \<Rightarrow> internal_node option" where
  "internal_insert_split_child node child_idx sep_key left right =
     do { new1 \<leftarrow> internal_push_keys internal_empty node (u16_range 0 child_idx);
          new2 \<leftarrow> internal_push_key new1 sep_key;
          nk \<leftarrow> internal_nkeys node;
          new3 \<leftarrow> internal_push_keys new2 node (u16_range child_idx nk);
          new4 \<leftarrow> internal_push_children new3 node (u16_range 0 child_idx);
          let new5 = internal_push_child (internal_push_child new4 left) right;
          next \<leftarrow> u16_add child_idx 1;
          nc \<leftarrow> internal_nchildren node;
          internal_push_children new5 node (u16_range next nc) }"

definition internal_left_bytes :: "internal_node \<Rightarrow> u16 \<Rightarrow> u16 option" where
  "internal_left_bytes grown m =
     do { s \<leftarrow> elem_at (key_start grown) (unat m);
          a \<leftarrow> u16_add INTERNAL_HEADER s;
          m1 \<leftarrow> u16_add m 1;
          b \<leftarrow> u16_mul 8 m1;
          u16_add a b }"

definition internal_right_bytes :: "internal_node \<Rightarrow> u16 \<Rightarrow> u16 \<Rightarrow> u16 option" where
  "internal_right_bytes grown np m =
     do { m1 \<leftarrow> u16_add m 1;
          s \<leftarrow> elem_at (key_start grown) (unat m1);
          d \<leftarrow> u16_sub (as_u16 (length (keys grown))) s;
          a \<leftarrow> u16_add INTERNAL_HEADER d;
          r \<leftarrow> u16_sub np m;
          b \<leftarrow> u16_mul 8 r;
          u16_add a b }"

text \<open>The indices of a \<open>for i in a..=b\<close> loop.\<close>

definition u16_range_incl :: "u16 \<Rightarrow> u16 \<Rightarrow> u16 list" where
  "u16_range_incl a b = map as_u16 [unat a..<Suc (unat b)]"

definition internal_split_with_promotion ::
    "internal_node \<Rightarrow> nat \<Rightarrow> (internal_node \<times> bytes \<times> internal_node) option" where
  "internal_split_with_promotion grown ps =
     do { np \<leftarrow> internal_nkeys grown;
          assert_that (2 \<le> np);
          assert_that (ps \<le> 65535);
          let psize = as_u16 ps;
          m0 \<leftarrow> split_down (internal_left_bytes grown) psize (np div 2);
          assert_that (1 \<le> m0);
          m \<leftarrow> split_up (internal_right_bytes grown np) psize np m0;
          assert_that (m \<le> np - 2);
          lb \<leftarrow> internal_left_bytes grown m;
          rb \<leftarrow> internal_right_bytes grown np m;
          assert_that (lb \<le> psize \<and> rb \<le> psize);
          left1 \<leftarrow> internal_push_keys internal_empty grown (u16_range 0 m);
          left \<leftarrow> internal_push_children left1 grown (u16_range_incl 0 m);
          promoted \<leftarrow> internal_get_key grown m;
          m1 \<leftarrow> u16_add m 1;
          right1 \<leftarrow> internal_push_keys internal_empty grown (u16_range m1 np);
          right \<leftarrow> internal_push_children right1 grown (u16_range_incl m1 np);
          Some (left, promoted, right) }"

section \<open>The node that holds given keys and children\<close>

definition enc_key :: "key \<Rightarrow> bytes" where
  "enc_key k = u16_to_le (as_u16 (length k)) @ k"

abbreviation enc_keys :: "key list \<Rightarrow> bytes" where
  "enc_keys \<equiv> enc_all enc_key"

definition mk_internal :: "page_id \<Rightarrow> key list \<Rightarrow> page_id list \<Rightarrow> internal_node" where
  "mk_internal i ks cs =
     \<lparr>internal_id = i, keys = enc_keys ks, key_start = offsets enc_key ks, children = cs\<rparr>"

definition keys_small :: "key list \<Rightarrow> bool" where
  "keys_small ks \<longleftrightarrow> length (enc_keys ks) < 65536"

lemma length_enc_key: "length (enc_key k) = 2 + length k"
  by (simp add: enc_key_def)

lemma length_le_enc_keys: "2 * length ks \<le> length (enc_keys ks)"
  by (induction ks) (simp_all add: length_enc_key)

lemma keys_small_length: "keys_small ks \<Longrightarrow> length ks < 32768"
  using length_le_enc_keys [of ks] by (simp add: keys_small_def)

lemma keys_small_take [simp]: "keys_small ks \<Longrightarrow> keys_small (take i ks)"
  using enc_all_take_le [of enc_key i ks] by (simp add: keys_small_def)

lemma keys_small_drop [simp]: "keys_small ks \<Longrightarrow> keys_small (drop i ks)"
  by (simp add: keys_small_def enc_all_drop)

lemma mk_internal_simps [simp]:
  "internal_id (mk_internal i ks cs) = i" "keys (mk_internal i ks cs) = enc_keys ks"
  "key_start (mk_internal i ks cs) = offsets enc_key ks" "children (mk_internal i ks cs) = cs"
  by (simp_all add: mk_internal_def)

lemma mk_internal_Nil: "internal_empty = mk_internal 0 [] []"
  by (simp add: mk_internal_def internal_empty_def)

lemma internal_nbytes_mk:
  "internal_nbytes (mk_internal i ks cs) = 11 + length (enc_keys ks) + 8 * length cs"
  by (simp add: internal_nbytes_def INTERNAL_HEADER_def)

lemma internal_nkeys_mk: "internal_nkeys (mk_internal i ks cs) = Some (as_u16 (length ks))"
  by (simp add: internal_nkeys_def)

lemma internal_nchildren_mk:
  assumes "keys_small ks"
  shows "internal_nchildren (mk_internal i ks cs) = Some (as_u16 (Suc (length ks)))"
  using keys_small_length [OF assms] u16_add_as [of "length ks" 1]
  by (simp add: internal_nchildren_def internal_nkeys_mk)

lemma internal_get_key_mk:
  assumes "keys_small ks" "j < length ks"
  shows "internal_get_key (mk_internal i ks cs) (as_u16 j) = Some (ks ! j)"
proof -
  let ?off = "length (enc_keys (take j ks))"
  have j: "unat (as_u16 j) = j"
    using keys_small_length [OF assms(1)] assms(2) by (simp add: unat_as_u16)
  have eq: "enc_keys ks = (enc_keys (take j ks) @ u16_to_le (as_u16 (length (ks ! j)))) @ ks ! j @
      enc_keys (drop (Suc j) ks)"
    using enc_all_split [OF assms(2), of enc_key] by (simp add: enc_key_def)
  have "length (enc_keys (take (Suc j) ks)) = ?off + 2 + length (ks ! j)"
    using assms(2) by (simp add: enc_all_take_Suc length_enc_key)
  moreover have "unat (as_u16 ?off) = ?off"
    "unat (as_u16 (length (enc_keys (take (Suc j) ks)))) = length (enc_keys (take (Suc j) ks))"
    using assms(1) enc_all_take_le [of enc_key j ks] enc_all_take_le [of enc_key "Suc j" ks]
    by (simp_all add: keys_small_def unat_as_u16)
  moreover have "slice_of (enc_keys ks) (?off + 2) (?off + 2 + length (ks ! j)) = Some (ks ! j)"
    unfolding eq by (rule slice_of_mid) simp_all
  ultimately show ?thesis
    using assms(2) by (simp add: internal_get_key_def j offsets_nth)
qed

lemma internal_get_child_mk:
  "j < length cs \<Longrightarrow> j < 65536 \<Longrightarrow> internal_get_child (mk_internal i ks cs) (as_u16 j) = Some (cs ! j)"
  by (simp add: internal_get_child_def unat_as_u16)

subsection \<open>Appending keys and children\<close>

lemma internal_push_child_mk [simp]:
  "internal_push_child (mk_internal i ks cs) c = mk_internal i ks (cs @ [c])"
  by (simp add: internal_push_child_def mk_internal_def)

lemma internal_push_key_mk:
  assumes "keys_small (ks @ [k])" "ks = [] \<or> last ks < k"
  shows "internal_push_key (mk_internal i ks cs) k = Some (mk_internal i (ks @ [k]) cs)"
proof -
  have small: "keys_small ks" using assms(1) by (simp add: keys_small_def)
  then have n: "length ks < 65536" using keys_small_length by fastforce
  have new: "(mk_internal i ks cs)\<lparr>keys := enc_keys (ks @ [k]),
      key_start := offsets enc_key ks @ [as_u16 (length (enc_keys (ks @ [k])))]\<rparr> =
      mk_internal i (ks @ [k]) cs"
    by (simp add: mk_internal_def offsets_snoc)
  show ?thesis
  proof (cases "ks = []")
    case True
    with new show ?thesis by (simp add: internal_push_key_def internal_nkeys_mk enc_key_def)
  next
    case False
    have nz: "as_u16 (length ks) \<noteq> 0"
      using False n by (metis as_u16_numeral(1) as_u16_inject length_0_conv zero_less_numeral)
    have "as_u16 (length ks) - 1 = as_u16 (length ks - 1)"
      using False as_u16_minus [of 1 "length ks"] by (simp add: Suc_leI)
    then have "internal_get_key (mk_internal i ks cs) (as_u16 (length ks) - 1) = Some (last ks)"
      using False small by (simp add: internal_get_key_mk last_conv_nth)
    with False nz assms(2) new show ?thesis
      by (simp add: internal_push_key_def internal_nkeys_mk enc_key_def)
  qed
qed

lemma internal_push_keys_mk:
  assumes "keys_small ks" "b \<le> length ks" "a \<le> b"
    and "keys_small (xs @ take (b - a) (drop a ks))" "sorted_keys (xs @ take (b - a) (drop a ks))"
  shows "internal_push_keys (mk_internal i xs cs) (mk_internal j ks ds) (map as_u16 [a..<b]) =
           Some (mk_internal i (xs @ take (b - a) (drop a ks)) cs)"
  using assms(3-5)
proof (induction "b - a" arbitrary: a xs)
  case 0
  then show ?case by simp
next
  case (Suc d)
  then have ab: "a < b" by simp
  let ?k = "ks ! a" and ?rest = "take (b - Suc a) (drop (Suc a) ks)"
  have "drop a ks = ?k # drop (Suc a) ks"
    using ab assms(2) by (simp add: Cons_nth_drop_Suc [symmetric])
  moreover have "b - a = Suc (b - Suc a)" using ab by simp
  ultimately have tail: "take (b - a) (drop a ks) = ?k # ?rest" by simp
  have sm: "keys_small (xs @ [?k])"
    using Suc.prems(2) unfolding tail by (simp add: keys_small_def)
  have ord: "xs = [] \<or> last xs < ?k"
    using Suc.prems(3) unfolding tail by (cases "xs = []") (auto simp: sorted_wrt_append)
  have "internal_push_keys (mk_internal i (xs @ [?k]) cs) (mk_internal j ks ds) (map as_u16 [Suc a..<b])
      = Some (mk_internal i ((xs @ [?k]) @ ?rest) cs)"
  proof (rule Suc.hyps(1))
    show "d = b - Suc a" "Suc a \<le> b" using Suc.hyps(2) ab by simp_all
    show "keys_small ((xs @ [?k]) @ ?rest)" "sorted_keys ((xs @ [?k]) @ ?rest)"
      using Suc.prems(2,3) unfolding tail by simp_all
  qed
  then show ?case
    using ab assms(1,2) sm ord unfolding tail
    by (simp add: upt_conv_Cons internal_get_key_mk internal_push_key_mk)
qed

lemma internal_push_children_mk:
  assumes "b \<le> length ds" "length ds < 65536" "a \<le> b"
  shows "internal_push_children (mk_internal i ks cs) (mk_internal j ls ds) (map as_u16 [a..<b]) =
           Some (mk_internal i ks (cs @ take (b - a) (drop a ds)))"
  using assms(3)
proof (induction "b - a" arbitrary: a cs)
  case 0
  then show ?case by simp
next
  case (Suc d)
  then have ab: "a < b" by simp
  have "drop a ds = ds ! a # drop (Suc a) ds"
    using ab assms(1) by (simp add: Cons_nth_drop_Suc [symmetric])
  moreover have "b - a = Suc (b - Suc a)" using ab by simp
  ultimately have "take (b - a) (drop a ds) = ds ! a # take (b - Suc a) (drop (Suc a) ds)" by simp
  moreover have "internal_push_children (mk_internal i ks (cs @ [ds ! a])) (mk_internal j ls ds)
      (map as_u16 [Suc a..<b]) = Some (mk_internal i ks ((cs @ [ds ! a]) @ take (b - Suc a) (drop (Suc a) ds)))"
    using Suc.hyps ab by (intro Suc.hyps(1)) simp_all
  ultimately show ?case
    using ab assms(1,2) by (simp add: upt_conv_Cons internal_get_child_mk)
qed

subsection \<open>The page codec\<close>

definition internal_image :: "page_id \<Rightarrow> key list \<Rightarrow> page_id list \<Rightarrow> bytes" where
  "internal_image i ks cs = PAGE_TYPE_INTERNAL # u64_to_le i @ u16_to_le (as_u16 (length ks)) @
     enc_keys ks @ concat (map u64_to_le cs)"

lemma length_internal_image [simp]:
  "length (internal_image i ks cs) = 11 + length (enc_keys ks) + 8 * length cs"
  by (simp add: internal_image_def)

lemma internal_to_bytes_image:
  assumes "11 + length (enc_keys ks) + 8 * length cs \<le> ps" "length cs = Suc (length ks)" "keys_small ks"
  shows "internal_to_bytes (mk_internal j ks cs) i ps =
    Some (internal_image i ks cs @ replicate (ps - (11 + length (enc_keys ks) + 8 * length cs)) 0)"
proof -
  let ?pre = "PAGE_TYPE_INTERNAL # u64_to_le i @ u16_to_le (as_u16 (length ks)) @ enc_keys ks"
  have "write_u64s (?pre @ replicate (ps - 11 - length (enc_keys ks)) 0) (11 + length (enc_keys ks)) cs =
      Some (?pre @ concat (map u64_to_le cs) @
        replicate (ps - 11 - length (enc_keys ks) - 8 * length cs) 0)"
    using assms(1) by (intro write_u64s_zeros) simp_all
  moreover have "unat (as_u16 (length ks)) = length ks"
    using keys_small_length [OF assms(3)] by (simp add: unat_as_u16)
  ultimately show ?thesis
    using assms(1,2)
    by (simp add: internal_to_bytes_def internal_nbytes_mk internal_nkeys_mk INTERNAL_HEADER_def
        internal_image_def copy_into_def drop_Cons' Let_def)
qed

lemma internal_to_bytes_overflow: "ps < internal_nbytes n \<Longrightarrow> internal_to_bytes n i ps = None"
  by (simp add: internal_to_bytes_def)

lemma internal_scan_enc:
  assumes "keys_small (xs @ ys)" "length pre = 11"
  shows "internal_scan (pre @ enc_keys (xs @ ys) @ post) (length ys) (11 + length (enc_keys xs))
      (offsets enc_key xs) = Some (11 + length (enc_keys (xs @ ys)), offsets enc_key (xs @ ys))"
  using assms(1)
proof (induction ys arbitrary: xs)
  case Nil
  then show ?case by simp
next
  case (Cons k ys)
  define bs where "bs = pre @ enc_keys (xs @ k # ys) @ post"
  let ?off = "length (enc_keys xs)" and ?kl = "u16_to_le (as_u16 (length k))"
  have bs: "bs = (pre @ enc_keys xs) @ ?kl @ k @ enc_keys ys @ post"
    by (simp add: bs_def enc_key_def)
  have bound: "?off + (2 + length k) < 65536"
    using Cons.prems by (simp add: keys_small_def length_enc_key)
  have k: "read_u16 bs (11 + ?off) = Some (as_u16 (length k))"
    unfolding bs by (rule read_u16_mid) (simp add: assms(2))
  have len: "unat (as_u16 (length k)) = length k"
    using bound by (simp add: unat_as_u16)
  have pos: "11 + ?off + (2 + length k) = 11 + length (enc_keys (xs @ [k]))"
    by (simp add: length_enc_key)
  have sub: "usize_sub (11 + length (enc_keys (xs @ [k]))) (unat INTERNAL_HEADER) =
      Some (length (enc_keys (xs @ [k])))"
    by (simp add: INTERNAL_HEADER_def)
  have "internal_scan bs (length ys) (11 + length (enc_keys (xs @ [k]))) (offsets enc_key (xs @ [k])) =
      Some (11 + length (enc_keys (xs @ k # ys)), offsets enc_key (xs @ k # ys))"
    using Cons.IH [of "xs @ [k]"] Cons.prems by (simp add: bs_def)
  then show ?case
    unfolding bs_def [symmetric]
    by (simp only: list.size internal_scan.simps k len pos sub Let_def offsets_snoc [symmetric]
        Option.bind.simps add_Suc_right add_0_right)
qed

lemma internal_decode_image:
  assumes "keys_small ks" "length cs = Suc (length ks)"
  shows "internal_decode i (internal_image i ks cs @ post) = Some (mk_internal i ks cs)"
proof -
  let ?bs = "internal_image i ks cs @ post" and ?n = "as_u16 (length ks)"
  let ?hd = "PAGE_TYPE_INTERNAL # u64_to_le i @ u16_to_le ?n"
  let ?kend = "11 + length (enc_keys ks)"
  have 0: "elem_at ?bs 0 = Some PAGE_TYPE_INTERNAL"
    by (simp add: internal_image_def)
  have 1: "read_u64 ?bs (Suc 0) = Some i"
    using read_u64_mid [of 1 "[PAGE_TYPE_INTERNAL]" i] by (simp add: internal_image_def)
  have 9: "read_u16 ?bs 9 = Some ?n"
    using read_u16_mid [of 9 "PAGE_TYPE_INTERNAL # u64_to_le i"] by (simp add: internal_image_def)
  have scan: "internal_scan ?bs (length ks) 11 [0] = Some (?kend, offsets enc_key ks)"
    using internal_scan_enc [of "[]" ks ?hd "concat (map u64_to_le cs) @ post"] assms(1)
    by (simp add: internal_image_def)
  have ks: "slice_of ?bs 11 ?kend = Some (enc_keys ks)"
    using slice_of_mid [of 11 ?hd ?kend "enc_keys ks" "concat (map u64_to_le cs) @ post"]
    by (simp add: internal_image_def)
  have cs: "read_u64s ?bs ?kend (length ks + 1) = Some cs"
    using read_u64s_mid [of ?kend "?hd @ enc_keys ks" "length ks + 1" cs post] assms(2)
    by (simp add: internal_image_def)
  have len: "unat ?n = length ks" "unat INTERNAL_HEADER = 11"
    using keys_small_length [OF assms(1)] by (simp_all add: unat_as_u16 INTERNAL_HEADER_def)
  show ?thesis
    by (simp only: internal_decode_def 0 1 9 len scan ks cs One_nat_def Option.bind.simps
        assert_that_bind prod.case if_True)
      (use cs in \<open>simp add: mk_internal_def\<close>)
qed

lemma internal_decode_wrong_id:
  assumes "i \<noteq> j"
  shows "internal_decode j (internal_image i ks cs @ post) = None"
proof -
  have "read_u64 (internal_image i ks cs @ post) (Suc 0) = Some i"
    using read_u64_mid [of 1 "[PAGE_TYPE_INTERNAL]" i] by (simp add: internal_image_def)
  then show ?thesis
    using assms by (simp add: internal_decode_def bind_eq_None_conv)
qed

definition internal_fits :: "nat \<Rightarrow> page_id \<Rightarrow> internal_node \<Rightarrow> bool" where
  "internal_fits ps i n \<longleftrightarrow>
     (\<exists>ks cs. n = mk_internal i ks cs \<and> keys_small ks \<and> length cs = Suc (length ks) \<and>
        11 + length (enc_keys ks) + 8 * length cs \<le> ps)"

interpretation internal_codec:
  page_codec "\<lambda>n. internal_to_bytes n i ps" "internal_decode i" "internal_fits ps i" ps for i ps
  by unfold_locales (auto simp: internal_fits_def internal_to_bytes_image internal_decode_image)

subsection \<open>Finding the child\<close>

lemma internal_child_loop_mk:
  assumes "keys_small ks" "sorted_keys ks"
    and "lo \<le> hi" "hi \<le> length ks" "\<forall>i < lo. ks ! i \<le> key"
    and "\<forall>i. hi \<le> i \<longrightarrow> i < length ks \<longrightarrow> key < ks ! i"
  shows "internal_child_loop (mk_internal j ks cs) key (as_u16 lo) (as_u16 hi) =
           Some (as_u16 (upper_bound ks key))"
  using assms(3-6)
proof (induction "hi - lo" arbitrary: lo hi rule: less_induct)
  case less
  let ?node = "mk_internal j ks cs"
  have n: "length ks < 65536" using keys_small_length [OF assms(1)] by simp
  have lt: "as_u16 lo < as_u16 hi \<longleftrightarrow> lo < hi"
    using less.prems n by (intro as_u16_less) simp_all
  show ?case
  proof (cases "lo < hi")
    case False
    with less.prems have "upper_bound ks key = lo" by (intro upper_bound_eq) auto
    with False lt show ?thesis by (subst internal_child_loop.simps) simp
  next
    case True
    define mid where "mid = lo + (hi - lo) div 2"
    have mid: "lo \<le> mid" "mid < hi" "mid < length ks" using True less.prems by (auto simp: mid_def)
    have mid16: "as_u16 lo + (as_u16 hi - as_u16 lo) div 2 = as_u16 mid"
      using less.prems n as_u16_minus [of lo hi] as_u16_div2 [of "hi - lo"]
      by (simp add: as_u16_plus mid_def)
    have step: "internal_child_loop ?node key (as_u16 lo) (as_u16 hi) =
        (if ks ! mid \<le> key then internal_child_loop ?node key (as_u16 (Suc mid)) (as_u16 hi)
         else internal_child_loop ?node key (as_u16 lo) (as_u16 mid))"
      using True lt mid(3) internal_get_key_mk [OF assms(1), of mid j cs] as_u16_plus [of mid 1]
      by (subst internal_child_loop.simps) (simp only: mid16 Let_def Option.bind.simps if_True
          as_u16_numeral One_nat_def add_Suc_right add_0_right)
    show ?thesis
    proof (cases "ks ! mid \<le> key")
      case le: True
      then have "ks ! i \<le> key" if "i < Suc mid" for i
        using that sorted_below [OF assms(2) _ mid(3) le, of i] by (cases "i = mid") auto
      then have "internal_child_loop ?node key (as_u16 (Suc mid)) (as_u16 hi) =
          Some (as_u16 (upper_bound ks key))"
        using less.prems mid by (intro less.hyps) auto
      with step le show ?thesis by simp
    next
      case gt: False
      then have "key < ks ! i" if "mid \<le> i" "i < length ks" for i
        using that sorted_above [OF assms(2), of mid i key] by (cases "i = mid") auto
      then have "internal_child_loop ?node key (as_u16 lo) (as_u16 mid) =
          Some (as_u16 (upper_bound ks key))"
        using less.prems mid by (intro less.hyps) auto
      with step gt show ?thesis by simp
    qed
  qed
qed

lemma internal_child_index_mk:
  assumes "keys_small ks" "sorted_keys ks"
  shows "internal_child_index (mk_internal j ks cs) key = Some (as_u16 (upper_bound ks key))"
  using internal_child_loop_mk [OF assms, of 0 "length ks" key j cs]
  by (simp add: internal_child_index_def internal_nkeys_mk)

subsection \<open>Replacing a child\<close>

lemma internal_replace_children_mk:
  assumes "length cs < 65536" "idx < 65536" "a \<le> length cs"
  shows "internal_replace_children (mk_internal i ks xs) (mk_internal j ls cs) (as_u16 idx) c
      (map as_u16 [a..<length cs]) = Some (mk_internal i ks (xs @ drop a (cs[idx := c])))"
  using assms(3)
proof (induction "length cs - a" arbitrary: a xs)
  case 0
  then show ?case by simp
next
  case (Suc d)
  then have a: "a < length cs" by simp
  let ?c = "cs[idx := c] ! a"
  have "(if as_u16 a = as_u16 idx then Some c else internal_get_child (mk_internal j ls cs) (as_u16 a))
      = Some ?c"
    using a assms(1,2) by (simp add: as_u16_inject internal_get_child_mk nth_list_update)
  moreover have "drop a (cs[idx := c]) = ?c # drop (Suc a) (cs[idx := c])"
    using a by (simp add: Cons_nth_drop_Suc)
  moreover have "internal_replace_children (mk_internal i ks (xs @ [?c])) (mk_internal j ls cs)
      (as_u16 idx) c (map as_u16 [Suc a..<length cs]) =
      Some (mk_internal i ks ((xs @ [?c]) @ drop (Suc a) (cs[idx := c])))"
    using Suc.hyps a by (intro Suc.hyps(1)) simp_all
  ultimately show ?case using a by (simp add: upt_conv_Cons)
qed

lemma internal_copy_keys:
  assumes "keys_small ks" "sorted_keys ks" "m \<le> length ks"
  shows "internal_push_keys internal_empty (mk_internal j ks cs) (u16_range 0 (as_u16 m)) =
           Some (mk_internal 0 (take m ks) [])"
proof -
  have "m < 65536" using keys_small_length [OF assms(1)] assms(3) by simp
  then show ?thesis
    using internal_push_keys_mk [of ks m 0 "[]" 0 "[]" j cs] assms u16_range_as [of 0 m]
    by (simp add: mk_internal_Nil sorted_wrt_take)
qed

lemma internal_replace_child_mk:
  assumes "keys_small ks" "sorted_keys ks" "length cs = Suc (length ks)" "idx \<le> length ks"
  shows "internal_replace_child (mk_internal j ks cs) (as_u16 idx) c =
           Some (mk_internal 0 ks (cs[idx := c]))"
proof -
  have n: "length cs < 65536" using keys_small_length [OF assms(1)] assms(3) by simp
  then show ?thesis
    using internal_copy_keys [OF assms(1,2), of "length ks" j cs] assms(3,4)
      internal_replace_children_mk [of cs idx 0 0 ks "[]" j ks c] u16_range_as [of 0 "length cs"]
    by (simp add: internal_replace_child_def internal_nkeys_mk internal_nchildren_mk [OF assms(1)])
qed

subsection \<open>Splicing in a split child\<close>

lemma internal_insert_split_child_mk:
  assumes "keys_small ks" "sorted_keys ks" "length cs = Suc (length ks)" "idx \<le> length ks"
    and "keys_small (take idx ks @ sep # drop idx ks)" "sorted_keys (take idx ks @ sep # drop idx ks)"
  shows "internal_insert_split_child (mk_internal j ks cs) (as_u16 idx) sep l r =
    Some (mk_internal 0 (take idx ks @ sep # drop idx ks) (take idx cs @ l # r # drop (Suc idx) cs))"
proof -
  let ?node = "mk_internal j ks cs" and ?pre = "take idx ks @ [sep]"
  have n: "length cs < 65536" "length ks < 65536" "idx < 65536" "Suc idx < 65536"
    using keys_small_length [OF assms(1)] assms(3,4) by simp_all
  have k1: "internal_push_keys internal_empty ?node (u16_range 0 (as_u16 idx)) =
      Some (mk_internal 0 (take idx ks) [])"
    using assms(1,2,4) by (rule internal_copy_keys)
  have k2: "internal_push_key (mk_internal 0 (take idx ks) []) sep = Some (mk_internal 0 ?pre [])"
  proof (rule internal_push_key_mk)
    show "keys_small ?pre" using assms(5) by (simp add: keys_small_def)
    show "take idx ks = [] \<or> last (take idx ks) < sep"
      using assms(6) by (cases "take idx ks = []") (auto simp: sorted_wrt_append)
  qed
  have k3: "internal_push_keys (mk_internal 0 ?pre []) ?node (u16_range (as_u16 idx) (as_u16 (length ks))) =
      Some (mk_internal 0 (?pre @ drop idx ks) [])"
    using internal_push_keys_mk [of ks "length ks" idx ?pre 0 "[]" j cs] assms n
    by (simp add: u16_range_as)
  let ?ks = "?pre @ drop idx ks"
  have c1: "internal_push_children (mk_internal 0 ?ks []) ?node (u16_range 0 (as_u16 idx)) =
      Some (mk_internal 0 ?ks (take idx cs))"
    using internal_push_children_mk [of idx cs 0 0 ?ks "[]" j ks] assms(3,4) n u16_range_as [of 0 idx]
    by simp
  have c2: "internal_push_children (mk_internal 0 ?ks (take idx cs @ [l, r])) ?node
      (u16_range (as_u16 (Suc idx)) (as_u16 (length cs))) =
      Some (mk_internal 0 ?ks (take idx cs @ [l, r] @ drop (Suc idx) cs))"
    using internal_push_children_mk [of "length cs" cs "Suc idx" 0 ?ks "take idx cs @ [l, r]" j ks]
      assms(3,4) n u16_range_as [of "Suc idx" "length cs"]
    by simp
  have "u16_add (as_u16 idx) 1 = Some (as_u16 (Suc idx))"
    using u16_add_as [of idx 1] n by simp
  with k1 k2 k3 c1 c2 show ?thesis
    using assms(3)
    by (simp add: internal_insert_split_child_def internal_nkeys_mk internal_nchildren_mk [OF assms(1)] Let_def)
qed

subsection \<open>Splitting\<close>

abbreviation key_off :: "key list \<Rightarrow> nat \<Rightarrow> nat" where
  "key_off ks m \<equiv> length (enc_keys (take m ks))"

text \<open>The bytes of the oversized node fit \<open>u16\<close>.\<close>

definition internal_splittable :: "key list \<Rightarrow> bool" where
  "internal_splittable ks \<longleftrightarrow> 19 + length (enc_keys ks) + 8 * length ks < 65536"

lemma internal_splittable_small: "internal_splittable ks \<Longrightarrow> keys_small ks"
  by (simp add: internal_splittable_def keys_small_def)

lemma internal_left_bytes_mk:
  assumes "internal_splittable ks" "m \<le> length ks"
  shows "internal_left_bytes (mk_internal j ks cs) (as_u16 m) = Some (as_u16 (19 + key_off ks m + 8 * m))"
    and "19 + key_off ks m + 8 * m < 65536"
proof -
  show bound: "19 + key_off ks m + 8 * m < 65536"
    using assms enc_all_take_le [of enc_key m ks] by (simp add: internal_splittable_def)
  then show "internal_left_bytes (mk_internal j ks cs) (as_u16 m) = Some (as_u16 (19 + key_off ks m + 8 * m))"
    using assms(2) u16_add_as [of 11 "key_off ks m"] u16_add_as [of m 1] u16_mul_as [of 8 "Suc m"]
      u16_add_as [of "11 + key_off ks m" "8 + 8 * m"]
    by (simp add: internal_left_bytes_def unat_as_u16 offsets_nth INTERNAL_HEADER_def add.commute
        add.left_commute)
qed

lemma internal_right_bytes_mk:
  assumes "internal_splittable ks" "m < length ks"
  defines "rb \<equiv> 11 + (length (enc_keys ks) - key_off ks (Suc m)) + 8 * (length ks - m)"
  shows "internal_right_bytes (mk_internal j ks cs) (as_u16 (length ks)) (as_u16 m) = Some (as_u16 rb)"
    and "rb < 65536"
proof -
  have le: "key_off ks (Suc m) \<le> length (enc_keys ks)" by (rule enc_all_take_le)
  show bound: "rb < 65536"
    using assms(1) by (simp add: internal_splittable_def rb_def)
  have n: "length ks < 65536" "length (enc_keys ks) < 65536" "key_off ks (Suc m) < 65536"
    using assms(1) le by (simp_all add: internal_splittable_def)
  show "internal_right_bytes (mk_internal j ks cs) (as_u16 (length ks)) (as_u16 m) = Some (as_u16 rb)"
    using assms(2) bound le n u16_add_as [of m 1]
      u16_add_as [of 11 "length (enc_keys ks) - key_off ks (Suc m)"]
      u16_mul_as [of 8 "length ks - m"]
      u16_add_as [of "11 + (length (enc_keys ks) - key_off ks (Suc m))" "8 * (length ks - m)"]
    by (simp add: internal_right_bytes_def unat_as_u16 offsets_nth INTERNAL_HEADER_def u16_sub_as rb_def)
qed

text \<open>
  The split of an oversized node. \<open>B\<close> bounds a key with its length field and one child id: two of
  them and 19 bytes fit one page. Then both parts keep at least one key, fit the page, and keys and
  children are those of the node without the promoted key.
\<close>

text \<open>The cut at the point the two loops find.\<close>

lemma internal_cut_mk:
  fixes ks :: "key list"
  defines "n \<equiv> length ks"
  assumes ks: "internal_splittable ks" "sorted_keys ks" and cs: "length cs = Suc n" and ps: "ps < 65536"
    and down: "split_down (internal_left_bytes (mk_internal j ks cs)) (as_u16 ps) (as_u16 (n div 2)) = Some (as_u16 m1)"
    and up: "split_up (internal_right_bytes (mk_internal j ks cs) (as_u16 n)) (as_u16 ps) (as_u16 n) (as_u16 m1) = Some (as_u16 m)"
    and m: "1 \<le> m1" "m1 \<le> m" "m + 2 \<le> n"
    and fits: "19 + length (enc_keys (take m ks)) + 8 * m \<le> ps"
      "11 + (length (enc_keys ks) - length (enc_keys (take (Suc m) ks))) + 8 * (n - m) \<le> ps"
  shows "internal_split_with_promotion (mk_internal j ks cs) ps =
     Some (mk_internal 0 (take m ks) (take (Suc m) cs), ks ! m, mk_internal 0 (drop (Suc m) ks) (drop (Suc m) cs))"
proof -
  let ?node = "mk_internal j ks cs"
  have small: "keys_small ks" using ks(1) by (rule internal_splittable_small)
  have n16: "n < 65536" using keys_small_length [OF small] by (simp add: n_def)
  have n2: "as_u16 n - 2 = as_u16 (n - 2)" using m as_u16_minus [of 2 n] by simp
  have m16: "m < 65536" "Suc m < 65536" "m1 < 65536" using m n16 by simp_all
  have cmp: "2 \<le> as_u16 n" "1 \<le> as_u16 m1" "as_u16 m \<le> as_u16 (n - 2)"
    "as_u16 (19 + length (enc_keys (take m ks)) + 8 * m) \<le> as_u16 ps"
    "as_u16 (11 + (length (enc_keys ks) - length (enc_keys (take (Suc m) ks))) + 8 * (n - m)) \<le> as_u16 ps"
    using m fits ps n16 m16 as_u16_le [of 2 n] as_u16_le [of 1 m1] by (simp_all add: as_u16_le)
  have keys1: "internal_push_keys internal_empty ?node (u16_range 0 (as_u16 m)) =
      Some (mk_internal 0 (take m ks) [])"
    using small ks(2) m(3) by (intro internal_copy_keys) (simp_all add: n_def)
  have keys2: "internal_push_keys internal_empty ?node (u16_range (as_u16 (Suc m)) (as_u16 n)) =
       Some (mk_internal 0 (drop (Suc m) ks) [])"
    using small ks(2) m(3) internal_push_keys_mk [of ks n "Suc m" "[]" 0 "[]" j cs]
      u16_range_as [OF m16(2) n16]
    by (simp add: mk_internal_Nil sorted_wrt_drop n_def)
  have incl: "u16_range_incl 0 (as_u16 m) = map as_u16 [0..<Suc m]"
    "u16_range_incl (as_u16 (Suc m)) (as_u16 n) = map as_u16 [Suc m..<Suc n]"
    using m16 n16 by (simp_all add: u16_range_incl_def unat_as_u16 del: upt_Suc)
  have childs: "internal_push_children (mk_internal 0 (take m ks) []) ?node (u16_range_incl 0 (as_u16 m)) =
      Some (mk_internal 0 (take m ks) (take (Suc m) cs))"
    "internal_push_children (mk_internal 0 (drop (Suc m) ks) []) ?node
        (u16_range_incl (as_u16 (Suc m)) (as_u16 n)) =
      Some (mk_internal 0 (drop (Suc m) ks) (drop (Suc m) cs))"
    using keys_small_length [OF small] cs m(3) unfolding incl
    by (simp_all add: internal_push_children_mk n_def del: upt_Suc)
  have succ: "u16_add (as_u16 m) 1 = Some (as_u16 (Suc m))"
    using u16_add_as [of m 1] m16 by simp
  show ?thesis
    using cmp ps down up m keys1 keys2 childs succ n2 small
      internal_left_bytes_mk(1) [OF ks(1), of m j cs] internal_right_bytes_mk(1) [OF ks(1), of m j cs]
    by (simp add: internal_split_with_promotion_def internal_nkeys_mk as_u16_div2 [OF n16] Let_def
        internal_get_key_mk n_def [symmetric])
qed

lemma internal_split_mk:
  assumes "internal_splittable ks" "sorted_keys ks" "length cs = Suc (length ks)" "ps < 65536"
    and "\<forall>k \<in> set ks. 10 + length k \<le> B" "2 * B + 19 \<le> ps"
    and "ps < 19 + length (enc_keys ks) + 8 * length ks"
    and "19 + length (enc_keys ks) + 8 * length ks \<le> ps + B"
  obtains m where "1 \<le> m" "m + 2 \<le> length ks"
    "internal_split_with_promotion (mk_internal j ks cs) ps =
       Some (mk_internal 0 (take m ks) (take (Suc m) cs), ks ! m,
             mk_internal 0 (drop (Suc m) ks) (drop (Suc m) cs))"
    "19 + length (enc_keys (take m ks)) + 8 * m \<le> ps"
    "19 + length (enc_keys (drop (Suc m) ks)) + 8 * (length ks - Suc m) \<le> ps"
proof -
  let ?node = "mk_internal j ks cs" and ?n = "length ks" and ?T = "length (enc_keys ks)"
  let ?L = "\<lambda>m. 19 + key_off ks m + 8 * m"
  let ?R = "\<lambda>m. 11 + (?T - key_off ks (Suc m)) + 8 * (?n - m)"
  have small: "keys_small ks" using assms(1) by (rule internal_splittable_small)
  have n16: "?n < 65536" using keys_small_length [OF small] by simp
  have half: "?n div 2 < 65536" using n16 by linarith
  have key: "key_off ks (Suc i) + 8 \<le> key_off ks i + B" if "i < ?n" for i
  proof -
    have "10 + length (ks ! i) \<le> B" using assms(5) that by simp
    then show ?thesis using that by (simp add: enc_all_take_Suc length_enc_key)
  qed
  have whole: "key_off ks ?n = ?T" by simp
  have le: "key_off ks i \<le> ?T" for i by (rule enc_all_take_le)
  have first: "key_off ks (Suc 0) + 8 \<le> B" if "0 < ?n" using key [OF that] by simp
  have "?T + 8 * ?n \<le> B * ?n" using assms(5) by (intro enc_all_bound) (simp add: length_enc_key)
  moreover have "B * ?n \<le> B * 2" if "?n \<le> 2" using that by (rule mult_le_mono2)
  ultimately have n3: "3 \<le> ?n" using assms(6,7) by linarith
  obtain m1 where m1: "m1 \<le> ?n div 2"
    "split_down (internal_left_bytes ?node) (as_u16 ps) (as_u16 (?n div 2)) = Some (as_u16 m1)"
    "m1 = 0 \<or> ?L m1 \<le> ps" "m1 < ?n div 2 \<longrightarrow> ps < ?L (Suc m1)"
    using split_down_spec [of "?n div 2" "internal_left_bytes ?node" ?L ps]
      internal_left_bytes_mk [OF assms(1)] half assms(4) by auto
  have m1_pos: "1 \<le> m1"
  proof (rule ccontr)
    assume "\<not> 1 \<le> m1"
    then have "m1 = 0" by simp
    moreover have "key_off ks (Suc 0) + 8 \<le> B" using first n3 by linarith
    ultimately show False using m1(4) n3 assms(6) by simp
  qed
  have m1_lt: "m1 < ?n" "m1 + 2 \<le> ?n" using m1(1) n3 by linarith+
  obtain m where m: "m1 \<le> m" "m < ?n"
    "split_up (internal_right_bytes ?node (as_u16 ?n)) (as_u16 ps) (as_u16 ?n) (as_u16 m1) = Some (as_u16 m)"
    "m = ?n - 1 \<or> ?R m \<le> ps" "m1 < m \<longrightarrow> ps < ?R (m - 1)"
    using split_up_spec [of m1 ?n "internal_right_bytes ?node (as_u16 ?n)" ?R ps]
      internal_right_bytes_mk [OF assms(1)] n16 m1_lt(1) assms(4) by auto
  have room: "m + 2 \<le> ?n"
  proof (rule ccontr)
    assume "\<not> m + 2 \<le> ?n"
    then have last: "m = ?n - 1" "m1 < m" "Suc (m - 1) = m" using m(2) m1_lt(2) by linarith+
    have "?T + 8 \<le> key_off ks m + B" using key [OF m(2)] whole last by simp
    then have "?R (m - 1) \<le> 19 + B" using last n3 le [of m] by simp
    with m(5) last(2) assms(6) show False by linarith
  qed
  have right: "?R m \<le> ps" using m(4) room by auto
  have left: "?L m \<le> ps"
  proof (cases "m1 < m")
    case True
    then have "ps < 11 + (?T - key_off ks m) + 8 * (?n - (m - 1))" using m(5) by simp
    with True assms(6,8) le [of m] m(2) show ?thesis by simp
  next
    case False
    with m(1) m1(3) m1_pos show ?thesis by simp
  qed
  have "internal_split_with_promotion ?node ps =
      Some (mk_internal 0 (take m ks) (take (Suc m) cs), ks ! m,
            mk_internal 0 (drop (Suc m) ks) (drop (Suc m) cs))"
    using assms(1-4) m1(2) m(3) m1_pos m(1) room left right by (rule internal_cut_mk)
  moreover have "19 + length (enc_keys (drop (Suc m) ks)) + 8 * (?n - Suc m) \<le> ps"
    using right m(2) by (simp add: enc_all_drop)
  ultimately show thesis
    using that [of m] m1_pos m(1) room left by simp
qed

section \<open>Properties\<close>

text \<open>C34. The binary search of an internal node is the linear count of the separators that are at most
  the key, which is the index of the child that covers the key.\<close>

theorem internal_child_index_correct:
  assumes "keys_small ks" "sorted_keys ks"
  shows "internal_child_index (mk_internal j ks cs) key = Some (as_u16 (upper_bound ks key))"
  using assms by (rule internal_child_index_mk)

lemma internal_child_index_correct_witness:
  "internal_child_index (mk_internal 9 [[2], [4], [4, 1]] [10, 11, 12, 13]) [4] = Some 2 \<and>
   internal_child_index (mk_internal 9 [[2], [4], [4, 1]] [10, 11, 12, 13]) [1, 7] = Some 0"
  using internal_child_index_correct [of "[[2], [4], [4, 1]]" 9 "[10, 11, 12, 13]" "[4]"]
    internal_child_index_correct [of "[[2], [4], [4, 1]]" 9 "[10, 11, 12, 13]" "[1, 7]"]
  by (simp add: keys_small_def length_enc_key upper_bound_def as_u16_def)

text \<open>C35. Inserting the two halves of a split child: the separator goes between the separators around the
  child, and the two new ids replace the child's id.\<close>

theorem internal_insert_split_child_correct:
  assumes "keys_small ks" "sorted_keys ks" "length cs = Suc (length ks)" "idx \<le> length ks"
    and "keys_small (take idx ks @ sep # drop idx ks)" "sorted_keys (take idx ks @ sep # drop idx ks)"
  shows "internal_insert_split_child (mk_internal j ks cs) (as_u16 idx) sep l r =
    Some (mk_internal 0 (take idx ks @ sep # drop idx ks) (take idx cs @ l # r # drop (Suc idx) cs))"
  using assms by (rule internal_insert_split_child_mk)

lemma internal_insert_split_child_correct_witness:
  "internal_insert_split_child (mk_internal 3 [[2], [6]] [10, 11, 12]) 1 [4] 20 21 =
     Some (mk_internal 0 [[2], [4], [6]] [10, 20, 21, 12])"
  using internal_insert_split_child_correct [of "[[2], [6]]" "[10, 11, 12]" 1 "[4]" 3 20 21]
  by (simp add: keys_small_def length_enc_key)

text \<open>C23. Splitting an overfull internal node: the separators before the promoted one with their children
  go left, those after it go right, at least one separator stays on each side, and both halves fit.\<close>

theorem internal_split_correct:
  assumes "internal_splittable ks" "sorted_keys ks" "length cs = Suc (length ks)" "ps < 65536"
    and "\<forall>k \<in> set ks. 10 + length k \<le> B" "2 * B + 19 \<le> ps"
    and "ps < 19 + length (enc_keys ks) + 8 * length ks"
    and "19 + length (enc_keys ks) + 8 * length ks \<le> ps + B"
  shows "\<exists>m. 1 \<le> m \<and> m + 2 \<le> length ks \<and>
    internal_split_with_promotion (mk_internal j ks cs) ps =
       Some (mk_internal 0 (take m ks) (take (Suc m) cs), ks ! m,
             mk_internal 0 (drop (Suc m) ks) (drop (Suc m) cs)) \<and>
    19 + length (enc_keys (take m ks)) + 8 * m \<le> ps \<and>
    19 + length (enc_keys (drop (Suc m) ks)) + 8 * (length ks - Suc m) \<le> ps"
  by (rule internal_split_mk [OF assms]) (rule exI; intro conjI; assumption)

lemma internal_split_correct_witness:
  "\<exists>m. 1 \<le> m \<and> m + 2 \<le> 5 \<and>
    internal_split_with_promotion (mk_internal 3 [[2], [4], [6], [8], [9]] [10, 11, 12, 13, 14, 15]) 64 =
       Some (mk_internal 0 (take m [[2], [4], [6], [8], [9]]) (take (Suc m) [10, 11, 12, 13, 14, 15]),
             [[2], [4], [6], [8], [9]] ! m,
             mk_internal 0 (drop (Suc m) [[2], [4], [6], [8], [9]]) (drop (Suc m) [10, 11, 12, 13, 14, 15]))"
  using internal_split_correct [of "[[2], [4], [6], [8], [9]]" "[10, 11, 12, 13, 14, 15]" 64 11 3]
  by (auto simp: internal_splittable_def length_enc_key)

end
