(* ===== verification/Pages.thy ===== *)
theory Pages
  imports Leaf_Page Internal_Page
begin

text \<open>
  The tree pages as a tagged union, and the size limit on entries: \<open>src/01-btree/src/page/mod.rs\<close>.
\<close>

section \<open>The code\<close>

datatype page = Leaf leaf_node | Internal internal_node

definition page_decode :: "page_id \<Rightarrow> bytes \<Rightarrow> page option" where
  "page_decode i bs =
     do { tag \<leftarrow> elem_at bs 0;
          if tag = PAGE_TYPE_LEAF then do { l \<leftarrow> leaf_decode i bs; Some (Leaf l) }
          else if tag = PAGE_TYPE_INTERNAL then do { n \<leftarrow> internal_decode i bs; Some (Internal n) }
          else None }"

fun page_to_bytes :: "page \<Rightarrow> page_id \<Rightarrow> nat \<Rightarrow> bytes option" where
  "page_to_bytes (Leaf l) i ps = leaf_to_bytes l i ps"
| "page_to_bytes (Internal n) i ps = internal_to_bytes n i ps"

datatype page_error = EntryTooLarge nat nat

definition max_kv_size :: "nat \<Rightarrow> nat" where
  "max_kv_size ps = (ps - (unat INTERNAL_HEADER + 28)) div 2"

definition check_limits :: "nat \<Rightarrow> bytes \<Rightarrow> bytes \<Rightarrow> page_error + unit" where
  "check_limits ps k v =
     (let max = max_kv_size ps; len = length k + length v
      in if len > max then Inl (EntryTooLarge len max) else Inr ())"

section \<open>What a tree page holds\<close>

text \<open>
  \<open>mk_page i nd\<close> is the page with id \<open>i\<close> that holds the node \<open>nd\<close>; \<open>node_fits ps nd\<close> says that the
  node can be serialised into \<open>ps\<close> bytes.
\<close>

datatype node = LeafN "(key \<times> val) list" | InternalN "key list" "page_id list"

fun mk_page :: "page_id \<Rightarrow> node \<Rightarrow> page" where
  "mk_page i (LeafN kvs) = Leaf (mk_leaf i kvs)"
| "mk_page i (InternalN ks cs) = Internal (mk_internal i ks cs)"

fun node_fits :: "nat \<Rightarrow> node \<Rightarrow> bool" where
  "node_fits ps (LeafN kvs) \<longleftrightarrow> leaf_small kvs \<and> 11 + length (enc_entries kvs) \<le> ps"
| "node_fits ps (InternalN ks cs) \<longleftrightarrow>
     keys_small ks \<and> length cs = Suc (length ks) \<and> 11 + length (enc_keys ks) + 8 * length cs \<le> ps"

text \<open>
  The page sizes for which the code is correct: at least the 49 bytes of a header, and small
  enough that a node outgrown by one entry still has \<open>u16\<close> offsets.
\<close>

definition page_size_ok :: "nat \<Rightarrow> bool" where
  "page_size_ok ps \<longleftrightarrow> 49 \<le> ps \<and> ps \<le> 43696"

lemma page_decode_leaf_image: "page_decode j (leaf_image i kvs @ post) =
    map_option Leaf (leaf_decode j (leaf_image i kvs @ post))"
  by (auto simp: page_decode_def leaf_image_def map_option_case split: option.splits)

lemma page_decode_internal_image: "page_decode j (internal_image i ks cs @ post) =
    map_option Internal (internal_decode j (internal_image i ks cs @ post))"
  by (auto simp: page_decode_def internal_image_def map_option_case page_type_defs split: option.splits)

lemma page_to_bytes_decode:
  assumes "node_fits ps nd"
  shows "\<exists>bs. page_to_bytes (mk_page j nd) i ps = Some bs \<and> length bs = ps \<and>
    page_decode i bs = Some (mk_page i nd)"
proof (cases nd)
  case (LeafN kvs)
  with assms show ?thesis
    by (simp add: leaf_to_bytes_image page_decode_leaf_image leaf_decode_image)
next
  case (InternalN ks cs)
  with assms show ?thesis
    by (simp add: internal_to_bytes_image page_decode_internal_image internal_decode_image)
qed

definition page_fits :: "nat \<Rightarrow> page_id \<Rightarrow> page \<Rightarrow> bool" where
  "page_fits ps i pg \<longleftrightarrow> (\<exists>nd. pg = mk_page i nd \<and> node_fits ps nd)"

interpretation page_codec_tree:
  page_codec "\<lambda>pg. page_to_bytes pg i ps" "page_decode i" "page_fits ps i" ps for i ps
proof (unfold_locales, goal_cases)
  case (1 pg)
  then obtain nd where "pg = mk_page i nd" "node_fits ps nd" by (auto simp: page_fits_def)
  with page_to_bytes_decode [of ps nd i i] show ?case by auto
next
  case (2 pg bs)
  then obtain nd where "pg = mk_page i nd" "node_fits ps nd" by (auto simp: page_fits_def)
  with page_to_bytes_decode [of ps nd i i] 2 show ?case by auto
qed

lemma page_decode_other_tag:
  assumes "bs \<noteq> []" "hd bs \<noteq> PAGE_TYPE_LEAF" "hd bs \<noteq> PAGE_TYPE_INTERNAL"
  shows "page_decode i bs = None"
  using assms by (cases bs) (simp_all add: page_decode_def)

lemma check_limits_ok: "check_limits ps k v = Inr () \<longleftrightarrow> length k + length v \<le> max_kv_size ps"
  by (simp add: check_limits_def Let_def)

lemma max_kv_size_bound: "39 \<le> ps \<Longrightarrow> 2 * max_kv_size ps + 39 \<le> ps"
  by (simp add: max_kv_size_def INTERNAL_HEADER_def)

text \<open>Two separators of the largest size and their three children fit one page.\<close>

lemma two_separators_fit:
  assumes "39 \<le> ps" "length a \<le> max_kv_size ps" "length b \<le> max_kv_size ps"
  shows "11 + length (enc_keys [a, b]) + 8 * 3 \<le> ps"
  using assms max_kv_size_bound [of ps] by (simp add: length_enc_key)

section \<open>Properties\<close>

text \<open>C31. Round trip of the tree pages: a node that fits its page is written into exactly one page
  of bytes, and decoding those bytes under the id they were written with gives the page back.\<close>

theorem page_round_trip:
  assumes "node_fits ps nd"
  shows "\<exists>bs. page_to_bytes (mk_page j nd) i ps = Some bs \<and> length bs = ps \<and>
    page_decode i bs = Some (mk_page i nd)"
  using assms by (rule page_to_bytes_decode)

lemma page_round_trip_witness:
  "\<exists>bs. page_to_bytes (mk_page 0 (InternalN [[7], [9, 1]] [3, 4, 5])) 8 64 = Some bs \<and> length bs = 64 \<and>
    page_decode 8 bs = Some (mk_page 8 (InternalN [[7], [9, 1]] [3, 4, 5]))"
  by (rule page_round_trip) (simp add: keys_small_def length_enc_key)

text \<open>A page read back under another id than the one it was written with panics: the id stored in the
  page catches a misdirected read, for leaf and internal pages alike.\<close>

lemma page_wrong_id:
  assumes "node_fits ps nd" "page_to_bytes (mk_page x nd) i ps = Some bs" "i \<noteq> j"
  shows "page_decode j bs = None"
proof (cases nd)
  case (LeafN kvs)
  with assms show ?thesis
    by (auto simp: leaf_to_bytes_image page_decode_leaf_image leaf_decode_wrong_id)
next
  case (InternalN ks cs)
  with assms show ?thesis
    by (auto simp: internal_to_bytes_image page_decode_internal_image internal_decode_wrong_id)
qed

lemma page_wrong_id_witness:
  "\<exists>bs. page_to_bytes (mk_page 0 (LeafN [([1], [2])])) 8 64 = Some bs \<and> page_decode 9 bs = None"
proof -
  have fits: "node_fits 64 (LeafN [([1], [2])])" by (simp add: leaf_small_def length_enc_entry)
  obtain bs where bs: "page_to_bytes (mk_page 0 (LeafN [([1], [2])])) 8 64 = Some bs"
    using page_to_bytes_decode [OF fits, of 0 8] by (elim exE conjE)
  have "(8 :: page_id) \<noteq> 9" by simp
  from bs page_wrong_id [OF fits bs this] show ?thesis by (intro exI conjI)
qed

end
