(* ===== verification/Header_Page.thy ===== *)
theory Header_Page
  imports Page_Codec
begin

text \<open>
  The header page, \<open>src/01-btree/src/page/header.rs\<close>: page 0, updated in place by every commit.
\<close>

definition FORMAT_SIGNATURE :: bytes where
  "FORMAT_SIGNATURE = [0x48, 0x57, 0x42, 0x54, 0x52, 0x45, 0x45, 0x31]"

definition VERSION :: u32 where "VERSION = 2"

definition HEADER_PAGE_ID :: page_id where "HEADER_PAGE_ID = 0"

record header =
  hdr_page_size :: nat
  root_id :: page_id
  hdr_next_page_id :: u64
  free_list_head :: page_id
  free_count :: u64

datatype decode_error = NotAHeader | VersionMismatch u32 u32

definition header_new :: "nat \<Rightarrow> page_id \<Rightarrow> u64 \<Rightarrow> header" where
  "header_new ps root next =
     \<lparr>hdr_page_size = ps, root_id = root, hdr_next_page_id = next, free_list_head = 0, free_count = 0\<rparr>"

definition header_to_bytes :: "header \<Rightarrow> nat \<Rightarrow> bytes option" where
  "header_to_bytes h ps =
     do { b0 \<leftarrow> put_at (replicate ps 0) 0 PAGE_TYPE_HEADER;
          b1 \<leftarrow> copy_into b0 1 9 FORMAT_SIGNATURE;
          b2 \<leftarrow> copy_into b1 9 13 (u32_to_le VERSION);
          b3 \<leftarrow> copy_into b2 13 17 (u32_to_le (word_of_nat (hdr_page_size h)));
          b4 \<leftarrow> copy_into b3 17 25 (u64_to_le (root_id h));
          b5 \<leftarrow> copy_into b4 25 33 (u64_to_le (hdr_next_page_id h));
          b6 \<leftarrow> copy_into b5 33 41 (u64_to_le (free_list_head h));
          copy_into b6 41 49 (u64_to_le (free_count h)) }"

definition header_from_bytes :: "bytes \<Rightarrow> (decode_error + header) option" where
  "header_from_bytes bs =
     (if length bs < 49 \<or> bs ! 0 \<noteq> PAGE_TYPE_HEADER \<or> take 8 (drop 1 bs) \<noteq> FORMAT_SIGNATURE
      then Some (Inl NotAHeader)
      else do {
        version \<leftarrow> read_u32 bs 9;
        if version \<noteq> VERSION then Some (Inl (VersionMismatch version VERSION))
        else do {
          psize \<leftarrow> read_u32 bs 13;
          root \<leftarrow> read_u64 bs 17;
          next \<leftarrow> read_u64 bs 25;
          head \<leftarrow> read_u64 bs 33;
          count \<leftarrow> read_u64 bs 41;
          Some (Inr \<lparr>hdr_page_size = unat psize, root_id = root, hdr_next_page_id = next,
                     free_list_head = head, free_count = count\<rparr>) } })"

text \<open>The bytes of a header: the fields in order, then zeros.\<close>

definition header_image :: "header \<Rightarrow> bytes" where
  "header_image h = PAGE_TYPE_HEADER # FORMAT_SIGNATURE @ u32_to_le VERSION @
     u32_to_le (word_of_nat (hdr_page_size h)) @ u64_to_le (root_id h) @
     u64_to_le (hdr_next_page_id h) @ u64_to_le (free_list_head h) @ u64_to_le (free_count h)"

lemma length_signature [simp]: "length FORMAT_SIGNATURE = 8"
  by (simp add: FORMAT_SIGNATURE_def)

lemma length_header_image [simp]: "length (header_image h) = 49"
  by (simp add: header_image_def)

lemma header_to_bytes_image:
  "49 \<le> ps \<Longrightarrow> header_to_bytes h ps = Some (header_image h @ replicate (ps - 49) 0)"
  by (simp add: header_to_bytes_def header_image_def copy_into_def put_at_zeros drop_Cons')

lemma header_to_bytes_needs_49: "header_to_bytes h ps = Some bs \<Longrightarrow> 49 \<le> ps"
  unfolding header_to_bytes_def
  by (auto simp: bind_eq_Some_conv simp del: put_at_zeros dest!: copy_into_bound put_at_bound)

lemma header_to_bytes_small: "ps < 49 \<Longrightarrow> header_to_bytes h ps = None"
  using header_to_bytes_needs_49 [of h ps] by (cases "header_to_bytes h ps") auto

lemma header_from_bytes_total: "header_from_bytes bs \<noteq> None"
  by (auto simp: header_from_bytes_def read_u32_def read_u64_def slice_of_def)

lemma header_from_image:
  assumes "hdr_page_size h < 2 ^ 32"
  shows "header_from_bytes (header_image h @ replicate n 0) = Some (Inr h)"
proof -
  let ?bs = "header_image h @ replicate n 0"
  have 9: "read_u32 ?bs 9 = Some VERSION"
    using read_u32_mid [of 9 "PAGE_TYPE_HEADER # FORMAT_SIGNATURE" VERSION]
    by (simp add: header_image_def)
  have 13: "read_u32 ?bs 13 = Some (word_of_nat (hdr_page_size h))"
    using read_u32_mid [of 13 "PAGE_TYPE_HEADER # FORMAT_SIGNATURE @ u32_to_le VERSION"]
    by (simp add: header_image_def)
  have 17: "read_u64 ?bs 17 = Some (root_id h)"
    using read_u64_mid [of 17 "PAGE_TYPE_HEADER # FORMAT_SIGNATURE @ u32_to_le VERSION @
      u32_to_le (word_of_nat (hdr_page_size h))"]
    by (simp add: header_image_def)
  have 25: "read_u64 ?bs 25 = Some (hdr_next_page_id h)"
    using read_u64_mid [of 25 "PAGE_TYPE_HEADER # FORMAT_SIGNATURE @ u32_to_le VERSION @
      u32_to_le (word_of_nat (hdr_page_size h)) @ u64_to_le (root_id h)"]
    by (simp add: header_image_def)
  have 33: "read_u64 ?bs 33 = Some (free_list_head h)"
    using read_u64_mid [of 33 "PAGE_TYPE_HEADER # FORMAT_SIGNATURE @ u32_to_le VERSION @
      u32_to_le (word_of_nat (hdr_page_size h)) @ u64_to_le (root_id h) @
      u64_to_le (hdr_next_page_id h)"]
    by (simp add: header_image_def)
  have 41: "read_u64 ?bs 41 = Some (free_count h)"
    using read_u64_mid [of 41 "PAGE_TYPE_HEADER # FORMAT_SIGNATURE @ u32_to_le VERSION @
      u32_to_le (word_of_nat (hdr_page_size h)) @ u64_to_le (root_id h) @
      u64_to_le (hdr_next_page_id h) @ u64_to_le (free_list_head h)"]
    by (simp add: header_image_def)
  have start: "?bs ! 0 = PAGE_TYPE_HEADER" "take 8 (drop 1 ?bs) = FORMAT_SIGNATURE"
    by (simp_all add: header_image_def)
  have "unat (word_of_nat (hdr_page_size h) :: u32) = hdr_page_size h"
    using assms by (simp add: unat_of_nat take_bit_nat_eq_self)
  then show ?thesis
    by (simp only: header_from_bytes_def start 9 13 17 25 33 41) simp
qed

lemma header_version_mismatch:
  assumes "length bs \<ge> 49" "bs ! 0 = PAGE_TYPE_HEADER" "take 8 (drop 1 bs) = FORMAT_SIGNATURE"
    and "read_u32 bs 9 = Some v" "v \<noteq> VERSION"
  shows "header_from_bytes bs = Some (Inl (VersionMismatch v VERSION))"
  using assms by (simp add: header_from_bytes_def)

text \<open>A page of zeros, as an unwritten backend shows, is no header.\<close>

lemma header_from_zeros: "header_from_bytes (replicate n 0) = Some (Inl NotAHeader)"
  by (cases "n < 49") (simp_all add: header_from_bytes_def PAGE_TYPE_HEADER_def)

definition decode_header :: "bytes \<Rightarrow> header option" where
  "decode_header bs = (case header_from_bytes bs of Some (Inr h) \<Rightarrow> Some h | _ \<Rightarrow> None)"

interpretation header_codec:
  page_codec "\<lambda>h. header_to_bytes h ps" decode_header
    "\<lambda>h. 49 \<le> ps \<and> hdr_page_size h < 2 ^ 32" ps for ps
  by unfold_locales (auto simp: header_to_bytes_image decode_header_def header_from_image)

section \<open>Properties\<close>

text \<open>C38. Round trip of the header: with a page of at least 49 bytes and a page size of 32 bits it is
  serialised into one page and decoded to the same header; with a smaller page serialising panics.\<close>

theorem header_round_trip:
  assumes "hdr_page_size h < 2 ^ 32"
  shows "if 49 \<le> ps
    then \<exists>bs. header_to_bytes h ps = Some bs \<and> length bs = ps \<and> header_from_bytes bs = Some (Inr h)
    else header_to_bytes h ps = None"
  using assms header_from_image [OF assms, of "ps - 49"]
  by (auto simp: header_to_bytes_image header_to_bytes_small)

lemma header_round_trip_witness:
  "\<exists>bs. header_to_bytes (header_new 4096 1 2) 4096 = Some bs \<and> length bs = 4096 \<and>
     header_from_bytes bs = Some (Inr (header_new 4096 1 2))"
  using header_round_trip [of "header_new 4096 1 2" 4096] by (simp add: header_new_def)

text \<open>Decoding a header never panics, whatever the bytes: it gives a header, or one of the two
  errors, and bytes that are all zero are not a header.\<close>

lemma header_decode_total:
  "header_from_bytes bs \<noteq> None \<and> header_from_bytes (replicate n 0) = Some (Inl NotAHeader)"
  by (simp add: header_from_bytes_total header_from_zeros)

end
