(* ===== verification/Free_List_Page.thy ===== *)
theory Free_List_Page
  imports Page_Codec
begin

text \<open>The pages of the free-list chain, \<open>src/01-btree/src/page/free_list.rs\<close>.\<close>

definition FREE_LIST_HEADER :: nat where "FREE_LIST_HEADER = 19"

text \<open>\<open>(page_size - 19) / 8\<close>, where the subtraction of \<open>usize\<close> is checked.\<close>

definition free_list_capacity :: "nat \<Rightarrow> nat option" where
  "free_list_capacity ps =
     (if FREE_LIST_HEADER \<le> ps then Some ((ps - FREE_LIST_HEADER) div 8) else None)"

definition free_list_encode ::
    "page_id \<Rightarrow> page_id \<Rightarrow> page_id list \<Rightarrow> nat \<Rightarrow> bytes option" where
  "free_list_encode i next ids ps =
     do { cap \<leftarrow> free_list_capacity ps;
          assert_that (length ids \<le> cap);
          b0 \<leftarrow> put_at (replicate ps 0) 0 PAGE_TYPE_FREE_LIST;
          b1 \<leftarrow> copy_into b0 1 9 (u64_to_le i);
          b2 \<leftarrow> copy_into b1 9 17 (u64_to_le next);
          b3 \<leftarrow> copy_into b2 17 19 (u16_to_le (as_u16 (length ids)));
          write_u64s b3 FREE_LIST_HEADER ids }"

definition free_list_decode :: "page_id \<Rightarrow> bytes \<Rightarrow> (page_id \<times> page_id list) option" where
  "free_list_decode expected_id bs =
     do { tag \<leftarrow> elem_at bs 0;
          assert_that (tag = PAGE_TYPE_FREE_LIST);
          i \<leftarrow> read_u64 bs 1;
          assert_that (i = expected_id);
          next \<leftarrow> read_u64 bs 9;
          count \<leftarrow> read_u16 bs 17;
          ids \<leftarrow> read_u64s bs FREE_LIST_HEADER (unat count);
          Some (next, ids) }"

definition free_list_image :: "page_id \<Rightarrow> page_id \<Rightarrow> page_id list \<Rightarrow> bytes" where
  "free_list_image i next ids = PAGE_TYPE_FREE_LIST # u64_to_le i @ u64_to_le next @
     u16_to_le (as_u16 (length ids)) @ concat (map u64_to_le ids)"

lemma length_free_list_image [simp]: "length (free_list_image i next ids) = 19 + 8 * length ids"
  by (simp add: free_list_image_def)

text \<open>A page holds \<open>ids\<close> when they are within its capacity, which bounds their number by \<open>u16\<close> too.\<close>

definition free_list_fits :: "nat \<Rightarrow> page_id list \<Rightarrow> bool" where
  "free_list_fits ps ids \<longleftrightarrow> 19 \<le> ps \<and> length ids \<le> (ps - 19) div 8 \<and> length ids < 65536"

lemma free_list_encode_image:
  assumes "free_list_fits ps ids"
  shows "free_list_encode i next ids ps =
           Some (free_list_image i next ids @ replicate (ps - 19 - 8 * length ids) 0)"
proof -
  have "8 * length ids \<le> ps - 19" "19 \<le> ps" "length ids \<le> (ps - 19) div 8"
    using assms by (auto simp: free_list_fits_def)
  then show ?thesis
    using write_u64s_zeros [of 19 "PAGE_TYPE_FREE_LIST # u64_to_le i @ u64_to_le next @
        u16_to_le (as_u16 (length ids))" ids "ps - 19"]
    by (simp add: free_list_encode_def free_list_capacity_def FREE_LIST_HEADER_def free_list_image_def
        copy_into_def put_at_zeros drop_Cons')
qed

lemma free_list_encode_overflow:
  "free_list_capacity ps = Some cap \<Longrightarrow> cap < length ids \<Longrightarrow> free_list_encode i next ids ps = None"
  by (simp add: free_list_encode_def)

lemma free_list_decode_image:
  assumes "length ids < 65536"
  shows "free_list_decode i (free_list_image i next ids @ post) = Some (next, ids)"
proof -
  let ?bs = "free_list_image i next ids @ post"
  have 0: "elem_at ?bs 0 = Some PAGE_TYPE_FREE_LIST"
    by (simp add: free_list_image_def)
  have 1: "read_u64 ?bs (Suc 0) = Some i"
    using read_u64_mid [of 1 "[PAGE_TYPE_FREE_LIST]" i] by (simp add: free_list_image_def)
  have 9: "read_u64 ?bs 9 = Some next"
    using read_u64_mid [of 9 "PAGE_TYPE_FREE_LIST # u64_to_le i"] by (simp add: free_list_image_def)
  have 17: "read_u16 ?bs 17 = Some (as_u16 (length ids))"
    using read_u16_mid [of 17 "PAGE_TYPE_FREE_LIST # u64_to_le i @ u64_to_le next"]
    by (simp add: free_list_image_def)
  have 19: "read_u64s ?bs FREE_LIST_HEADER (length ids) = Some ids"
    using read_u64s_mid [of 19 "PAGE_TYPE_FREE_LIST # u64_to_le i @ u64_to_le next @
        u16_to_le (as_u16 (length ids))" "length ids" ids post]
    by (simp add: free_list_image_def FREE_LIST_HEADER_def)
  show ?thesis
    using assms by (simp add: free_list_decode_def 0 1 9 17 19 unat_as_u16)
qed

text \<open>The codec of one chain page with a given id; its value is the link and the ids it stores.\<close>

interpretation free_list_codec:
  page_codec "\<lambda>(next, ids). free_list_encode i next ids ps" "free_list_decode i"
    "\<lambda>(next, ids). free_list_fits ps ids" ps for i ps
  by unfold_locales
    (auto simp: free_list_encode_image free_list_decode_image free_list_fits_def)

lemma free_list_decode_wrong_id:
  assumes "length ids < 65536" "i \<noteq> j"
  shows "free_list_decode j (free_list_image i next ids @ post) = None"
proof -
  have "read_u64 (free_list_image i next ids @ post) (Suc 0) = Some i"
    using read_u64_mid [of 1 "[PAGE_TYPE_FREE_LIST]" i] by (simp add: free_list_image_def)
  then show ?thesis
    using assms(2) by (simp add: free_list_decode_def bind_eq_None_conv)
qed

section \<open>Properties\<close>

text \<open>Round trip of a free-list page: up to the capacity of the page the ids and the link are
  serialised into one page and come back under the same id; more xs than the capacity panic.\<close>

lemma free_list_round_trip:
  assumes "19 \<le> ps" "length xs < 65536"
  shows "if length xs \<le> (ps - 19) div 8
    then \<exists>bs. free_list_encode i next xs ps = Some bs \<and> length bs = ps \<and> free_list_decode i bs = Some (next, xs)
    else free_list_encode i next xs ps = None"
proof (cases "length xs \<le> (ps - 19) div 8")
  case True
  then have "free_list_fits ps xs" "19 + 8 * length xs \<le> ps" using assms by (auto simp: free_list_fits_def)
  then show ?thesis using True assms(2) by (simp add: free_list_encode_image free_list_decode_image)
next
  case False
  moreover have "free_list_capacity ps = Some ((ps - 19) div 8)"
    using assms(1) by (simp add: free_list_capacity_def FREE_LIST_HEADER_def)
  ultimately show ?thesis by (simp add: free_list_encode_overflow)
qed

lemma free_list_round_trip_witness:
  "(\<exists>bs. free_list_encode 5 9 [7, 8] 40 = Some bs \<and> length bs = 40 \<and> free_list_decode 5 bs = Some (9, [7, 8])) \<and>
   free_list_encode 5 9 [7, 8, 6] 40 = None"
  using free_list_round_trip [of 40 "[7, 8]" 5 9] free_list_round_trip [of 40 "[7, 8, 6]" 5 9] by simp

end
