(* ===== verification/Store.thy ===== *)
theory Store
  imports Pages Header_Page Free_List_Page
begin

text \<open>
  The store, \<open>src/01-btree/src/storage/store.rs\<close>: the published root, the count of active
  readers, and the writer state behind the lock; read guards; write transactions and the
  copy-on-write commit. Every function takes the backend's operations \<open>ops\<close> as its first argument.

  A \<open>WriteTxn\<close> refers to its store and holds the guard of \<open>write_lock\<close>, an alias of the store's
  writer state. The model's transaction carries the store, and changes the writer state in it.
\<close>

definition INITIAL_ROOT_PAGE_ID :: page_id where "INITIAL_ROOT_PAGE_ID = 1"

datatype store_open_error =
    PageSizeMismatch nat nat
  | StoreVersionMismatch u32 u32

record writer_state =
  next_page_id :: u64
  free_list :: "page_id list"
  pending_free :: "page_id list"
  free_list_page_ids :: "page_id list"

record 'io store =
  store_io :: 'io
  root :: page_id
  readers :: nat
  write_lock :: writer_state

section \<open>Opening\<close>

text \<open>
  The walk along the free-list chain. A chain on disk may be cyclic, and then the code does not
  return; neither does the model, whose value is \<^term>\<open>None\<close> then, as for a panic.
\<close>

partial_function (option) load_chain_loop ::
    "'io page_io \<Rightarrow> 'io \<Rightarrow> page_id \<Rightarrow> page_id list \<Rightarrow> page_id list \<Rightarrow> (page_id list \<times> page_id list) option" where
  "load_chain_loop ops io cur fl ids =
     (if cur = 0 then Some (fl, ids)
      else do { bs \<leftarrow> read_page ops io cur;
                r \<leftarrow> free_list_decode cur bs;
                load_chain_loop ops io (fst r) (fl @ snd r) (ids @ [cur]) })"

declare load_chain_loop.simps [code]

definition load_free_list_chain ::
    "'io page_io \<Rightarrow> 'io \<Rightarrow> page_id \<Rightarrow> (page_id list \<times> page_id list) option" where
  "load_free_list_chain ops io head = load_chain_loop ops io head [] []"

text \<open>The state built from a header, the end of \<open>open_or_create\<close>.\<close>

definition store_from_header :: "'io page_io \<Rightarrow> 'io \<Rightarrow> header \<Rightarrow> 'io store option" where
  "store_from_header ops io h =
     do { r \<leftarrow> load_free_list_chain ops io (free_list_head h);
          Some \<lparr>store_io = io, root = root_id h, readers = 0,
                write_lock = \<lparr>next_page_id = hdr_next_page_id h, free_list = fst r,
                              pending_free = [], free_list_page_ids = snd r\<rparr>\<rparr> }"

definition open_or_create :: "'io page_io \<Rightarrow> 'io \<Rightarrow> (store_open_error + 'io store) option" where
  "open_or_create ops io =
     do { bs \<leftarrow> read_page ops io HEADER_PAGE_ID;
          r \<leftarrow> header_from_bytes bs;
          case r of
            Inr h \<Rightarrow>
              if hdr_page_size h = page_size ops io
              then do { st \<leftarrow> store_from_header ops io h; Some (Inr st) }
              else Some (Inl (PageSizeMismatch (page_size ops io) (hdr_page_size h)))
          | Inl (VersionMismatch found expected) \<Rightarrow> Some (Inl (StoreVersionMismatch found expected))
          | Inl NotAHeader \<Rightarrow>
              do { let ps = page_size ops io;
                   rb \<leftarrow> leaf_to_bytes leaf_empty INITIAL_ROOT_PAGE_ID ps;
                   io1 \<leftarrow> write_page ops io INITIAL_ROOT_PAGE_ID rb;
                   let h = header_new ps INITIAL_ROOT_PAGE_ID (INITIAL_ROOT_PAGE_ID + 1);
                   hb \<leftarrow> header_to_bytes h ps;
                   io2 \<leftarrow> write_page ops io1 HEADER_PAGE_ID hb;
                   io3 \<leftarrow> sync ops io2;
                   st \<leftarrow> store_from_header ops io3 h;
                   Some (Inr st) } }"

section \<open>Readers\<close>

definition enter_read :: "'io store \<Rightarrow> 'io store" where
  "enter_read st = st\<lparr>readers := readers st + 1\<rparr>"

definition drop_read :: "'io store \<Rightarrow> 'io store" where
  "drop_read st = st\<lparr>readers := readers st - 1\<rparr>"

definition guard_read :: "'io page_io \<Rightarrow> 'io store \<Rightarrow> page_id \<Rightarrow> page option" where
  "guard_read ops st i = do { bs \<leftarrow> read_page ops (store_io st) i; page_decode i bs }"

section \<open>Write transactions\<close>

record 'io write_txn =
  txn_store :: "'io store"
  writes :: "(page_id \<times> bytes) list"
  freed :: "page_id list"
  base_root :: page_id

definition begin_write :: "'io store \<Rightarrow> 'io write_txn" where
  "begin_write st = \<lparr>txn_store = st, writes = [], freed = [], base_root = root st\<rparr>"

definition guard :: "'io write_txn \<Rightarrow> writer_state" where
  "guard tx = write_lock (txn_store tx)"

definition set_guard :: "'io write_txn \<Rightarrow> writer_state \<Rightarrow> 'io write_txn" where
  "set_guard tx g = tx\<lparr>txn_store := (txn_store tx)\<lparr>write_lock := g\<rparr>\<rparr>"

definition txn_page_size :: "'io page_io \<Rightarrow> 'io write_txn \<Rightarrow> nat" where
  "txn_page_size ops tx = page_size ops (store_io (txn_store tx))"

definition txn_read :: "'io page_io \<Rightarrow> 'io write_txn \<Rightarrow> page_id \<Rightarrow> page option" where
  "txn_read ops tx i =
     (case find (\<lambda>w. fst w = i) (rev (writes tx)) of
        Some w \<Rightarrow> page_decode i (snd w)
      | None \<Rightarrow> do { bs \<leftarrow> read_page ops (store_io (txn_store tx)) i; page_decode i bs })"

text \<open>\<open>next_page_id += 1\<close>, checked.\<close>

definition u64_succ :: "u64 \<Rightarrow> u64 option" where
  "u64_succ n = (if n = - 1 then None else Some (n + 1))"

definition txn_alloc :: "'io write_txn \<Rightarrow> (page_id \<times> 'io write_txn) option" where
  "txn_alloc tx =
     (let g = guard tx
      in if free_list g \<noteq> []
         then Some (last (free_list g), set_guard tx (g\<lparr>free_list := butlast (free_list g)\<rparr>))
         else do { n \<leftarrow> u64_succ (next_page_id g);
                   Some (next_page_id g, set_guard tx (g\<lparr>next_page_id := n\<rparr>)) })"

definition txn_write :: "'io page_io \<Rightarrow> 'io write_txn \<Rightarrow> page_id \<Rightarrow> page \<Rightarrow> 'io write_txn option" where
  "txn_write ops tx i pg =
     do { bs \<leftarrow> page_to_bytes pg i (txn_page_size ops tx);
          Some (tx\<lparr>writes := writes tx @ [(i, bs)]\<rparr>) }"

definition txn_free :: "'io write_txn \<Rightarrow> page_id \<Rightarrow> 'io write_txn" where
  "txn_free tx i = tx\<lparr>freed := freed tx @ [i]\<rparr>"

section \<open>Commit\<close>

text \<open>\<open>persist_free_list\<close>: first the loop that extends the chain, then the one that writes it.\<close>

function extend_chain :: "nat \<Rightarrow> writer_state \<Rightarrow> writer_state option" where
  "extend_chain needed g =
     (if length (free_list_page_ids g) < needed then
        do { n \<leftarrow> u64_succ (next_page_id g);
             extend_chain needed
               (g\<lparr>next_page_id := n,
                  free_list_page_ids := free_list_page_ids g @ [next_page_id g]\<rparr>) }
      else Some g)"
  by pat_completeness auto
termination
  by (relation "measure (\<lambda>(needed, g). needed - length (free_list_page_ids g))") auto

declare extend_chain.simps [simp del]

definition div_ceil :: "nat \<Rightarrow> nat \<Rightarrow> nat" where
  "div_ceil n d = (n + d - 1) div d"

fun write_chain :: "'io page_io \<Rightarrow> nat \<Rightarrow> page_id list \<Rightarrow> page_id list \<Rightarrow> nat \<Rightarrow> nat \<Rightarrow> nat list \<Rightarrow> 'io \<Rightarrow> 'io option"
where
  "write_chain ops ps ids payload cap needed [] io = Some io"
| "write_chain ops ps ids payload cap needed (i # is) io =
     do { pid \<leftarrow> elem_at ids i;
          next \<leftarrow> (if i + 1 < needed then elem_at ids (i + 1) else Some 0);
          chunk \<leftarrow> slice_of payload (i * cap) (min ((i + 1) * cap) (length payload));
          bs \<leftarrow> free_list_encode pid next chunk ps;
          io' \<leftarrow> write_page ops io pid bs;
          write_chain ops ps ids payload cap needed is io' }"

definition persist_free_list ::
    "'io page_io \<Rightarrow> 'io write_txn \<Rightarrow> (page_id \<times> u64 \<times> 'io write_txn) option" where
  "persist_free_list ops tx =
     do { let ps = txn_page_size ops tx;
          c \<leftarrow> free_list_capacity ps;
          let cap = max c 1;
          let payload = free_list (guard tx) @ pending_free (guard tx);
          let pages_needed = div_ceil (length payload) cap;
          g \<leftarrow> extend_chain pages_needed (guard tx);
          io \<leftarrow> write_chain ops ps (free_list_page_ids g) payload cap pages_needed [0..<pages_needed]
                  (store_io (txn_store tx));
          head \<leftarrow> (if pages_needed > 0 then elem_at (free_list_page_ids g) 0 else Some 0);
          Some (head, word_of_nat (length payload),
                tx\<lparr>txn_store := (txn_store tx)\<lparr>store_io := io, write_lock := g\<rparr>\<rparr>) }"

text \<open>Steps 2 and 3 of the commit: the frees, and the gate on the number of readers.\<close>

definition promote_pending :: "'io write_txn \<Rightarrow> 'io write_txn" where
  "promote_pending tx =
     (let g = (guard tx)\<lparr>pending_free := pending_free (guard tx) @ freed tx\<rparr>;
          g' = (if readers (txn_store tx) = 0
                then g\<lparr>free_list := free_list g @ pending_free g, pending_free := []\<rparr> else g)
      in (set_guard tx g')\<lparr>freed := []\<rparr>)"

definition commit :: "'io page_io \<Rightarrow> 'io write_txn \<Rightarrow> page_id \<Rightarrow> 'io write_txn option" where
  "commit ops tx new_root =
     do { io1 \<leftarrow> write_pages ops (store_io (txn_store tx)) (writes tx);
          let tx1 = promote_pending (tx\<lparr>txn_store := (txn_store tx)\<lparr>store_io := io1\<rparr>\<rparr>);
          (head, count, tx2) \<leftarrow> persist_free_list ops tx1;
          let ps = txn_page_size ops tx2;
          hb \<leftarrow> header_to_bytes
                  \<lparr>hdr_page_size = ps, root_id = new_root, hdr_next_page_id = next_page_id (guard tx2),
                   free_list_head = head, free_count = count\<rparr> ps;
          io2 \<leftarrow> write_page ops (store_io (txn_store tx2)) HEADER_PAGE_ID hb;
          io3 \<leftarrow> sync ops io2;
          Some (tx2\<lparr>txn_store := (txn_store tx2)\<lparr>store_io := io3, root := new_root\<rparr>\<rparr>) }"

end
