(* ===== verification/Btree.thy ===== *)
theory Btree
  imports Store
begin

text \<open>
  The copy-on-write B+tree, \<open>src/01-btree/src/storage/tree.rs\<close>. The functions that allocate or
  write pages take the transaction and return the new one with their result.
\<close>

datatype insert_result = Single page | Split page bytes page

definition insert_leaf :: "leaf_node \<Rightarrow> bytes \<Rightarrow> bytes \<Rightarrow> nat \<Rightarrow> insert_result option" where
  "insert_leaf node key val ps =
     do { found \<leftarrow> leaf_search node key;
          built \<leftarrow> (case found of Inr idx \<Rightarrow> leaf_update node idx key val
                                 | Inl idx \<Rightarrow> leaf_insert node idx key val);
          if leaf_nbytes built \<le> ps then Some (Single (Leaf built))
          else do { (left, right) \<leftarrow> leaf_split_by_size built ps;
                    sep_key \<leftarrow> leaf_get_key right 0;
                    Some (Split (Leaf left) sep_key (Leaf right)) } }"

text \<open>
  The recursion follows child ids, and a page graph need not be a tree; the function is
  partial, with \<^term>\<open>None\<close> for divergence and for a panic.
\<close>

partial_function (option) insert_internal ::
    "'io page_io \<Rightarrow> 'io write_txn \<Rightarrow> internal_node \<Rightarrow> bytes \<Rightarrow> bytes \<Rightarrow> nat \<Rightarrow>
     ('io write_txn \<times> insert_result) option" where
  "insert_internal ops tx node key val ps =
     do { idx \<leftarrow> internal_child_index node key;
          child_id \<leftarrow> internal_get_child node idx;
          pg \<leftarrow> txn_read ops tx child_id;
          r \<leftarrow> (case pg of
                  Leaf l \<Rightarrow> do { res \<leftarrow> insert_leaf l key val ps; Some (tx, res) }
                | Internal i \<Rightarrow> insert_internal ops tx i key val ps);
          let tx1 = txn_free (fst r) child_id;
          case snd r of
            Single new_child \<Rightarrow>
              do { a \<leftarrow> txn_alloc tx1;
                   tx2 \<leftarrow> txn_write ops (snd a) (fst a) new_child;
                   n \<leftarrow> internal_replace_child node idx (fst a);
                   Some (tx2, Single (Internal n)) }
          | Split left sep_key right \<Rightarrow>
              do { a \<leftarrow> txn_alloc tx1;
                   tx2 \<leftarrow> txn_write ops (snd a) (fst a) left;
                   b \<leftarrow> txn_alloc tx2;
                   tx3 \<leftarrow> txn_write ops (snd b) (fst b) right;
                   grown \<leftarrow> internal_insert_split_child node idx sep_key (fst a) (fst b);
                   if internal_nbytes grown \<le> ps then Some (tx3, Single (Internal grown))
                   else do { s \<leftarrow> internal_split_with_promotion grown ps;
                             Some (tx3, Split (Internal (fst s)) (fst (snd s)) (Internal (snd (snd s)))) } } }"

declare insert_internal.simps [code]

definition tree_put ::
    "'io page_io \<Rightarrow> 'io write_txn \<Rightarrow> bytes \<Rightarrow> bytes \<Rightarrow> ((page_error + unit) \<times> 'io write_txn) option" where
  "tree_put ops tx key val =
     (let ps = txn_page_size ops tx in
      case check_limits ps key val of
        Inl e \<Rightarrow> Some (Inl e, tx)
      | Inr _ \<Rightarrow>
          do { let root_id = base_root tx;
               pg \<leftarrow> txn_read ops tx root_id;
               r \<leftarrow> (case pg of
                       Leaf l \<Rightarrow> do { res \<leftarrow> insert_leaf l key val ps; Some (tx, res) }
                     | Internal i \<Rightarrow> insert_internal ops tx i key val ps);
               let tx1 = txn_free (fst r) root_id;
               s \<leftarrow> (case snd r of
                       Single new_node \<Rightarrow>
                         do { a \<leftarrow> txn_alloc tx1;
                              tx2 \<leftarrow> txn_write ops (snd a) (fst a) new_node;
                              Some (fst a, tx2) }
                     | Split left sep_key right \<Rightarrow>
                         do { a \<leftarrow> txn_alloc tx1;
                              tx2 \<leftarrow> txn_write ops (snd a) (fst a) left;
                              b \<leftarrow> txn_alloc tx2;
                              tx3 \<leftarrow> txn_write ops (snd b) (fst b) right;
                              new_root \<leftarrow> internal_push_key internal_empty sep_key;
                              let new_root = internal_push_child (internal_push_child new_root (fst a)) (fst b);
                              c \<leftarrow> txn_alloc tx3;
                              tx4 \<leftarrow> txn_write ops (snd c) (fst c) (Internal new_root);
                              Some (fst c, tx4) });
               tx' \<leftarrow> commit ops (snd s) (fst s);
               Some (Inr (), tx') })"

text \<open>The descent of a lookup; \<^term>\<open>None\<close> again for divergence and for a panic.\<close>

partial_function (option) get_loop ::
    "'io page_io \<Rightarrow> 'io store \<Rightarrow> page \<Rightarrow> bytes \<Rightarrow> bytes option option" where
  "get_loop ops st pg key =
     (case pg of
        Leaf l \<Rightarrow>
          do { found \<leftarrow> leaf_search l key;
               case found of Inr idx \<Rightarrow> do { v \<leftarrow> leaf_get_val l idx; Some (Some v) }
                           | Inl _ \<Rightarrow> Some None }
      | Internal i \<Rightarrow>
          do { idx \<leftarrow> internal_child_index i key;
               c \<leftarrow> internal_get_child i idx;
               pg' \<leftarrow> guard_read ops st c;
               get_loop ops st pg' key })"

declare get_loop.simps [code]

definition tree_get :: "'io page_io \<Rightarrow> 'io store \<Rightarrow> bytes \<Rightarrow> bytes option option" where
  "tree_get ops st key = do { pg \<leftarrow> guard_read ops st (root st); get_loop ops st pg key }"

end
