(* ===== verification/Engine.thy ===== *)
theory Engine
  imports Btree
begin

text \<open>
  The public interface, \<open>src/01-btree/src/storage/engine.rs\<close>. An operation takes the store and
  gives its result with the store after it.
\<close>

datatype 'e engine_open_error = Io 'e | StoreError store_open_error

definition engine_in_memory :: "nat \<Rightarrow> memory_page_io store option" where
  "engine_in_memory ps =
     do { r \<leftarrow> open_or_create memory_ops (memory_new ps);
          case r of Inl e \<Rightarrow> None | Inr st \<Rightarrow> Some st }"

definition engine_open ::
    "(os_call \<Rightarrow> 'e option) \<Rightarrow> nat \<Rightarrow> bytes \<Rightarrow> nat \<Rightarrow> ('e engine_open_error + mmap_page_io store) option"
where
  "engine_open os disk contents ps =
     (case mmap_open os disk contents ps of
        Inl e \<Rightarrow> Some (Inl (Io e))
      | Inr io \<Rightarrow>
          do { r \<leftarrow> open_or_create mmap_ops io;
               case r of Inl e \<Rightarrow> Some (Inl (StoreError e)) | Inr st \<Rightarrow> Some (Inr st) })"

definition engine_put ::
    "'io page_io \<Rightarrow> 'io store \<Rightarrow> bytes \<Rightarrow> bytes \<Rightarrow> ((page_error + unit) \<times> 'io store) option" where
  "engine_put ops st key val =
     do { r \<leftarrow> tree_put ops (begin_write st) key val; Some (fst r, txn_store (snd r)) }"

definition engine_get ::
    "'io page_io \<Rightarrow> 'io store \<Rightarrow> bytes \<Rightarrow> (bytes option \<times> 'io store) option" where
  "engine_get ops st key =
     do { let view = enter_read st;
          r \<leftarrow> tree_get ops view key;
          Some (r, drop_read view) }"

end
