(* ===== verification/Ctree.thy ===== *)
theory Ctree
  imports Pages
begin

text \<open>
  The abstract tree: the tree that the pages reachable from a root form, with the page id of each
  node. It is the specification side of the B+tree: the predicates here are the tree invariant
  (key order, page sizes, balance), and \<open>contents\<close> is the sorted list of pairs the tree stands for.
\<close>

datatype ctree = CLeaf page_id "(key \<times> val) list" | CNode page_id "key list" "ctree list"

fun tid :: "ctree \<Rightarrow> page_id" where
  "tid (CLeaf i kvs) = i"
| "tid (CNode i ks ts) = i"

fun retag :: "page_id \<Rightarrow> ctree \<Rightarrow> ctree" where
  "retag j (CLeaf i kvs) = CLeaf j kvs"
| "retag j (CNode i ks ts) = CNode j ks ts"

fun node_of :: "ctree \<Rightarrow> node" where
  "node_of (CLeaf i kvs) = LeafN kvs"
| "node_of (CNode i ks ts) = InternalN ks (map tid ts)"

fun contents :: "ctree \<Rightarrow> (key \<times> val) list" where
  "contents (CLeaf i kvs) = kvs"
| "contents (CNode i ks ts) = concat (map contents ts)"

text \<open>The page ids of a tree, the root first; \<open>below\<close> leaves the root out.\<close>

fun ids :: "ctree \<Rightarrow> page_id list" where
  "ids (CLeaf i kvs) = [i]"
| "ids (CNode i ks ts) = i # concat (map ids ts)"

fun below :: "ctree \<Rightarrow> page_id list" where
  "below (CLeaf i kvs) = []"
| "below (CNode i ks ts) = concat (map ids ts)"

lemma ids_below: "ids t = tid t # below t"
  by (cases t) simp_all

text \<open>\<open>rep pg t\<close>: reading pages with \<open>pg\<close> shows the tree \<open>t\<close>.\<close>

fun rep :: "(page_id \<Rightarrow> page option) \<Rightarrow> ctree \<Rightarrow> bool" where
  "rep pg (CLeaf i kvs) \<longleftrightarrow> pg i = Some (mk_page i (LeafN kvs))"
| "rep pg (CNode i ks ts) \<longleftrightarrow>
     pg i = Some (mk_page i (InternalN ks (map tid ts))) \<and> (\<forall>t \<in> set ts. rep pg t)"

fun below_rep :: "(page_id \<Rightarrow> page option) \<Rightarrow> ctree \<Rightarrow> bool" where
  "below_rep pg (CLeaf i kvs) \<longleftrightarrow> True"
| "below_rep pg (CNode i ks ts) \<longleftrightarrow> (\<forall>t \<in> set ts. rep pg t)"

lemma rep_below: "rep pg t \<longleftrightarrow> pg (tid t) = Some (mk_page (tid t) (node_of t)) \<and> below_rep pg t"
  by (cases t) simp_all

lemma rep_cong: "rep pg t \<Longrightarrow> (\<And>i. i \<in> set (ids t) \<Longrightarrow> pg' i = pg i) \<Longrightarrow> rep pg' t"
proof (induction pg t rule: rep.induct)
  case (1 pg i kvs)
  then show ?case by simp
next
  case (2 pg i ks ts)
  have "rep pg' t" if t: "t \<in> set ts" for t
    using 2(2) t by (intro 2(1) [OF t]) (auto intro!: 2(3))
  then show ?case using 2(2) 2(3) [of i] by simp
qed

lemma below_rep_cong:
  assumes "below_rep pg t" "\<And>i. i \<in> set (below t) \<Longrightarrow> pg' i = pg i"
  shows "below_rep pg' t"
proof (cases t)
  case (CNode i ks ts)
  have "rep pg' u" if u: "u \<in> set ts" for u
    by (rule rep_cong [of pg]) (use assms CNode u in auto)
  then show ?thesis using CNode by simp
qed simp

text \<open>All leaves are at the same depth \<open>h\<close>.\<close>

fun bal :: "nat \<Rightarrow> ctree \<Rightarrow> bool" where
  "bal h (CLeaf i kvs) \<longleftrightarrow> h = 0"
| "bal h (CNode i ks ts) \<longleftrightarrow> 0 < h \<and> (\<forall>t \<in> set ts. bal (h - 1) t)"

text \<open>
  Every node fits its page, entries and separators respect the limit of a page size, and only the
  leaf of a tree of one node can be empty.
\<close>

definition entry_ok :: "nat \<Rightarrow> key \<times> val \<Rightarrow> bool" where
  "entry_ok ps p \<longleftrightarrow> length (fst p) + length (snd p) \<le> max_kv_size ps"

fun sized :: "nat \<Rightarrow> ctree \<Rightarrow> bool" where
  "sized ps (CLeaf i kvs) \<longleftrightarrow> node_fits ps (LeafN kvs) \<and> (\<forall>p \<in> set kvs. entry_ok ps p)"
| "sized ps (CNode i ks ts) \<longleftrightarrow> node_fits ps (InternalN ks (map tid ts)) \<and> ks \<noteq> [] \<and>
     (\<forall>k \<in> set ks. length k \<le> max_kv_size ps) \<and> (\<forall>t \<in> set ts. sized ps t \<and> contents t \<noteq> [])"

section \<open>Key order\<close>

text \<open>
  A subtree covers the keys from \<open>lo\<close> (inclusive) to \<open>hi\<close> (exclusive), \<^term>\<open>None\<close> for no bound.
  \<open>chain lo ks ts hi\<close>: the children \<open>ts\<close> cover the ranges between \<open>lo\<close>, the separators \<open>ks\<close> and \<open>hi\<close>.
\<close>

fun at_least :: "key option \<Rightarrow> key \<Rightarrow> bool" where
  "at_least None k \<longleftrightarrow> True"
| "at_least (Some l) k \<longleftrightarrow> l \<le> k"

fun above :: "key option \<Rightarrow> key \<Rightarrow> bool" where
  "above None k \<longleftrightarrow> True"
| "above (Some l) k \<longleftrightarrow> l < k"

fun under :: "key option \<Rightarrow> key \<Rightarrow> bool" where
  "under None k \<longleftrightarrow> True"
| "under (Some h) k \<longleftrightarrow> k < h"

definition in_range :: "key option \<Rightarrow> key option \<Rightarrow> key \<Rightarrow> bool" where
  "in_range lo hi k \<longleftrightarrow> at_least lo k \<and> under hi k"

fun ordered :: "key option \<Rightarrow> key option \<Rightarrow> ctree \<Rightarrow> bool"
  and chain :: "key option \<Rightarrow> key list \<Rightarrow> ctree list \<Rightarrow> key option \<Rightarrow> bool" where
  "ordered lo hi (CLeaf i kvs) \<longleftrightarrow>
     sorted_keys (map fst kvs) \<and> (\<forall>k \<in> fst ` set kvs. in_range lo hi k)"
| "ordered lo hi (CNode i ks ts) \<longleftrightarrow> chain lo ks ts hi"
| "chain lo [] [t] hi \<longleftrightarrow> ordered lo hi t"
| "chain lo (k # ks) (t # ts) hi \<longleftrightarrow>
     above lo k \<and> under hi k \<and> ordered lo (Some k) t \<and> chain (Some k) ks ts hi"
| "chain lo ks ts hi \<longleftrightarrow> False"

lemma chain_length: "chain lo ks ts hi \<Longrightarrow> length ts = Suc (length ks)"
proof (induction ks arbitrary: lo ts)
  case Nil
  then show ?case by (cases "(lo, [] :: key list, ts, hi)" rule: chain.cases) auto
next
  case (Cons k ks)
  then show ?case by (cases ts) auto
qed

lemma above_trans: "above lo k \<Longrightarrow> k \<le> k' \<Longrightarrow> above lo k'"
  by (cases lo) auto

lemma above_at_least: "above lo k \<Longrightarrow> k \<le> k' \<Longrightarrow> at_least lo k'"
  by (cases lo) auto

lemma at_least_above: "at_least lo k \<Longrightarrow> k < k' \<Longrightarrow> above lo k'"
  by (cases lo) auto

lemma under_trans: "under hi k' \<Longrightarrow> k \<le> k' \<Longrightarrow> under hi k"
  by (cases hi) auto

lemma chain_keys:
  "chain lo ks ts hi \<Longrightarrow> sorted_keys ks \<and> (\<forall>k \<in> set ks. above lo k \<and> under hi k)"
proof (induction ks arbitrary: lo ts)
  case Nil
  then show ?case by simp
next
  case (Cons k ks)
  then obtain t ts' where ts: "ts = t # ts'" by (cases ts) auto
  with Cons have "sorted_keys ks" "\<forall>k' \<in> set ks. k < k' \<and> under hi k'" "above lo k" "under hi k"
    by fastforce+
  then show ?case using above_trans [of lo k] by auto
qed

text \<open>The contents of a tree are sorted and within its range.\<close>

lemma ordered_contents:
  "ordered lo hi t \<Longrightarrow> sorted_keys (map fst (contents t)) \<and> (\<forall>k \<in> fst ` set (contents t). in_range lo hi k)"
  "chain lo ks ts hi \<Longrightarrow> sorted_keys (map fst (concat (map contents ts))) \<and>
     (\<forall>k \<in> fst ` set (concat (map contents ts)). in_range lo hi k)"
proof (induction lo hi t and lo ks ts hi rule: ordered_chain.induct)
  case (4 lo k ks t ts hi)
  let ?l = "contents t" and ?r = "concat (map contents ts)"
  from 4 have l: "sorted_keys (map fst ?l)" "\<forall>a \<in> fst ` set ?l. at_least lo a \<and> a < k"
    and r: "sorted_keys (map fst ?r)" "\<forall>a \<in> fst ` set ?r. k \<le> a \<and> under hi a"
    and k: "above lo k" "under hi k"
    by (auto simp: in_range_def)
  have "\<forall>a \<in> fst ` set ?l. under hi a" using l(2) k(2) by (blast intro: under_trans less_imp_le)
  moreover have "\<forall>a \<in> fst ` set ?r. at_least lo a" using r(2) k(1) by (blast intro: above_at_least)
  moreover have "\<forall>a \<in> fst ` set ?l. \<forall>b \<in> fst ` set ?r. a < b"
    using l(2) r(2) by (meson order_less_le_trans)
  ultimately show ?case
    using l r by (auto simp: sorted_wrt_append in_range_def)
qed (auto simp: in_range_def)

text \<open>The bounds of the child at position \<open>p\<close>.\<close>

definition lower_of :: "key option \<Rightarrow> key list \<Rightarrow> nat \<Rightarrow> key option" where
  "lower_of lo ks p = (case p of 0 \<Rightarrow> lo | Suc q \<Rightarrow> Some (ks ! q))"

definition upper_of :: "key list \<Rightarrow> key option \<Rightarrow> nat \<Rightarrow> key option" where
  "upper_of ks hi p = (if p < length ks then Some (ks ! p) else hi)"

lemma lower_of_Cons: "lower_of lo (k # ks) (Suc p) = lower_of (Some k) ks p"
  by (cases p) (simp_all add: lower_of_def)

lemma upper_of_Cons: "upper_of (k # ks) hi (Suc p) = upper_of ks hi p"
  by (simp add: upper_of_def)

lemmas bound_simps = lower_of_Cons upper_of_Cons

lemma bound_0 [simp]: "lower_of lo ks 0 = lo" "upper_of (k # ks) hi 0 = Some k" "upper_of [] hi p = hi"
  by (simp_all add: lower_of_def upper_of_def)

lemma chain_Nil: "chain lo [] ts hi \<longleftrightarrow> (\<exists>t. ts = [t] \<and> ordered lo hi t)"
  by (cases "(lo, [] :: key list, ts, hi)" rule: chain.cases) auto

lemma chain_nth: "chain lo ks ts hi \<Longrightarrow> p \<le> length ks \<Longrightarrow> ordered (lower_of lo ks p) (upper_of ks hi p) (ts ! p)"
proof (induction ks arbitrary: lo ts p)
  case Nil
  then show ?case by (auto simp: chain_Nil)
next
  case (Cons k ks)
  then obtain t ts' where "ts = t # ts'" by (cases ts) auto
  with Cons show ?case by (cases p) (auto simp: bound_simps)
qed

lemma chain_replace:
  "chain lo ks ts hi \<Longrightarrow> p \<le> length ks \<Longrightarrow> ordered (lower_of lo ks p) (upper_of ks hi p) t' \<Longrightarrow>
    chain lo ks (ts[p := t']) hi"
proof (induction ks arbitrary: lo ts p)
  case Nil
  then show ?case by (auto simp: chain_Nil)
next
  case (Cons k ks)
  then obtain t ts' where "ts = t # ts'" by (cases ts) auto
  with Cons show ?case by (cases p) (auto simp: bound_simps)
qed

lemma chain_insert:
  "chain lo ks ts hi \<Longrightarrow> p \<le> length ks \<Longrightarrow>
    ordered (lower_of lo ks p) (Some s) a \<Longrightarrow> ordered (Some s) (upper_of ks hi p) b \<Longrightarrow>
    above (lower_of lo ks p) s \<Longrightarrow> under (upper_of ks hi p) s \<Longrightarrow>
    chain lo (take p ks @ s # drop p ks) (take p ts @ a # b # drop (Suc p) ts) hi"
proof (induction ks arbitrary: lo ts p)
  case Nil
  then show ?case by (auto simp: chain_Nil)
next
  case (Cons k ks)
  then obtain t ts' where ts: "ts = t # ts'" by (cases ts) auto
  show ?case
  proof (cases p)
    case 0
    with Cons.prems ts show ?thesis
      using under_trans [of hi k s] by auto
  next
    case (Suc q)
    with Cons.prems ts have "chain (Some k) (take q ks @ s # drop q ks)
        (take q ts' @ a # b # drop (Suc q) ts') hi"
      by (intro Cons.IH) (auto simp: bound_simps)
    with Cons.prems ts Suc show ?thesis by simp
  qed
qed

lemma chain_split:
  "chain lo ks ts hi \<Longrightarrow> m < length ks \<Longrightarrow>
    chain lo (take m ks) (take (Suc m) ts) (Some (ks ! m)) \<and>
    chain (Some (ks ! m)) (drop (Suc m) ks) (drop (Suc m) ts) hi \<and>
    above lo (ks ! m) \<and> under hi (ks ! m)"
proof (induction ks arbitrary: lo ts m)
  case Nil
  then show ?case by simp
next
  case (Cons k ks)
  then obtain t ts' where ts: "ts = t # ts'" by (cases ts) auto
  show ?case
  proof (cases m)
    case 0
    with Cons.prems ts show ?thesis by simp
  next
    case (Suc q)
    with Cons.prems ts have "chain (Some k) ks ts' hi" "q < length ks" by simp_all
    from Cons.IH [OF this] have IH: "chain (Some k) (take q ks) (take (Suc q) ts') (Some (ks ! q))"
      "chain (Some (ks ! q)) (drop (Suc q) ks) (drop (Suc q) ts') hi" "k < ks ! q" "under hi (ks ! q)"
      by simp_all
    with Cons.prems ts Suc show ?thesis
      using above_trans [of lo k "ks ! q"] by simp
  qed
qed

text \<open>The child chosen by the search covers the key, and the others do not hold it.\<close>

lemma upper_bound_range:
  fixes key :: key
  assumes "sorted_keys ks" "in_range lo hi key"
  defines "p \<equiv> upper_bound ks key"
  shows "in_range (lower_of lo ks p) (upper_of ks hi p) key"
proof -
  have "lower_of lo ks p = Some (ks ! q) \<and> ks ! q \<le> key" if "p = Suc q" for q
    using upper_bound_split(1) [OF assms(1), of q key] that by (simp add: lower_of_def p_def)
  moreover have "upper_of ks hi p = Some (ks ! p) \<and> key < ks ! p" if "p < length ks"
    using upper_bound_split(2) [OF assms(1), of key p] that by (simp add: upper_of_def p_def)
  moreover have "upper_of ks hi p = hi" if "\<not> p < length ks" using that by (simp add: upper_of_def)
  ultimately show ?thesis
    using assms(2) by (cases p; cases "p < length ks") (auto simp: in_range_def)
qed

lemma children_around:
  fixes key :: key
  assumes "chain lo ks ts hi"
  defines "p \<equiv> upper_bound ks key"
  shows "\<forall>a \<in> fst ` set (concat (map contents (take p ts))). a < key"
    and "\<forall>a \<in> fst ` set (concat (map contents (drop (Suc p) ts))). key < a"
    and "p < length ts"
proof -
  have sorted: "sorted_keys ks" using chain_keys [OF assms(1)] by simp
  have p: "p \<le> length ks" by (simp add: p_def)
  with chain_length [OF assms(1)] show "p < length ts" by simp
  show "\<forall>a \<in> fst ` set (concat (map contents (take p ts))). a < key"
  proof (cases p)
    case (Suc q)
    then have "ks ! q \<le> key" "q < length ks"
      using upper_bound_split(1) [OF sorted, of q key] p by (simp_all add: p_def)
    moreover have "\<forall>a \<in> fst ` set (concat (map contents (take p ts))). a < ks ! q"
      using ordered_contents(2) chain_split [OF assms(1) \<open>q < length ks\<close>] Suc
      by (fastforce simp: in_range_def)
    ultimately show ?thesis by (meson order_less_le_trans)
  qed simp
  show "\<forall>a \<in> fst ` set (concat (map contents (drop (Suc p) ts))). key < a"
  proof (cases "p < length ks")
    case True
    then have "key < ks ! p" using upper_bound_split(2) [OF sorted, of key p] by (simp add: p_def)
    moreover have "\<forall>a \<in> fst ` set (concat (map contents (drop (Suc p) ts))). ks ! p \<le> a"
      using ordered_contents(2) chain_split [OF assms(1) True]
      by (fastforce simp: in_range_def)
    ultimately show ?thesis by (meson order_less_le_trans)
  next
    case False
    with chain_length [OF assms(1)] show ?thesis by simp
  qed
qed

lemma concat_at:
  "p < length ts \<Longrightarrow> concat (map f ts) = concat (map f (take p ts)) @ f (ts ! p) @ concat (map f (drop (Suc p) ts))"
  by (subst id_take_nth_drop [of p ts]) simp_all

lemma contents_upsert_child:
  fixes key :: key
  assumes "chain lo ks ts hi"
  defines "p \<equiv> upper_bound ks key"
  shows "upsert key val (concat (map contents ts)) =
    concat (map contents (take p ts)) @ upsert key val (contents (ts ! p)) @
    concat (map contents (drop (Suc p) ts))"
proof -
  note around = children_around [OF assms(1), of key, folded p_def]
  show ?thesis
    unfolding concat_at [OF around(3)]
    by (simp add: upsert_append_right [OF around(1)] upsert_append_left [OF around(2)])
qed

lemma map_of_contents_child:
  assumes "chain lo ks ts hi"
  shows "map_of (concat (map contents ts)) key = map_of (contents (ts ! upper_bound ks key)) key"
proof -
  note around = children_around [OF assms, of key]
  show ?thesis
    unfolding concat_at [OF around(3)]
    by (rule map_of_append_middle) (use around(1,2) in fastforce)+
qed

section \<open>The root id does not matter\<close>

lemma retag_simps [simp]:
  "tid (retag j t) = j" "node_of (retag j t) = node_of t" "below (retag j t) = below t"
  "contents (retag j t) = contents t" "bal h (retag j t) = bal h t" "sized ps (retag j t) = sized ps t"
  "ordered lo hi (retag j t) = ordered lo hi t" "below_rep pg (retag j t) = below_rep pg t"
  "ids (retag j t) = j # below t"
  by (cases t; simp)+

end
