(* ===== verification/Txn.thy ===== *)
theory Txn
  imports Engine Ctree
begin

text \<open>
  What a write transaction does between its begin and its commit, as one relation: which page ids
  it has taken from the allocator, which pages it has buffered, which it has freed, and that it
  has left everything else alone.
\<close>

section \<open>Reading through a transaction\<close>

lemma guard_read_cong: "store_io st = store_io st' \<Longrightarrow> guard_read ops st = guard_read ops st'"
  by (simp add: fun_eq_iff guard_read_def)

lemma find_map_of: "find (\<lambda>w. fst w = i) ws = map_option (Pair i) (map_of ws i)"
  by (induction ws) auto

lemma txn_read_alt:
  "txn_read ops tx i =
     (case map_of (rev (writes tx)) i of
        Some bs \<Rightarrow> page_decode i bs
      | None \<Rightarrow> guard_read ops (txn_store tx) i)"
  by (simp add: txn_read_def guard_read_def find_map_of split: option.split)

lemma txn_read_begin [simp]: "txn_read ops (begin_write st) = guard_read ops st"
  by (simp add: fun_eq_iff txn_read_alt begin_write_def)

section \<open>The allocator\<close>

text \<open>The ids that \<open>next_page_id\<close> passes when it goes from \<open>a\<close> to \<open>b\<close>.\<close>

definition fresh :: "u64 \<Rightarrow> u64 \<Rightarrow> page_id list" where
  "fresh a b = map word_of_nat [unat a..<unat b]"

lemma fresh_refl [simp]: "fresh a a = []"
  by (simp add: fresh_def)

lemma fresh_trans:
  "unat a \<le> unat b \<Longrightarrow> unat b \<le> unat c \<Longrightarrow> fresh a c = fresh a b @ fresh b c"
  unfolding fresh_def map_append [symmetric]
  by (metis le_add_diff_inverse upt_add_eq_append)

lemma unat_u64_less: "unat (w :: u64) < 2 ^ 64"
  using unsigned_less [of w] by simp

lemma u64_succ_Some: "unat n < 2 ^ 64 - 1 \<Longrightarrow> u64_succ n = Some (n + 1) \<and> unat (n + 1) = Suc (unat n)"
  by (auto simp: u64_succ_def unat_word_ariths unsigned_minus_1_eq_mask mask_eq_exp_minus_1)

lemma fresh_succ: "unat b = Suc (unat a) \<Longrightarrow> fresh a b = [a]"
  by (simp add: fresh_def)

lemma set_fresh: "x \<in> set (fresh a b) \<Longrightarrow> unat a \<le> unat x \<and> unat x < unat b"
  using unat_u64_less [of b] by (auto simp: fresh_def unat_of_nat take_bit_nat_eq_self)

lemma distinct_fresh: "distinct (fresh a b)"
proof -
  have "inj_on (word_of_nat :: nat \<Rightarrow> u64) {unat a..<unat b}"
  proof (rule inj_onI)
    fix x y assume "x \<in> {unat a..<unat b}" "y \<in> {unat a..<unat b}" "(word_of_nat x :: u64) = word_of_nat y"
    moreover have "unat b < 2 ^ 64" by (rule unat_u64_less)
    ultimately show "x = y" by (simp add: word_unat_eq_iff unat_of_nat take_bit_nat_eq_self)
  qed
  then show ?thesis by (simp add: fresh_def distinct_map)
qed

text \<open>
  \<open>pool_ok xs g\<close>: the ids \<open>xs\<close> are in use, once each; none of them is free, and all ids in
  use or free are below \<open>next_page_id\<close> and not the header's.
\<close>

definition pool_ok :: "page_id list \<Rightarrow> writer_state \<Rightarrow> bool" where
  "pool_ok xs g \<longleftrightarrow> distinct (xs @ free_list g) \<and>
     (\<forall>x \<in> set (xs @ free_list g). x \<noteq> 0 \<and> unat x < unat (next_page_id g)) \<and> next_page_id g \<noteq> 0"

lemma pool_ok_perm: "pool_ok xs g \<Longrightarrow> mset ys = mset xs \<Longrightarrow> pool_ok ys g"
  unfolding pool_ok_def by (auto dest: mset_eq_setD mset_eq_imp_distinct_iff)

lemma pool_ok_sub: "pool_ok (xs @ ys) g \<Longrightarrow> pool_ok xs g" "pool_ok (xs @ ys) g \<Longrightarrow> pool_ok ys g"
  by (auto simp: pool_ok_def)

section \<open>Extension of a transaction\<close>

text \<open>
  \<open>txn_ext A F tx tx'\<close>: from \<open>tx\<close> to \<open>tx'\<close> the transaction has allocated the ids \<open>A\<close>, buffered writes
  of whole pages to ids in \<open>A\<close> only, and freed the ids \<open>F\<close>, in this order.
\<close>

definition txn_ext :: "'io page_io \<Rightarrow> page_id list \<Rightarrow> page_id list \<Rightarrow> 'io write_txn \<Rightarrow> 'io write_txn \<Rightarrow> bool" where
  "txn_ext ops A F tx tx' \<longleftrightarrow>
     store_io (txn_store tx') = store_io (txn_store tx) \<and> readers (txn_store tx') = readers (txn_store tx) \<and>
     root (txn_store tx') = root (txn_store tx) \<and> base_root tx' = base_root tx \<and>
     freed tx' = freed tx @ F \<and>
     (\<exists>ws. writes tx' = writes tx @ ws \<and>
        (\<forall>w \<in> set ws. fst w \<in> set A \<and> length (snd w) = txn_page_size ops tx)) \<and>
     pending_free (guard tx') = pending_free (guard tx) \<and>
     free_list_page_ids (guard tx') = free_list_page_ids (guard tx) \<and>
     unat (next_page_id (guard tx)) \<le> unat (next_page_id (guard tx')) \<and>
     unat (next_page_id (guard tx')) \<le> unat (next_page_id (guard tx)) + length A \<and>
     mset (free_list (guard tx')) + mset A =
       mset (free_list (guard tx)) + mset (fresh (next_page_id (guard tx)) (next_page_id (guard tx'))) \<and>
     (free_list (guard tx') = [] \<or> next_page_id (guard tx') = next_page_id (guard tx))"

text \<open>What an extension leaves alone.\<close>

lemma txn_ext_frame:
  assumes "txn_ext ops A F tx tx'"
  shows "store_io (txn_store tx') = store_io (txn_store tx)" "readers (txn_store tx') = readers (txn_store tx)"
    "root (txn_store tx') = root (txn_store tx)" "base_root tx' = base_root tx"
    "freed tx' = freed tx @ F" "txn_page_size ops tx' = txn_page_size ops tx"
    "pending_free (guard tx') = pending_free (guard tx)"
    "free_list_page_ids (guard tx') = free_list_page_ids (guard tx)"
    "unat (next_page_id (guard tx)) \<le> unat (next_page_id (guard tx'))"
    "unat (next_page_id (guard tx')) \<le> unat (next_page_id (guard tx)) + length A"
    "mset (free_list (guard tx')) + mset A =
       mset (free_list (guard tx)) + mset (fresh (next_page_id (guard tx)) (next_page_id (guard tx')))"
    "free_list (guard tx') = [] \<or> next_page_id (guard tx') = next_page_id (guard tx)"
  using assms by (simp_all add: txn_ext_def txn_page_size_def)

text \<open>The pages handed out come from the free list or from the end of the backend.\<close>

lemma txn_ext_count:
  assumes "txn_ext ops A F tx tx'"
  shows "length (free_list (guard tx')) + length A + unat (next_page_id (guard tx)) =
    length (free_list (guard tx)) + unat (next_page_id (guard tx'))"
proof -
  have "size (mset (free_list (guard tx')) + mset A) =
      size (mset (free_list (guard tx)) + mset (fresh (next_page_id (guard tx)) (next_page_id (guard tx'))))"
    by (simp only: txn_ext_frame(11) [OF assms])
  then show ?thesis using txn_ext_frame(9) [OF assms] by (simp add: fresh_def)
qed

lemma txn_ext_writes:
  assumes "txn_ext ops A F tx tx'"
  obtains ws where "writes tx' = writes tx @ ws"
    "\<forall>w \<in> set ws. fst w \<in> set A \<and> length (snd w) = txn_page_size ops tx"
  using assms unfolding txn_ext_def by blast

lemma txn_ext_refl: "txn_ext ops [] [] tx tx"
  by (simp add: txn_ext_def)

lemma txn_ext_trans:
  assumes "txn_ext ops A F tx tx1" "txn_ext ops B G tx1 tx2"
  shows "txn_ext ops (A @ B) (F @ G) tx tx2"
proof -
  note 1 = txn_ext_frame [OF assms(1)] and 2 = txn_ext_frame [OF assms(2)]
  obtain ws where ws: "writes tx1 = writes tx @ ws"
    "\<forall>w \<in> set ws. fst w \<in> set A \<and> length (snd w) = txn_page_size ops tx"
    using txn_ext_writes [OF assms(1)] .
  obtain vs where vs: "writes tx2 = writes tx1 @ vs"
    "\<forall>w \<in> set vs. fst w \<in> set B \<and> length (snd w) = txn_page_size ops tx1"
    using txn_ext_writes [OF assms(2)] .
  have "\<exists>us. writes tx2 = writes tx @ us \<and>
      (\<forall>w \<in> set us. fst w \<in> set (A @ B) \<and> length (snd w) = txn_page_size ops tx)"
    using ws vs 1(6) by (intro exI [of _ "ws @ vs"]) auto
  moreover have "mset (free_list (guard tx2)) + mset (A @ B) =
      mset (free_list (guard tx)) + mset (fresh (next_page_id (guard tx)) (next_page_id (guard tx2)))"
    unfolding fresh_trans [OF 1(9) 2(9)] mset_append using 1(11) 2(11)
    by (metis (no_types, lifting) union_assoc union_commute)
  moreover have "free_list (guard tx2) = [] \<or> next_page_id (guard tx2) = next_page_id (guard tx)"
  proof (cases "free_list (guard tx2) = []")
    case False
    then have "next_page_id (guard tx2) = next_page_id (guard tx1)" using 2(12) by blast
    moreover from this have "mset (free_list (guard tx2)) + mset B = mset (free_list (guard tx1))"
      using 2(11) by (simp add: fresh_def)
    then have "free_list (guard tx1) \<noteq> []" using False by auto
    ultimately show ?thesis using 1(12) by simp
  qed simp
  ultimately show ?thesis
    unfolding txn_ext_def using 1 2 by simp
qed

lemma txn_ext_read:
  assumes "txn_ext ops A F tx tx'" "i \<notin> set A"
  shows "txn_read ops tx' i = txn_read ops tx i"
proof -
  obtain ws where ws: "writes tx' = writes tx @ ws"
    "\<forall>w \<in> set ws. fst w \<in> set A \<and> length (snd w) = txn_page_size ops tx"
    using txn_ext_writes [OF assms(1)] .
  have "i \<notin> fst ` set ws" using ws(2) assms(2) by auto
  then have "map_of (rev ws) i = None" by (simp add: map_of_eq_None_iff)
  then have "map_of (rev (writes tx')) i = map_of (rev (writes tx)) i"
    by (simp add: ws(1) map_add_def)
  moreover have "guard_read ops (txn_store tx') = guard_read ops (txn_store tx)"
    by (rule guard_read_cong) (rule txn_ext_frame(1) [OF assms(1)])
  ultimately show ?thesis by (simp add: txn_read_alt split: option.split)
qed

lemma txn_ext_pool:
  assumes "txn_ext ops A F tx tx'" "pool_ok xs (guard tx)"
  shows "pool_ok (xs @ A) (guard tx')"
proof -
  have le: "unat (next_page_id (guard tx)) \<le> unat (next_page_id (guard tx'))"
    and ms: "mset (free_list (guard tx')) + mset A =
          mset (free_list (guard tx)) + mset (fresh (next_page_id (guard tx)) (next_page_id (guard tx')))"
    by (fact txn_ext_frame [OF assms(1)])+
  let ?f = "fresh (next_page_id (guard tx)) (next_page_id (guard tx'))"
  have "mset ((xs @ A) @ free_list (guard tx')) = mset ((xs @ free_list (guard tx)) @ ?f)"
    using ms by (simp add: ac_simps)
  then have eq: "distinct ((xs @ A) @ free_list (guard tx')) \<longleftrightarrow> distinct ((xs @ free_list (guard tx)) @ ?f)"
    "set ((xs @ A) @ free_list (guard tx')) = set ((xs @ free_list (guard tx)) @ ?f)"
    by (rule mset_eq_imp_distinct_iff, rule mset_eq_setD)
  have pos: "0 < unat (next_page_id (guard tx))"
    using assms(2) by (simp add: pool_ok_def unat_gt_0)
  have f: "x \<noteq> 0 \<and> unat (next_page_id (guard tx)) \<le> unat x \<and> unat x < unat (next_page_id (guard tx'))"
    if "x \<in> set ?f" for x
    using set_fresh [OF that] pos by auto
  have old: "x \<noteq> 0 \<and> unat x < unat (next_page_id (guard tx))" if "x \<in> set (xs @ free_list (guard tx))" for x
    using assms(2) that by (auto simp: pool_ok_def)
  have "distinct ((xs @ free_list (guard tx)) @ ?f)"
    unfolding distinct_append [of _ ?f]
    using assms(2) distinct_fresh f old by (fastforce simp: pool_ok_def)
  moreover have "next_page_id (guard tx') \<noteq> 0" using pos le by auto
  ultimately show ?thesis
    unfolding pool_ok_def eq using f old le by fastforce
qed

lemma txn_ext_disjoint:
  assumes "txn_ext ops A F tx tx'" "pool_ok xs (guard tx)" "i \<in> set xs"
  shows "i \<notin> set A"
  using txn_ext_pool [OF assms(1,2)] assms(3) by (auto simp: pool_ok_def)

section \<open>The steps of a transaction\<close>

lemma txn_free_ext: "txn_ext ops [] [i] tx (txn_free tx i)"
  by (simp add: txn_ext_def txn_free_def guard_def)

lemma set_guard_simps [simp]:
  "guard (set_guard tx g) = g" "store_io (txn_store (set_guard tx g)) = store_io (txn_store tx)"
  "readers (txn_store (set_guard tx g)) = readers (txn_store tx)"
  "root (txn_store (set_guard tx g)) = root (txn_store tx)"
  "base_root (set_guard tx g) = base_root tx" "freed (set_guard tx g) = freed tx"
  "writes (set_guard tx g) = writes tx"
  by (simp_all add: set_guard_def guard_def)

lemma txn_alloc_ext:
  assumes "unat (next_page_id (guard tx)) < 2 ^ 64 - 1"
  obtains i tx' where "txn_alloc tx = Some (i, tx')" "txn_ext ops [i] [] tx tx'"
proof (cases "free_list (guard tx) = []")
  case True
  let ?n = "next_page_id (guard tx)"
  let ?tx = "set_guard tx ((guard tx)\<lparr>next_page_id := ?n + 1\<rparr>)"
  have n: "u64_succ ?n = Some (?n + 1)" "unat (?n + 1) = Suc (unat ?n)" using u64_succ_Some [OF assms] by auto
  then have "txn_ext ops [?n] [] tx ?tx" using True by (simp add: txn_ext_def fresh_succ)
  moreover have "txn_alloc tx = Some (?n, ?tx)" using True n by (simp add: txn_alloc_def Let_def)
  ultimately show ?thesis using that by blast
next
  case False
  let ?fl = "free_list (guard tx)"
  let ?tx = "set_guard tx ((guard tx)\<lparr>free_list := butlast ?fl\<rparr>)"
  have "mset (butlast ?fl) + mset [last ?fl] = mset ?fl"
    using False by (metis append_butlast_last_id mset_append)
  then have "txn_ext ops [last ?fl] [] tx ?tx" by (simp add: txn_ext_def)
  moreover have "txn_alloc tx = Some (last ?fl, ?tx)" using False by (simp add: txn_alloc_def Let_def)
  ultimately show ?thesis using that by blast
qed

lemma txn_write_ok:
  assumes "txn_ext ops A F tx tx1" "i \<in> set A" "node_fits (txn_page_size ops tx) nd"
  obtains tx' where "txn_write ops tx1 i (mk_page j nd) = Some tx'" "txn_ext ops A F tx tx'"
    "txn_read ops tx' = (txn_read ops tx1)(i := Some (mk_page i nd))" "guard tx' = guard tx1"
proof -
  obtain bs where bs: "page_to_bytes (mk_page j nd) i (txn_page_size ops tx) = Some bs"
    "length bs = txn_page_size ops tx" "page_decode i bs = Some (mk_page i nd)"
    using page_to_bytes_decode [OF assms(3)] by blast
  let ?tx = "tx1\<lparr>writes := writes tx1 @ [(i, bs)]\<rparr>"
  note 1 = txn_ext_frame [OF assms(1)]
  have "txn_write ops tx1 i (mk_page j nd) = Some ?tx"
    using bs 1(6) by (simp add: txn_write_def)
  moreover obtain ws where ws: "writes tx1 = writes tx @ ws"
    "\<forall>w \<in> set ws. fst w \<in> set A \<and> length (snd w) = txn_page_size ops tx"
    using txn_ext_writes [OF assms(1)] .
  have "\<exists>us. writes ?tx = writes tx @ us \<and>
      (\<forall>w \<in> set us. fst w \<in> set A \<and> length (snd w) = txn_page_size ops tx)"
    using ws bs(2) assms(2) by (intro exI [of _ "ws @ [(i, bs)]"]) auto
  moreover have guard: "guard ?tx = guard tx1" by (simp add: guard_def)
  ultimately have "txn_ext ops A F tx ?tx"
    unfolding txn_ext_def using 1 by simp
  moreover have "txn_read ops ?tx = (txn_read ops tx1)(i := Some (mk_page i nd))"
    using bs(3) guard_read_cong [of "txn_store ?tx" "txn_store tx1" ops]
    by (auto simp: fun_eq_iff txn_read_alt split: option.split)
  ultimately show ?thesis using that guard \<open>txn_write ops tx1 i (mk_page j nd) = Some ?tx\<close> by blast
qed

text \<open>
  Placing a new node: allocate an id, write the node to it. The subtrees below the node and those
  elsewhere are in \<open>xs\<close>.
\<close>

lemma place_node:
  assumes "pool_ok xs (guard tx)" "set (below t) \<subseteq> set xs" "below_rep (txn_read ops tx) t"
    and "node_fits (txn_page_size ops tx) (node_of t)" "unat (next_page_id (guard tx)) < 2 ^ 64 - 1"
  obtains i tx1 tx2 where "txn_alloc tx = Some (i, tx1)"
    "txn_write ops tx1 i (mk_page 0 (node_of t)) = Some tx2" "txn_ext ops [i] [] tx tx2"
    "rep (txn_read ops tx2) (retag i t)" 
proof -
  obtain i tx1 where 1: "txn_alloc tx = Some (i, tx1)" "txn_ext ops [i] [] tx tx1"
    using txn_alloc_ext [OF assms(5)] .
  obtain tx2 where 2: "txn_write ops tx1 i (mk_page 0 (node_of t)) = Some tx2" "txn_ext ops [i] [] tx tx2"
    "txn_read ops tx2 = (txn_read ops tx1)(i := Some (mk_page i (node_of t)))"
    using txn_write_ok [OF 1(2) _ assms(4), of i 0] by auto
  have "below_rep (txn_read ops tx2) t"
  proof (rule below_rep_cong [OF assms(3)])
    fix j assume "j \<in> set (below t)"
    then have "j \<notin> set [i]" using txn_ext_disjoint [OF 2(2) assms(1)] assms(2) by blast
    then show "txn_read ops tx2 j = txn_read ops tx j" by (rule txn_ext_read [OF 2(2)])
  qed
  then have "rep (txn_read ops tx2) (retag i t)" by (simp add: rep_below 2(3))
  with 1(1) 2(1,2) show ?thesis using that by blast
qed

section \<open>Properties\<close>

text \<open>C25. Allocation never hands out a page in use: the new id is none of the ids \<open>xs\<close> in use and not the
  header, and afterwards it counts as in use; it fails only when the free list is empty and
  \<open>next_page_id\<close> cannot be increased.\<close>

theorem alloc_is_fresh:
  assumes "pool_ok xs (guard tx)"
  shows "case txn_alloc tx of
      Some (i, tx') \<Rightarrow> i \<notin> set xs \<and> i \<noteq> HEADER_PAGE_ID \<and> pool_ok (i # xs) (guard tx')
    | None \<Rightarrow> free_list (guard tx) = [] \<and> next_page_id (guard tx) = - 1"
proof (cases "free_list (guard tx) = []")
  case True
  show ?thesis
  proof (cases "next_page_id (guard tx) = - 1")
    case False
    then have "unat (next_page_id (guard tx)) < 2 ^ 64 - 1"
      using unat_u64_less [of "next_page_id (guard tx)"] by (auto simp: word_unat_eq_iff unsigned_minus_1_eq_mask mask_eq_exp_minus_1)
    then obtain i tx' where tx': "txn_alloc tx = Some (i, tx')" "txn_ext undefined [i] [] tx tx'"
      by (rule txn_alloc_ext)
    have "pool_ok (xs @ [i]) (guard tx')" using tx'(2) assms by (rule txn_ext_pool)
    then have "pool_ok (i # xs) (guard tx')" by (rule pool_ok_perm) simp
    then show ?thesis using tx'(1) by (auto simp: pool_ok_def HEADER_PAGE_ID_def)
  qed (use True in \<open>simp add: txn_alloc_def u64_succ_def Let_def\<close>)
next
  case False
  then obtain fs i where "free_list (guard tx) = fs @ [i]" by (metis append_butlast_last_id)
  then show ?thesis using assms by (auto simp: txn_alloc_def Let_def pool_ok_def HEADER_PAGE_ID_def)
qed

lemma alloc_is_fresh_witness:
  "case txn_alloc (begin_write \<lparr>store_io = memory_new 64, root = 1, readers = 0, write_lock =
      \<lparr>next_page_id = 4, free_list = [3], pending_free = [2], free_list_page_ids = []\<rparr>\<rparr>) of
     Some (i, tx') \<Rightarrow> i \<notin> {1, 2} \<and> pool_ok [i, 1, 2] (guard tx')
   | None \<Rightarrow> False"
proof -
  let ?tx = "begin_write \<lparr>store_io = memory_new 64, root = 1, readers = 0, write_lock =
      \<lparr>next_page_id = 4, free_list = [3], pending_free = [2], free_list_page_ids = []\<rparr>\<rparr>"
  have "pool_ok [1, 2] (guard ?tx)" "free_list (guard ?tx) = [3]"
    by (simp_all add: pool_ok_def guard_def begin_write_def)
  then show ?thesis using alloc_is_fresh [of "[1, 2]" ?tx] by (auto split: option.splits)
qed

end
