(* ===== verification/Insertion.thy ===== *)
theory Insertion
  imports Txn
begin

text \<open>
  Insertion into the copy-on-write tree, \<open>insert_leaf\<close> and \<open>insert_internal\<close> of
  \<open>src/01-btree/src/storage/tree.rs\<close>: both compute the sorted-list insertion on the contents of the
  subtree, and give one node or two nodes with a separator between them, which fit their pages.
\<close>

section \<open>What a result stands for\<close>

text \<open>A node without a page id yet, over subtrees that can be read with \<open>pg\<close>.\<close>

definition subtree_ok ::
    "nat \<Rightarrow> nat \<Rightarrow> (page_id \<Rightarrow> page option) \<Rightarrow> key option \<Rightarrow> key option \<Rightarrow> ctree \<Rightarrow> bool" where
  "subtree_ok ps h pg lo hi t \<longleftrightarrow> bal h t \<and> sized ps t \<and> ordered lo hi t \<and> below_rep pg t"

text \<open>
  \<open>grown ps h pg lo hi kvs M res\<close>: the result \<open>res\<close> of an insertion is a subtree of height \<open>h\<close>, or
  two with a separator between them, for the keys from \<open>lo\<close> to \<open>hi\<close>, with the contents \<open>kvs\<close>; the
  pages below its nodes are the multiset \<open>M\<close>.
\<close>

inductive grown ::
    "nat \<Rightarrow> nat \<Rightarrow> (page_id \<Rightarrow> page option) \<Rightarrow> key option \<Rightarrow> key option \<Rightarrow> (key \<times> val) list \<Rightarrow>
     page_id multiset \<Rightarrow> insert_result \<Rightarrow> bool" for ps h pg lo hi where
  grown_single: "subtree_ok ps h pg lo hi t \<Longrightarrow> contents t \<noteq> [] \<Longrightarrow>
     grown ps h pg lo hi (contents t) (mset (below t)) (Single (mk_page 0 (node_of t)))"
| grown_split: "subtree_ok ps h pg lo (Some s) a \<Longrightarrow> subtree_ok ps h pg (Some s) hi b \<Longrightarrow>
     above lo s \<Longrightarrow> under hi s \<Longrightarrow> length s \<le> max_kv_size ps \<Longrightarrow> contents a \<noteq> [] \<Longrightarrow> contents b \<noteq> [] \<Longrightarrow>
     grown ps h pg lo hi (contents a @ contents b) (mset (below a @ below b))
       (Split (mk_page 0 (node_of a)) s (mk_page 0 (node_of b)))"

lemma page_size_bounds:
  assumes "page_size_ok ps"
  shows "49 \<le> ps" "ps \<le> 43696" "2 * max_kv_size ps + 39 \<le> ps" "ps + 4 + max_kv_size ps < 65536"
  using assms max_kv_size_bound [of ps] by (simp_all add: page_size_ok_def)

section \<open>Leaves\<close>

lemma length_enc_upsert:
  "length (enc_entries (upsert k v kvs)) \<le> length (enc_entries kvs) + 4 + length k + length v"
  by (induction kvs) (auto simp: length_enc_entry)

lemma upsert_not_Nil: "upsert k v kvs \<noteq> []"
  by (cases kvs) auto

lemma set_upsert: "set (upsert k v kvs) \<subseteq> insert (k, v) (set kvs)"
  by (induction kvs) auto

lemma sorted_take_drop_nth:
  assumes "sorted_keys (map fst kvs)" "m < length kvs"
  shows "\<forall>k \<in> fst ` set (take m kvs). k < fst (kvs ! m)" "\<forall>k \<in> fst ` set (drop m kvs). fst (kvs ! m) \<le> k"
proof -
  have lt: "fst (kvs ! i) < fst (kvs ! j)" if "i < j" "j < length kvs" for i j
    using assms(1) that by (simp add: sorted_wrt_iff_nth_less)
  show "\<forall>k \<in> fst ` set (take m kvs). k < fst (kvs ! m)"
    using lt assms(2) by (fastforce simp: in_set_conv_nth)
  show "\<forall>k \<in> fst ` set (drop m kvs). fst (kvs ! m) \<le> k"
  proof
    fix k assume "k \<in> fst ` set (drop m kvs)"
    then obtain j where "m + j < length kvs" "k = fst (kvs ! (m + j))"
      by (fastforce simp: in_set_conv_nth less_diff_conv add.commute)
    then show "fst (kvs ! m) \<le> k" using lt [of m "m + j"] by (cases j) auto
  qed
qed

lemma insert_leaf_built:
  assumes "leaf_small kvs" "sorted_keys (map fst kvs)" "leaf_small (upsert key val kvs)"
  shows "Option.bind (leaf_search (mk_leaf i kvs) key)
           (case_sum (\<lambda>idx. leaf_insert (mk_leaf i kvs) idx key val)
                     (\<lambda>idx. leaf_update (mk_leaf i kvs) idx key val)) =
         Some (mk_leaf 0 (upsert key val kvs))"
proof -
  let ?p = "lower_bound (map fst kvs) key"
  have p: "?p \<le> length kvs" using lower_bound_le [of "map fst kvs" key] by simp
  have sorted: "sorted_keys (map fst (upsert key val kvs))" using assms(2) by (rule sorted_upsert)
  note at = upsert_at [OF assms(2), of key val]
  show ?thesis
  proof (cases "?p < length kvs \<and> fst (kvs ! ?p) = key")
    case True
    then have eq: "upsert key val kvs = take ?p kvs @ (key, val) # drop (Suc ?p) kvs"
      using at by (simp add: Let_def)
    with True assms sorted show ?thesis
      by (simp add: leaf_search_mk search_result_def leaf_update_mk)
  next
    case False
    then have eq: "upsert key val kvs = take ?p kvs @ (key, val) # drop ?p kvs"
      using at by (auto simp: Let_def)
    from False have res: "search_result (map fst kvs) key = Inl (as_u16 ?p)"
      by (auto simp: search_result_def Let_def)
    show ?thesis
      using leaf_insert_mk [OF assms(1,2) p, of key val i] assms sorted
      by (simp add: leaf_search_mk res eq)
  qed
qed

lemma insert_leaf_unfold:
  assumes "leaf_small kvs" "sorted_keys (map fst kvs)" "leaf_small (upsert key val kvs)"
  shows "insert_leaf (mk_leaf i kvs) key val ps =
    (if leaf_nbytes (mk_leaf 0 (upsert key val kvs)) \<le> ps then Some (Single (Leaf (mk_leaf 0 (upsert key val kvs))))
     else do { (left, right) \<leftarrow> leaf_split_by_size (mk_leaf 0 (upsert key val kvs)) ps;
               sep_key \<leftarrow> leaf_get_key right 0;
               Some (Split (Leaf left) sep_key (Leaf right)) })"
  using insert_leaf_built [OF assms, of i]
  by (simp add: insert_leaf_def bind_assoc [symmetric] case_sum_def cong: option.case_cong sum.case_cong)

text \<open>The two halves of a leaf that is split, on either side of the first key of the right one.\<close>

lemma grown_leaf_halves:
  assumes small: "leaf_small kvs" and sorted: "sorted_keys (map fst kvs)"
    and entries: "\<forall>p \<in> set kvs. entry_ok ps p" and range: "\<forall>k \<in> fst ` set kvs. in_range lo hi k"
    and m: "1 \<le> m" "m < length kvs"
    and fit: "11 + length (enc_entries (take m kvs)) \<le> ps" "11 + length (enc_entries (drop m kvs)) \<le> ps"
    and big: "\<not> 11 + length (enc_entries kvs) \<le> ps"
  shows "grown ps 0 pg lo hi kvs {#} (Split (Leaf (mk_leaf 0 (take m kvs))) (fst (kvs ! m)) (Leaf (mk_leaf 0 (drop m kvs))))"
proof -
  let ?s = "fst (kvs ! m)"
  have mem: "kvs ! m \<in> set kvs" "kvs ! 0 \<in> set kvs" using m by (auto intro!: nth_mem)
  have lt: "\<forall>k \<in> fst ` set (take m kvs). k < ?s" "\<forall>k \<in> fst ` set (drop m kvs). ?s \<le> k"
    using sorted_take_drop_nth [OF sorted] m(2) by auto
  have "fst (kvs ! 0) < ?s" using sorted m by (simp add: sorted_wrt_iff_nth_less)
  moreover have "at_least lo (fst (kvs ! 0))" using range mem(2) by (auto simp: in_range_def)
  ultimately have above: "above lo ?s" by (rule at_least_above [rotated])
  have under: "under hi ?s" using range mem(1) by (auto simp: in_range_def)
  have left: "subtree_ok ps 0 pg lo (Some ?s) (CLeaf 0 (take m kvs))"
    using small fit entries range lt sorted
    by (auto simp: subtree_ok_def sorted_map_take in_range_def dest: in_set_takeD)
  have right: "subtree_ok ps 0 pg (Some ?s) hi (CLeaf 0 (drop m kvs))"
    using small fit entries range lt sorted
    by (auto simp: subtree_ok_def sorted_map_drop in_range_def dest: in_set_dropD)
  have "length ?s \<le> max_kv_size ps" using entries mem(1) by (auto simp: entry_ok_def)
  moreover have "take m kvs \<noteq> []" "drop m kvs \<noteq> []" using m by auto
  ultimately show ?thesis using grown_split [OF left right above under] big by simp
qed

lemma insert_leaf_ok:
  assumes ps: "page_size_ok ps" and t: "subtree_ok ps 0 pg lo hi (CLeaf i kvs)"
    and key: "in_range lo hi key" and kv: "length key + length val \<le> max_kv_size ps"
  obtains res where "insert_leaf (mk_leaf i kvs) key val ps = Some res"
    "grown ps 0 pg lo hi (upsert key val kvs) {#} res"
proof -
  let ?kvs = "upsert key val kvs" and ?B = "4 + max_kv_size ps"
  note b = page_size_bounds [OF ps]
  from t have small: "leaf_small kvs" and fits: "11 + length (enc_entries kvs) \<le> ps"
    and entries: "\<forall>p \<in> set kvs. entry_ok ps p" and sorted: "sorted_keys (map fst kvs)"
    and range: "\<forall>k \<in> fst ` set kvs. in_range lo hi k"
    by (auto simp: subtree_ok_def)
  have len: "11 + length (enc_entries ?kvs) \<le> ps + ?B"
    using length_enc_upsert [of key val kvs] fits kv by simp
  then have splittable: "leaf_splittable ?kvs" using b by (simp add: leaf_splittable_def)
  then have small': "leaf_small ?kvs" by (rule leaf_splittable_small)
  have sorted': "sorted_keys (map fst ?kvs)" using sorted by (rule sorted_upsert)
  have range': "\<forall>k \<in> fst ` set ?kvs. in_range lo hi k"
    using range key by (simp add: fst_set_upsert)
  have entries': "\<forall>p \<in> set ?kvs. entry_ok ps p"
    using entries set_upsert [of key val kvs] kv by (auto simp: entry_ok_def)
  note built = insert_leaf_unfold [OF small sorted small', of i ps]
  show ?thesis
  proof (cases "11 + length (enc_entries ?kvs) \<le> ps")
    case True
    have "subtree_ok ps 0 pg lo hi (CLeaf 0 ?kvs)"
      using small' True entries' sorted' range' by (simp add: subtree_ok_def)
    from grown_single [OF this] True built show ?thesis
      by (intro that) (simp_all add: leaf_nbytes_mk upsert_not_Nil)
  next
    case False
    have "\<forall>p \<in> set ?kvs. length (enc_entry p) \<le> ?B"
      using entries' by (auto simp: entry_ok_def length_enc_entry)
    then obtain m where m: "1 \<le> m" "m < length ?kvs"
      and split: "leaf_split_by_size (mk_leaf 0 ?kvs) ps = Some (mk_leaf 0 (take m ?kvs), mk_leaf 0 (drop m ?kvs))"
      and fit: "11 + length (enc_entries (take m ?kvs)) \<le> ps" "11 + length (enc_entries (drop m ?kvs)) \<le> ps"
      using leaf_split_mk [OF splittable sorted', of ps ?B 0] b False len by auto
    have "leaf_get_key (mk_leaf 0 (drop m ?kvs)) 0 = Some (fst (?kvs ! m))"
      using leaf_get_key_mk [of "drop m ?kvs" 0 0] small' m by simp
    moreover have "grown ps 0 pg lo hi ?kvs {#} (Split (Leaf (mk_leaf 0 (take m ?kvs))) (fst (?kvs ! m)) (Leaf (mk_leaf 0 (drop m ?kvs))))"
      by (rule grown_leaf_halves [OF small' sorted' entries' range' m fit]) (use False in simp)
    ultimately show ?thesis
      using built split False by (intro that) (simp_all add: leaf_nbytes_mk)
  qed
qed

section \<open>Internal nodes\<close>

definition child_ok :: "nat \<Rightarrow> nat \<Rightarrow> (page_id \<Rightarrow> page option) \<Rightarrow> ctree \<Rightarrow> bool" where
  "child_ok ps h pg t \<longleftrightarrow> bal h t \<and> sized ps t \<and> contents t \<noteq> [] \<and> rep pg t"

lemma children_contents: "ts \<noteq> [] \<Longrightarrow> \<forall>t \<in> set ts. child_ok ps h pg t \<Longrightarrow> concat (map contents ts) \<noteq> []"
  by (cases ts) (auto simp: child_ok_def)

lemma child_ok_cong:
  "child_ok ps h pg t \<Longrightarrow> (\<And>i. i \<in> set (ids t) \<Longrightarrow> pg' i = pg i) \<Longrightarrow> child_ok ps h pg' t"
  by (auto simp: child_ok_def intro: rep_cong)

lemma child_ok_retag:
  "subtree_ok ps h pg lo hi t \<Longrightarrow> rep pg' (retag i t) \<Longrightarrow> contents t \<noteq> [] \<Longrightarrow> child_ok ps h pg' (retag i t)"
  by (simp add: child_ok_def subtree_ok_def)

lemma subtree_node:
  "subtree_ok ps (Suc h) pg lo hi (CNode i ks ts) \<longleftrightarrow>
     chain lo ks ts hi \<and> keys_small ks \<and> 19 + length (enc_keys ks) + 8 * length ks \<le> ps \<and> ks \<noteq> [] \<and>
     (\<forall>k \<in> set ks. length k \<le> max_kv_size ps) \<and> (\<forall>t \<in> set ts. child_ok ps h pg t)"
  by (auto simp: subtree_ok_def child_ok_def dest: chain_length)

text \<open>What \<open>insert_internal\<close> does with the result for a child.\<close>

definition absorb_child ::
    "'io page_io \<Rightarrow> 'io write_txn \<Rightarrow> internal_node \<Rightarrow> u16 \<Rightarrow> nat \<Rightarrow> insert_result \<Rightarrow>
     ('io write_txn \<times> insert_result) option" where
  "absorb_child ops tx1 node idx ps res =
     (case res of
        Single new_child \<Rightarrow>
          do { a \<leftarrow> txn_alloc tx1;
               tx2 \<leftarrow> txn_write ops (snd a) (fst a) new_child;
               n \<leftarrow> internal_replace_child node idx (fst a);
               Some (tx2, Single (Internal n)) }
      | Split left sep_key right \<Rightarrow>
          do { a \<leftarrow> txn_alloc tx1;
               tx2 \<leftarrow> txn_write ops (snd a) (fst a) left;
               b \<leftarrow> txn_alloc tx2;
               tx3 \<leftarrow> txn_write ops (snd b) (fst b) right;
               grown \<leftarrow> internal_insert_split_child node idx sep_key (fst a) (fst b);
               if internal_nbytes grown \<le> ps then Some (tx3, Single (Internal grown))
               else do { s \<leftarrow> internal_split_with_promotion grown ps;
                         Some (tx3, Split (Internal (fst s)) (fst (snd s)) (Internal (snd (snd s)))) } })"

definition insert_node ::
    "'io page_io \<Rightarrow> 'io write_txn \<Rightarrow> page \<Rightarrow> bytes \<Rightarrow> bytes \<Rightarrow> nat \<Rightarrow>
     ('io write_txn \<times> insert_result) option" where
  "insert_node ops tx pg key val ps =
     (case pg of
        Leaf l \<Rightarrow> do { res \<leftarrow> insert_leaf l key val ps; Some (tx, res) }
      | Internal i \<Rightarrow> insert_internal ops tx i key val ps)"

lemma insert_internal_unfold:
  "insert_internal ops tx node key val ps =
     do { idx \<leftarrow> internal_child_index node key;
          child_id \<leftarrow> internal_get_child node idx;
          pg \<leftarrow> txn_read ops tx child_id;
          r \<leftarrow> insert_node ops tx pg key val ps;
          absorb_child ops (txn_free (fst r) child_id) node idx ps (snd r) }"
  by (subst insert_internal.simps) (simp add: insert_node_def absorb_child_def Let_def)

text \<open>The new node over the children, split in two when it has outgrown its page.\<close>

lemma grown_node:
  assumes ps: "page_size_ok ps" and chain: "chain lo ks ts hi" and "ks \<noteq> []"
    and keys: "\<forall>k \<in> set ks. length k \<le> max_kv_size ps" and ts: "\<forall>t \<in> set ts. child_ok ps h pg t"
    and size: "19 + length (enc_keys ks) + 8 * length ks \<le> ps + 10 + max_kv_size ps"
  shows "\<exists>res. (if internal_nbytes (mk_internal 0 ks (map tid ts)) \<le> ps
        then Some (tx, Single (Internal (mk_internal 0 ks (map tid ts))))
        else do { s \<leftarrow> internal_split_with_promotion (mk_internal 0 ks (map tid ts)) ps;
                  Some (tx, Split (Internal (fst s)) (fst (snd s)) (Internal (snd (snd s)))) }) = Some (tx, res) \<and>
      grown ps (Suc h) pg lo hi (concat (map contents ts)) (mset (concat (map ids ts))) res"
proof -
  note b = page_size_bounds [OF ps]
  have len: "length ts = Suc (length ks)" using chain by (rule chain_length)
  have sorted: "sorted_keys ks" using chain_keys [OF chain] by simp
  have splittable: "internal_splittable ks" using size b by (simp add: internal_splittable_def)
  then have small: "keys_small ks" by (rule internal_splittable_small)
  show ?thesis
  proof (cases "19 + length (enc_keys ks) + 8 * length ks \<le> ps")
    case True
    then have "subtree_ok ps (Suc h) pg lo hi (CNode 0 ks ts)"
      using assms small by (simp add: subtree_node)
    moreover have "concat (map contents ts) \<noteq> []" using len by (intro children_contents [OF _ ts]) auto
    ultimately show ?thesis using grown_single [of ps "Suc h" pg lo hi "CNode 0 ks ts"] True len
      by (simp add: internal_nbytes_mk)
  next
    case False
    have "\<forall>k \<in> set ks. 10 + length k \<le> 10 + max_kv_size ps" using keys by simp
    then obtain m where m: "1 \<le> m" "m + 2 \<le> length ks"
      and split: "internal_split_with_promotion (mk_internal 0 ks (map tid ts)) ps =
         Some (mk_internal 0 (take m ks) (take (Suc m) (map tid ts)), ks ! m,
               mk_internal 0 (drop (Suc m) ks) (drop (Suc m) (map tid ts)))"
      and fit: "19 + length (enc_keys (take m ks)) + 8 * m \<le> ps"
        "19 + length (enc_keys (drop (Suc m) ks)) + 8 * (length ks - Suc m) \<le> ps"
      using internal_split_mk [OF splittable sorted, of "map tid ts" ps "10 + max_kv_size ps" 0] b False size len
      by auto
    from m have m': "m < length ks" by simp
    note cs = chain_split [OF chain m']
    have left: "subtree_ok ps (Suc h) pg lo (Some (ks ! m)) (CNode 0 (take m ks) (take (Suc m) ts))"
      unfolding subtree_node using cs small keys ts fit m by (auto dest: in_set_takeD)
    have right: "subtree_ok ps (Suc h) pg (Some (ks ! m)) hi (CNode 0 (drop (Suc m) ks) (drop (Suc m) ts))"
      unfolding subtree_node using cs small keys ts fit m by (auto dest: in_set_dropD)
    have "concat (map contents (take (Suc m) ts)) \<noteq> []" "concat (map contents (drop (Suc m) ts)) \<noteq> []"
      by (rule children_contents, use len m in force, use ts in \<open>blast dest: in_set_takeD in_set_dropD\<close>)+
    moreover have whole: "concat (map f (take (Suc m) ts)) @ concat (map f (drop (Suc m) ts)) = concat (map f ts)"
      for f :: "ctree \<Rightarrow> 'x list"
      by (simp only: concat_append [symmetric] map_append [symmetric] append_take_drop_id)
    ultimately have "grown ps (Suc h) pg lo hi (concat (map contents ts)) (mset (concat (map ids ts)))
        (Split (Internal (mk_internal 0 (take m ks) (take (Suc m) (map tid ts)))) (ks ! m)
               (Internal (mk_internal 0 (drop (Suc m) ks) (drop (Suc m) (map tid ts)))))"
      using grown_split [OF left right] cs keys m' by (simp add: whole take_map drop_map del: mset_append)
    with split False len show ?thesis by (simp add: internal_nbytes_mk)
  qed
qed

text \<open>The children of a node other than the one at position \<open>p\<close>.\<close>

definition others :: "nat \<Rightarrow> ctree list \<Rightarrow> ctree list" where
  "others p ts = take p ts @ drop (Suc p) ts"

lemma mset_ids_insert:
  "mset (concat (map ids (take p ts @ us @ drop (Suc p) ts))) =
     mset (concat (map ids (others p ts))) + mset (concat (map ids us))"
  by (simp add: others_def)

lemma set_others: "set (others p ts) \<subseteq> set ts"
  by (auto simp: others_def dest: in_set_takeD in_set_dropD)

lemma list_update_others: "p < length ts \<Longrightarrow> ts[p := t] = take p ts @ [t] @ drop (Suc p) ts"
  by (simp add: upd_conv_take_nth_drop)

lemma length_enc_insert:
  "length (enc_keys (take p ks @ s # drop p ks)) = length (enc_keys ks) + 2 + length s"
proof -
  have "length (enc_keys ks) = length (enc_keys (take p ks @ drop p ks))"
    by (simp only: append_take_drop_id)
  also have "\<dots> = length (enc_keys (take p ks)) + length (enc_keys (drop p ks))"
    by (simp only: enc_all_simps length_append)
  finally show ?thesis by (simp add: length_enc_key)
qed

text \<open>
  The transaction and the parent when a child's insertion returns. \<open>xs\<close> holds the pages in use.
\<close>

lemma absorb_single:
  assumes t: "subtree_ok ps (Suc h) pg0 lo hi (CNode i ks ts)" and ps: "page_size_ok ps"
    and p: "p \<le> length ks" and tx: "txn_page_size ops tx = ps" "pool_ok xs (guard tx)"
    and room: "unat (next_page_id (guard tx)) < 2 ^ 64 - 1"
    and rest: "\<forall>t \<in> set (others p ts). child_ok ps h (txn_read ops tx) t"
      "set (concat (map ids (others p ts))) \<subseteq> set xs"
    and new: "subtree_ok ps h (txn_read ops tx) (lower_of lo ks p) (upper_of ks hi p) u"
      "set (below u) \<subseteq> set xs" "contents u \<noteq> []"
  shows "\<exists>tx' res A. absorb_child ops tx (mk_internal i ks (map tid ts)) (as_u16 p) ps
      (Single (mk_page 0 (node_of u))) = Some (tx', res) \<and> txn_ext ops A [] tx tx' \<and> A \<noteq> [] \<and> length A \<le> 2 \<and>
    grown ps (Suc h) (txn_read ops tx') lo hi
      (concat (map contents (take p ts)) @ contents u @ concat (map contents (drop (Suc p) ts)))
      (mset (concat (map ids (others p ts))) + mset (below u) + mset A) res"
proof -
  from t have chain: "chain lo ks ts hi" and small: "keys_small ks" and fits: "19 + length (enc_keys ks) + 8 * length ks \<le> ps"
    and keys: "\<forall>k \<in> set ks. length k \<le> max_kv_size ps" "ks \<noteq> []"
    by (simp_all add: subtree_node)
  have len: "length ts = Suc (length ks)" using chain by (rule chain_length)
  have fit: "node_fits (txn_page_size ops tx) (node_of u)"
    using new(1) tx(1) by (cases u) (auto simp: subtree_ok_def)
  obtain a tx1 tx2 where a: "txn_alloc tx = Some (a, tx1)"
    "txn_write ops tx1 a (mk_page 0 (node_of u)) = Some tx2" "txn_ext ops [a] [] tx tx2"
    "rep (txn_read ops tx2) (retag a u)"
    using place_node [OF tx(2) new(2) _ fit room] new(1) unfolding subtree_ok_def by blast
  let ?ts = "take p ts @ [retag a u] @ drop (Suc p) ts"
  have p': "p < length ts" using p len by simp
  have old: "child_ok ps h (txn_read ops tx2) t" if "t \<in> set (others p ts)" for t
  proof (rule child_ok_cong)
    show "child_ok ps h (txn_read ops tx) t" using rest(1) that by blast
    fix j assume "j \<in> set (ids t)"
    then have "j \<in> set xs" using rest(2) that by auto
    then show "txn_read ops tx2 j = txn_read ops tx j"
      using txn_ext_disjoint [OF a(3) tx(2)] txn_ext_read [OF a(3)] by blast
  qed
  have "chain lo ks (ts[p := retag a u]) hi"
    using new(1) by (intro chain_replace [OF chain p]) (simp add: subtree_ok_def)
  then have ts: "subtree_ok ps (Suc h) (txn_read ops tx2) lo hi (CNode 0 ks ?ts)"
    using small fits keys old child_ok_retag [OF new(1) a(4) new(3)]
    by (auto simp: subtree_node list_update_others [OF p', symmetric] others_def)
       (auto simp: list_update_others [OF p'])
  have "internal_replace_child (mk_internal i ks (map tid ts)) (as_u16 p) a = Some (mk_internal 0 ks (map tid ?ts))"
    using internal_replace_child_mk [OF small, of "map tid ts" p i a] chain_keys [OF chain] len p
    by (simp add: upd_conv_take_nth_drop take_map drop_map)
  then have "absorb_child ops tx (mk_internal i ks (map tid ts)) (as_u16 p) ps
      (Single (mk_page 0 (node_of u))) = Some (tx2, Single (mk_page 0 (node_of (CNode 0 ks ?ts))))"
    using a by (simp add: absorb_child_def)
  moreover have "grown ps (Suc h) (txn_read ops tx2) lo hi
      (concat (map contents (take p ts)) @ contents u @ concat (map contents (drop (Suc p) ts)))
      (mset (concat (map ids (others p ts))) + mset (below u) + mset [a])
      (Single (mk_page 0 (node_of (CNode 0 ks ?ts))))"
    using grown_single [OF ts] new(3) by (simp add: others_def ac_simps del: node_of.simps)
  ultimately show ?thesis
    using a(3) by (intro exI [of _ tx2] exI [of _ "[a]"] exI) auto
qed

text \<open>The two halves of a split are placed one after the other.\<close>

lemma place_two:
  assumes tx: "txn_page_size ops tx = ps" "pool_ok xs (guard tx)"
    and room: "unat (next_page_id (guard tx)) < 2 ^ 64 - 2"
    and u: "subtree_ok ps h (txn_read ops tx) lo mid u" "set (below u) \<subseteq> set xs"
    and v: "subtree_ok ps h (txn_read ops tx) mid' hi v" "set (below v) \<subseteq> set xs"
    and filled: "contents u \<noteq> []" "contents v \<noteq> []"
  obtains a tx1 tx2 b tx3 tx4 where "txn_alloc tx = Some (a, tx1)"
    "txn_write ops tx1 a (mk_page 0 (node_of u)) = Some tx2" "txn_alloc tx2 = Some (b, tx3)"
    "txn_write ops tx3 b (mk_page 0 (node_of v)) = Some tx4" "txn_ext ops [a, b] [] tx tx4"
    "child_ok ps h (txn_read ops tx4) (retag a u)" "child_ok ps h (txn_read ops tx4) (retag b v)"
    "\<And>j. j \<in> set xs \<Longrightarrow> txn_read ops tx4 j = txn_read ops tx j"
proof -
  have fit: "node_fits (txn_page_size ops tx) (node_of u)" "node_fits (txn_page_size ops tx) (node_of v)"
    using u(1) v(1) tx(1) by (cases u; cases v; auto simp: subtree_ok_def)+
  have room1: "unat (next_page_id (guard tx)) < 2 ^ 64 - 1" using room by simp
  obtain a tx1 tx2 where a: "txn_alloc tx = Some (a, tx1)"
    "txn_write ops tx1 a (mk_page 0 (node_of u)) = Some tx2" "txn_ext ops [a] [] tx tx2"
    "rep (txn_read ops tx2) (retag a u)"
    using place_node [OF tx(2) u(2) _ fit(1) room1] u(1) unfolding subtree_ok_def by blast
  have ps2: "txn_page_size ops tx2 = txn_page_size ops tx" by (rule txn_ext_frame(6) [OF a(3)])
  have room2: "unat (next_page_id (guard tx2)) < 2 ^ 64 - 1"
    using txn_ext_frame(10) [OF a(3)] room by simp
  have pool2: "pool_ok (xs @ [a]) (guard tx2)" by (rule txn_ext_pool [OF a(3) tx(2)])
  have same2: "txn_read ops tx2 j = txn_read ops tx j" if "j \<in> set xs" for j
    using txn_ext_disjoint [OF a(3) tx(2) that] by (rule txn_ext_read [OF a(3)])
  have "below_rep (txn_read ops tx2) v"
    using v(1) unfolding subtree_ok_def
    by (elim conjE below_rep_cong) (rule same2, rule subsetD [OF v(2)])
  moreover have "set (below v) \<subseteq> set (xs @ [a])" using v(2) by auto
  ultimately obtain b tx3 tx4 where b: "txn_alloc tx2 = Some (b, tx3)"
    "txn_write ops tx3 b (mk_page 0 (node_of v)) = Some tx4" "txn_ext ops [b] [] tx2 tx4"
    "rep (txn_read ops tx4) (retag b v)"
    using place_node [OF pool2 _ _ fit(2) [folded ps2] room2] by metis
  have ext: "txn_ext ops [a, b] [] tx tx4" using txn_ext_trans [OF a(3) b(3)] by simp
  have same4: "txn_read ops tx4 j = txn_read ops tx2 j" if "j \<in> set (xs @ [a])" for j
    using txn_ext_disjoint [OF b(3) pool2 that] by (rule txn_ext_read [OF b(3)])
  have "rep (txn_read ops tx4) (retag a u)"
    using a(4)
  proof (rule rep_cong)
    fix j assume "j \<in> set (ids (retag a u))"
    then show "txn_read ops tx4 j = txn_read ops tx2 j" using u(2) by (intro same4) auto
  qed
  then have ca: "child_ok ps h (txn_read ops tx4) (retag a u)" using filled(1) by (rule child_ok_retag [OF u(1)])
  have cb: "child_ok ps h (txn_read ops tx4) (retag b v)" by (rule child_ok_retag [OF v(1) b(4) filled(2)])
  have "txn_read ops tx4 j = txn_read ops tx j" if "j \<in> set xs" for j
    using same2 same4 that by simp
  then show ?thesis using that a(1,2) b(1,2) ext ca cb by blast
qed

lemma absorb_split:
  assumes t: "subtree_ok ps (Suc h) pg0 lo hi (CNode i ks ts)" and ps: "page_size_ok ps"
    and p: "p \<le> length ks" and tx: "txn_page_size ops tx = ps" "pool_ok xs (guard tx)"
    and room: "unat (next_page_id (guard tx)) < 2 ^ 64 - 2"
    and rest: "\<forall>t \<in> set (others p ts). child_ok ps h (txn_read ops tx) t"
      "set (concat (map ids (others p ts))) \<subseteq> set xs"
    and u: "subtree_ok ps h (txn_read ops tx) (lower_of lo ks p) (Some s) u" "set (below u) \<subseteq> set xs"
    and v: "subtree_ok ps h (txn_read ops tx) (Some s) (upper_of ks hi p) v" "set (below v) \<subseteq> set xs"
    and s: "above (lower_of lo ks p) s" "under (upper_of ks hi p) s" "length s \<le> max_kv_size ps"
    and filled: "contents u \<noteq> []" "contents v \<noteq> []"
  shows "\<exists>tx' res A. absorb_child ops tx (mk_internal i ks (map tid ts)) (as_u16 p) ps
      (Split (mk_page 0 (node_of u)) s (mk_page 0 (node_of v))) = Some (tx', res) \<and>
    txn_ext ops A [] tx tx' \<and> A \<noteq> [] \<and> length A \<le> 2 \<and>
    grown ps (Suc h) (txn_read ops tx') lo hi
      (concat (map contents (take p ts)) @ (contents u @ contents v) @ concat (map contents (drop (Suc p) ts)))
      (mset (concat (map ids (others p ts))) + mset (below u @ below v) + mset A) res"
proof -
  from t have chain: "chain lo ks ts hi" and small: "keys_small ks" and fits: "19 + length (enc_keys ks) + 8 * length ks \<le> ps"
    and keys: "\<forall>k \<in> set ks. length k \<le> max_kv_size ps" "ks \<noteq> []"
    by (simp_all add: subtree_node)
  note bounds = page_size_bounds [OF ps]
  have len: "length ts = Suc (length ks)" using chain by (rule chain_length)
  obtain a tx1 tx2 b tx3 tx4 where ab: "txn_alloc tx = Some (a, tx1)"
    "txn_write ops tx1 a (mk_page 0 (node_of u)) = Some tx2" "txn_alloc tx2 = Some (b, tx3)"
    "txn_write ops tx3 b (mk_page 0 (node_of v)) = Some tx4" and ext: "txn_ext ops [a, b] [] tx tx4"
    and ca: "child_ok ps h (txn_read ops tx4) (retag a u)" and cb: "child_ok ps h (txn_read ops tx4) (retag b v)"
    and same: "\<And>j. j \<in> set xs \<Longrightarrow> txn_read ops tx4 j = txn_read ops tx j"
    using place_two [OF tx room u v filled] by metis
  have old: "child_ok ps h (txn_read ops tx4) t" if "t \<in> set (others p ts)" for t
  proof (rule child_ok_cong)
    show "child_ok ps h (txn_read ops tx) t" using rest(1) that by blast
    fix j assume "j \<in> set (ids t)"
    then have "j \<in> set xs" using rest(2) that by auto
    then show "txn_read ops tx4 j = txn_read ops tx j" using same by simp
  qed
  let ?ks = "take p ks @ s # drop p ks" and ?ts = "take p ts @ [retag a u, retag b v] @ drop (Suc p) ts"
  have chain': "chain lo ?ks ?ts hi"
    using chain_insert [OF chain p, of s "retag a u" "retag b v"] u(1) v(1) s by (simp add: subtree_ok_def)
  have keys': "\<forall>k \<in> set ?ks. length k \<le> max_kv_size ps"
    using keys s(3) by (auto dest: in_set_takeD in_set_dropD)
  have ts': "\<forall>t \<in> set ?ts. child_ok ps h (txn_read ops tx4) t"
    using old ca cb by (auto simp: others_def)
  have size: "19 + length (enc_keys ?ks) + 8 * length ?ks \<le> ps + 10 + max_kv_size ps"
    using fits s(3) p by (simp only: length_enc_insert) simp
  then have "keys_small ?ks" using bounds by (simp add: keys_small_def)
  then have "internal_insert_split_child (mk_internal i ks (map tid ts)) (as_u16 p) s a b =
      Some (mk_internal 0 ?ks (map tid ?ts))"
    using internal_insert_split_child_mk [OF small _ _ p, of "map tid ts" s i a b]
      chain_keys [OF chain] chain_keys [OF chain'] len by (simp add: take_map drop_map)
  moreover obtain res where res: "(if internal_nbytes (mk_internal 0 ?ks (map tid ?ts)) \<le> ps
        then Some (tx4, Single (Internal (mk_internal 0 ?ks (map tid ?ts))))
        else do { r \<leftarrow> internal_split_with_promotion (mk_internal 0 ?ks (map tid ?ts)) ps;
                  Some (tx4, Split (Internal (fst r)) (fst (snd r)) (Internal (snd (snd r)))) }) = Some (tx4, res)"
    and grown: "grown ps (Suc h) (txn_read ops tx4) lo hi (concat (map contents ?ts)) (mset (concat (map ids ?ts))) res"
    using grown_node [OF ps chain' _ keys' ts' size, of tx4] by blast
  ultimately have "absorb_child ops tx (mk_internal i ks (map tid ts)) (as_u16 p) ps
      (Split (mk_page 0 (node_of u)) s (mk_page 0 (node_of v))) = Some (tx4, res)"
    unfolding absorb_child_def insert_result.case ab(1,3) bind.simps fst_conv snd_conv ab(2,4)
    by (simp only: bind.simps)
  moreover have "grown ps (Suc h) (txn_read ops tx4) lo hi
      (concat (map contents (take p ts)) @ (contents u @ contents v) @ concat (map contents (drop (Suc p) ts)))
      (mset (concat (map ids (others p ts))) + mset (below u @ below v) + mset [a, b]) res"
    using grown by (simp add: others_def ac_simps)
  ultimately show ?thesis
    using ext by (intro exI [of _ tx4] exI [of _ res] exI [of _ "[a, b]"] conjI) simp_all
qed

lemma absorb_ok:
  assumes "subtree_ok ps (Suc h) pg0 lo hi (CNode i ks ts)" "page_size_ok ps"
    and "p \<le> length ks" "txn_page_size ops tx = ps" "pool_ok xs (guard tx)"
    and room: "unat (next_page_id (guard tx)) < 2 ^ 64 - 2"
    and "\<forall>t \<in> set (others p ts). child_ok ps h (txn_read ops tx) t"
      "set (concat (map ids (others p ts))) \<subseteq> set xs"
    and res: "grown ps h (txn_read ops tx) (lower_of lo ks p) (upper_of ks hi p) kvs M res"
    and M: "set_mset M \<subseteq> set xs"
  shows "\<exists>tx' res' A. absorb_child ops tx (mk_internal i ks (map tid ts)) (as_u16 p) ps res = Some (tx', res') \<and>
    txn_ext ops A [] tx tx' \<and> A \<noteq> [] \<and> length A \<le> 2 \<and>
    grown ps (Suc h) (txn_read ops tx') lo hi
      (concat (map contents (take p ts)) @ kvs @ concat (map contents (drop (Suc p) ts)))
      (mset (concat (map ids (others p ts))) + M + mset A) res'"
  using res
proof cases
  case (grown_single u)
  have "unat (next_page_id (guard tx)) < 2 ^ 64 - 1" using room by simp
  moreover have "set (below u) \<subseteq> set xs" using M unfolding grown_single(2) by simp
  ultimately show ?thesis
    unfolding grown_single(1-3)
    by (intro absorb_single [OF assms(1-5) _ assms(7,8) grown_single(4) _ grown_single(5)])
next
  case (grown_split s u v)
  have "set (below u) \<subseteq> set xs" "set (below v) \<subseteq> set xs" using M unfolding grown_split(2) by simp_all
  then show ?thesis
    unfolding grown_split(1-3)
    by (intro absorb_split [OF assms(1-5) room assms(7,8) grown_split(4) _ grown_split(5) _ grown_split(6-10)])
qed

text \<open>
  Insertion into a subtree of height \<open>h\<close> takes from \<open>h\<close> to \<open>2 h\<close> ids and frees \<open>h\<close>, one per level below
  the node: the pages of the new subtree and the freed ones are the old pages and the new ids.
\<close>

text \<open>The other children are as they were: none of their pages is handed out.\<close>

lemma children_kept:
  assumes "txn_ext ops A F tx tx'" "pool_ok xs (guard tx)"
    and "\<forall>u \<in> us. child_ok ps h (txn_read ops tx) u \<and> set (ids u) \<subseteq> set xs"
  shows "\<forall>u \<in> us. child_ok ps h (txn_read ops tx') u"
  using assms(3) txn_ext_disjoint [OF assms(1,2)] txn_ext_read [OF assms(1)] by (blast intro: child_ok_cong)

text \<open>At a leaf, the transaction does nothing.\<close>

lemma insert_node_leaf_ok:
  assumes ps: "page_size_ok ps" and kv: "length key + length val \<le> max_kv_size ps"
    and sub: "subtree_ok ps 0 (txn_read ops tx) lo hi t" "in_range lo hi key"
  obtains res where "insert_node ops tx (mk_page j (node_of t)) key val ps = Some (tx, res)"
    "grown ps 0 (txn_read ops tx) lo hi (upsert key val (contents t)) {#} res" "below t = []"
proof -
  obtain i kvs where t: "t = CLeaf i kvs" using sub(1) by (cases t) (auto simp: subtree_ok_def)
  obtain res where "insert_leaf (mk_leaf j kvs) key val ps = Some res"
    "grown ps 0 (txn_read ops tx) lo hi (upsert key val kvs) {#} res"
    using insert_leaf_ok [OF ps _ sub(2) kv, of "txn_read ops tx" j kvs] sub(1) t by (auto simp: subtree_ok_def)
  then show ?thesis using t that by (simp add: insert_node_def)
qed

lemma insert_node_ok:
  assumes ps: "page_size_ok ps" and kv: "length key + length val \<le> max_kv_size ps"
  shows "subtree_ok ps h (txn_read ops tx) lo hi t \<Longrightarrow> in_range lo hi key \<Longrightarrow>
    txn_page_size ops tx = ps \<Longrightarrow> pool_ok xs (guard tx) \<Longrightarrow> set (below t) \<subseteq> set xs \<Longrightarrow>
    unat (next_page_id (guard tx)) + 2 * h < 2 ^ 64 \<Longrightarrow>
    \<exists>tx' res A F M. insert_node ops tx (mk_page j (node_of t)) key val ps = Some (tx', res) \<and>
      txn_ext ops A F tx tx' \<and> h \<le> length A \<and> length A \<le> 2 * h \<and> length F = h \<and> set F \<subseteq> set (below t) \<and>
      grown ps h (txn_read ops tx') lo hi (upsert key val (contents t)) M res \<and>
      M + mset F = mset (below t) + mset A"
proof (induction h arbitrary: lo hi t j)
  case 0
  obtain res where "insert_node ops tx (mk_page j (node_of t)) key val ps = Some (tx, res)"
    "grown ps 0 (txn_read ops tx) lo hi (upsert key val (contents t)) {#} res" "below t = []"
    by (rule insert_node_leaf_ok [OF ps kv 0(1,2)])
  then show ?case
    by (intro exI [of _ tx] exI [of _ res] exI [of _ "[]"] exI [of _ "{#}"]) (simp add: txn_ext_refl)
next
  case (Suc h)
  then obtain i ks ts where t: "t = CNode i ks ts" by (cases t) (auto simp: subtree_ok_def)
  note node = Suc.prems(1) [unfolded t subtree_node]
  define p where "p = upper_bound ks key"
  define c where "c = ts ! p"
  have chain: "chain lo ks ts hi" and small: "keys_small ks" and children: "\<forall>t \<in> set ts. child_ok ps h (txn_read ops tx) t"
    using node by simp_all
  have len: "length ts = Suc (length ks)" using chain by (rule chain_length)
  have p: "p \<le> length ks" by (simp add: p_def)
  then have p': "p < length ts" using len by simp
  have c: "c \<in> set ts" using p' by (simp add: c_def)
  have split_ids: "mset (concat (map ids ts)) = mset (concat (map ids (others p ts))) + mset (ids c)"
    unfolding concat_at [OF p', of ids] by (simp add: others_def c_def)
  have below_c: "set (below c) \<subseteq> set xs" using Suc.prems(5) c t by (auto simp: ids_below)
  have child: "subtree_ok ps h (txn_read ops tx) (lower_of lo ks p) (upper_of ks hi p) c"
    using children c chain_nth [OF chain p] by (auto simp: subtree_ok_def child_ok_def rep_below c_def)
  have range: "in_range (lower_of lo ks p) (upper_of ks hi p) key"
    unfolding p_def using chain_keys [OF chain] Suc.prems(2) by (intro upper_bound_range) simp_all
  have "unat (next_page_id (guard tx)) + 2 * h < 2 ^ 64" using Suc.prems(6) by simp
  from Suc.IH [OF child range Suc.prems(3,4) below_c this, of "tid c"]
  obtain tx1 res1 A1 F1 M1 where
    F1: "set F1 \<subseteq> set (below c)" and 1: "insert_node ops tx (mk_page (tid c) (node_of c)) key val ps = Some (tx1, res1)"
    "txn_ext ops A1 F1 tx tx1" "length A1 \<le> 2 * h" "length F1 = h"
    "grown ps h (txn_read ops tx1) (lower_of lo ks p) (upper_of ks hi p) (upsert key val (contents c)) M1 res1"
    "M1 + mset F1 = mset (below c) + mset A1" "h \<le> length A1"
    by blast
  let ?tx2 = "txn_free tx1 (tid c)"
  have read2: "txn_read ops ?tx2 = txn_read ops tx1"
    by (simp add: fun_eq_iff txn_ext_read [OF txn_free_ext])
  have ext2: "txn_ext ops A1 (F1 @ [tid c]) tx ?tx2"
    using txn_ext_trans [OF 1(2) txn_free_ext] by simp
  have pool2: "pool_ok (xs @ A1) (guard ?tx2)" by (rule txn_ext_pool [OF ext2 Suc.prems(4)])
  have room2: "unat (next_page_id (guard ?tx2)) < 2 ^ 64 - 2"
    using txn_ext_frame(10) [OF ext2] 1(3) Suc.prems(6) by simp
  have others2: "\<forall>u \<in> set (others p ts). child_ok ps h (txn_read ops ?tx2) u"
    using children Suc.prems(5) t set_others [of p ts] by (intro children_kept [OF ext2 Suc.prems(4)]) auto
  have in_xs: "set (concat (map ids (others p ts))) \<subseteq> set (xs @ A1)"
    using Suc.prems(5) t set_others [of p ts] by auto
  have "set_mset M1 \<subseteq> set_mset (mset (below c) + mset A1)" unfolding 1(6) [symmetric] by simp
  then have M1: "set_mset M1 \<subseteq> set (xs @ A1)" using below_c by auto
  have ps2: "txn_page_size ops ?tx2 = ps" using txn_ext_frame(6) [OF ext2] Suc.prems(3) by simp
  obtain tx3 res3 A3 where
    3: "absorb_child ops ?tx2 (mk_internal j ks (map tid ts)) (as_u16 p) ps res1 = Some (tx3, res3)"
    "txn_ext ops A3 [] ?tx2 tx3" "length A3 \<le> 2"
    "grown ps (Suc h) (txn_read ops tx3) lo hi
      (concat (map contents (take p ts)) @ upsert key val (contents c) @ concat (map contents (drop (Suc p) ts)))
      (mset (concat (map ids (others p ts))) + M1 + mset A3) res3" "A3 \<noteq> []"
    using absorb_ok [OF _ ps p ps2 pool2 room2 others2 in_xs 1(5) [folded read2] M1, of "txn_read ops tx" j] node
    by (auto simp: subtree_node)
  have "txn_read ops tx (tid c) = Some (mk_page (tid c) (node_of c))"
    using children c by (auto simp: child_ok_def rep_below)
  then have "insert_node ops tx (mk_page j (node_of t)) key val ps = Some (tx3, res3)"
    using internal_child_index_mk [OF small, of j "map tid ts" key] chain_keys [OF chain]
      internal_get_child_mk [of p "map tid ts" j ks] keys_small_length [OF small] len p' 1(1) 3(1)
    by (simp add: t insert_node_def [of _ _ "Internal _"] insert_internal_unfold flip: p_def) (simp add: c_def)
  moreover have "txn_ext ops (A1 @ A3) (F1 @ [tid c]) tx tx3"
    using txn_ext_trans [OF ext2 3(2)] by simp
  moreover have "upsert key val (contents t) =
      concat (map contents (take p ts)) @ upsert key val (contents c) @ concat (map contents (drop (Suc p) ts))"
    using contents_upsert_child [OF chain, of key val] by (simp add: t p_def c_def)
  moreover have "mset (concat (map ids (others p ts))) + M1 + mset A3 + mset (F1 @ [tid c]) =
      mset (below t) + mset (A1 @ A3)"
  proof -
    have "mset (below t) = mset (concat (map ids (others p ts))) + {#tid c#} + mset (below c)"
      using split_ids by (simp add: t ids_below)
    then show ?thesis using 1(6) by (simp add: ac_simps)
  qed
  moreover have "set (F1 @ [tid c]) \<subseteq> set (below t)"
    using F1 c t by (auto simp: ids_below)
  moreover have "length (A1 @ A3) \<le> 2 * Suc h" "length (F1 @ [tid c]) = Suc h"
    using 1(3,4) 3(3) by simp_all
  moreover have "Suc h \<le> length (A1 @ A3)"
    using 1(7) 3(5) by (cases A3) simp_all
  ultimately show ?case using 3(4) by metis
qed

text \<open>Pages above 43696 bytes: an overfull leaf outgrows the \<open>u16\<close> offsets.\<close>

lemma insert_leaf_wraps:
  fixes v :: val
  defines "kvs \<equiv> [([1], v), ([2], v)] :: (key \<times> val) list"
  assumes v: "length v = 29979"
  shows "insert_leaf (mk_leaf i kvs) [3] v 60000 = None"
proof -
  let ?kvs = "kvs @ [([3], v)]"
  have len: "length (enc_entries kvs) = 59968" "length (enc_entries ?kvs) = 89952"
    using v by (simp_all add: kvs_def length_enc_entry)
  have small: "leaf_small kvs" "sorted_keys (map fst kvs)" using len by (simp_all add: leaf_small_def) (simp add: kvs_def)
  have two: "as_u16 (Suc (Suc 0)) = 2" "as_u16 (Suc (Suc (Suc 0))) = 3" by (simp_all add: as_u16_def)
  have search: "leaf_search (mk_leaf i kvs) [3] = Some (Inl 2)"
    by (simp add: leaf_search_mk small search_result_def Let_def) (simp add: kvs_def lower_bound_def two)
  have "leaf_push_range leaf_empty (mk_leaf i kvs) 0 2 = Some (mk_leaf 0 kvs)"
    using leaf_push_range_prefix [of kvs 2 i] small by (simp add: kvs_def two)
  moreover have "leaf_push (mk_leaf 0 kvs) [3] v = Some (mk_leaf 0 ?kvs)"
    by (rule leaf_push_small [OF small(1)]) (simp add: kvs_def)
  moreover have "leaf_nkeys (mk_leaf i kvs) = Some 2" by (simp add: leaf_nkeys_mk kvs_def two)
  moreover have "leaf_push_range (mk_leaf 0 ?kvs) (mk_leaf i kvs) 2 2 = Some (mk_leaf 0 ?kvs)"
    by (simp add: leaf_push_range_def u16_range_def)
  ultimately have built: "leaf_insert (mk_leaf i kvs) 2 [3] v = Some (mk_leaf 0 ?kvs)"
    by (simp add: leaf_insert_def)
  have at: "elem_at (entry_start (mk_leaf 0 ?kvs)) 1 = Some 29984"
    using v by (simp add: elem_at_def offsets_nth kvs_def length_enc_entry)
  have left: "leaf_left_bytes (mk_leaf 0 ?kvs) 1 = Some 29995"
    using at by (simp add: leaf_left_bytes_def u16_add_def LEAF_HEADER_def)
  have right: "leaf_right_bytes (mk_leaf 0 ?kvs) 1 = None"
    using at len(2) by (simp add: leaf_right_bytes_def u16_sub_def)
  have "leaf_split_by_size (mk_leaf 0 ?kvs) 60000 = None"
    using left right
    by (simp add: leaf_split_by_size_def leaf_nkeys_mk Let_def kvs_def two split_down.simps [of _ _ 1] split_up.simps [of _ _ _ 1])
  then show ?thesis
    using search built len(2) by (simp add: insert_leaf_def leaf_nbytes_mk)
qed

section \<open>Properties\<close>

text \<open>C21. Insertion into a leaf refines the insertion into a sorted list: the result is one leaf with the updated
  list, or two leaves that share it out at a separator, and every leaf fits its page.\<close>

theorem insert_leaf_correct:
  assumes "page_size_ok ps" "node_fits ps (LeafN kvs)" "\<forall>p \<in> set kvs. entry_ok ps p"
    and "sorted_keys (map fst kvs)" "length key + length val \<le> max_kv_size ps"
  shows "(node_fits ps (LeafN (upsert key val kvs)) \<and>
      insert_leaf (mk_leaf i kvs) key val ps = Some (Single (Leaf (mk_leaf 0 (upsert key val kvs))))) \<or>
    (\<exists>xs ys s. upsert key val kvs = xs @ ys \<and> node_fits ps (LeafN xs) \<and> node_fits ps (LeafN ys) \<and>
      insert_leaf (mk_leaf i kvs) key val ps = Some (Split (Leaf (mk_leaf 0 xs)) s (Leaf (mk_leaf 0 ys))) \<and>
      (\<forall>k \<in> fst ` set xs. k < s) \<and> (\<forall>k \<in> fst ` set ys. s \<le> k))"
proof -
  have t: "subtree_ok ps 0 (\<lambda>_. None) None None (CLeaf i kvs)"
    using assms(2-4) by (auto simp: subtree_ok_def in_range_def)
  have in_range_all: "in_range None None key" by (simp add: in_range_def)
  obtain res where res: "insert_leaf (mk_leaf i kvs) key val ps = Some res"
    "grown ps 0 (\<lambda>_. None) None None (upsert key val kvs) {#} res"
    using insert_leaf_ok [OF assms(1) t in_range_all assms(5)] .
  from res(2) show ?thesis
  proof cases
    case (grown_single t)
    then obtain j where "t = CLeaf j (upsert key val kvs)" by (cases t) (auto simp: subtree_ok_def)
    with grown_single res(1) show ?thesis by (auto simp: subtree_ok_def)
  next
    case (grown_split s a b)
    then obtain j xs l ys where "a = CLeaf j xs" "b = CLeaf l ys"
      by (cases a; cases b) (auto simp: subtree_ok_def)
    with grown_split res(1) have "upsert key val kvs = xs @ ys \<and> node_fits ps (LeafN xs) \<and> node_fits ps (LeafN ys) \<and>
      insert_leaf (mk_leaf i kvs) key val ps = Some (Split (Leaf (mk_leaf 0 xs)) s (Leaf (mk_leaf 0 ys))) \<and>
      (\<forall>k \<in> fst ` set xs. k < s) \<and> (\<forall>k \<in> fst ` set ys. s \<le> k)"
      by (auto simp: subtree_ok_def in_range_def)
    then show ?thesis by blast
  qed
qed

lemma insert_leaf_correct_witness:
  "insert_leaf (mk_leaf 1 [([1], [10]), ([4], [40])]) [2] [20] 64 =
     Some (Single (Leaf (mk_leaf 0 [([1], [10]), ([2], [20]), ([4], [40])]))) \<or>
   (\<exists>xs ys s. [([1], [10]), ([2], [20]), ([4], [40])] = xs @ ys \<and>
      insert_leaf (mk_leaf 1 [([1], [10]), ([4], [40])]) [2] [20] 64 =
        Some (Split (Leaf (mk_leaf 0 xs)) s (Leaf (mk_leaf 0 ys))))"
  using insert_leaf_correct [of 64 "[([1], [10]), ([4], [40])]" "[2]" "[20]" 1]
  by (simp add: page_size_ok_def leaf_small_def length_enc_entry entry_ok_def max_kv_size_def INTERNAL_HEADER_def) blast


end
