(* ===== verification/Chain.thy ===== *)
theory Chain
  imports Insertion
begin

text \<open>
  The persisted free list, \<open>persist_free_list\<close> and \<open>load_free_list_chain\<close> of
  \<open>src/01-btree/src/storage/store.rs\<close>: what a commit writes to the chain of pages, a later open reads
  back, and no page outside the chain changes.
\<close>

section \<open>Cutting the ids into chunks\<close>

definition chunk :: "nat \<Rightarrow> 'a list \<Rightarrow> nat \<Rightarrow> 'a list" where
  "chunk cap xs i = take cap (drop (i * cap) xs)"

lemma length_chunk: "length (chunk cap xs i) \<le> cap"
  by (simp add: chunk_def)

lemma div_ceil_covers: "0 < cap \<Longrightarrow> n \<le> div_ceil n cap * cap"
proof -
  assume cap: "0 < cap"
  have "n + cap - 1 < Suc ((n + cap - 1) div cap) * cap"
    using cap by (metis div_less_iff_less_mult lessI)
  then show "n \<le> div_ceil n cap * cap" using cap by (simp add: div_ceil_def)
qed

lemma div_ceil_tight:
  assumes "0 < cap" "i < div_ceil n cap"
  shows "i * cap < n"
proof -
  have "Suc i * cap \<le> n + cap - 1"
    using assms by (metis Suc_leI div_ceil_def less_eq_div_iff_mult_less_eq)
  then show ?thesis using assms(1) by simp
qed

lemma div_ceil_0 [simp]: "0 < cap \<Longrightarrow> div_ceil 0 cap = 0"
  by (simp add: div_ceil_def)

lemma div_ceil_le: "0 < cap \<Longrightarrow> div_ceil n cap \<le> n"
proof -
  assume cap: "0 < cap"
  show "div_ceil n cap \<le> n"
  proof (cases "div_ceil n cap")
    case (Suc q)
    then have "q * cap < n" using div_ceil_tight [OF cap, of q n] by simp
    moreover have "q * 1 \<le> q * cap" using cap by (intro mult_le_mono2) simp
    ultimately have "q < n" by linarith
    then show ?thesis using Suc by simp
  qed simp
qed

lemma div_ceil_mono: "m \<le> n \<Longrightarrow> div_ceil m cap \<le> div_ceil n cap"
  by (simp add: div_ceil_def div_le_mono)

lemma concat_chunks:
  assumes "0 < cap" "length xs \<le> n * cap"
  shows "a \<le> n \<Longrightarrow> concat (map (chunk cap xs) [a..<n]) = drop (a * cap) xs"
proof (induction "n - a" arbitrary: a)
  case 0
  then show ?case using assms(2) by simp
next
  case (Suc d)
  then have "[a..<n] = a # [Suc a..<n]" and IH: "concat (map (chunk cap xs) [Suc a..<n]) = drop (Suc a * cap) xs"
    by (simp_all add: upt_conv_Cons)
  moreover have "take cap (drop (a * cap) xs) @ drop (Suc a * cap) xs = drop (a * cap) xs"
    by (metis add.commute append_take_drop_id drop_drop mult_Suc)
  ultimately show ?case by (simp add: chunk_def)
qed

section \<open>Extending the chain\<close>

lemma extend_chain_ok:
  "unat (next_page_id g) + (needed - length (free_list_page_ids g)) < 2 ^ 64 \<Longrightarrow>
   \<exists>n. extend_chain needed g = Some (g\<lparr>next_page_id := n,
          free_list_page_ids := free_list_page_ids g @ fresh (next_page_id g) n\<rparr>) \<and>
       unat n = unat (next_page_id g) + (needed - length (free_list_page_ids g))"
proof (induction "needed - length (free_list_page_ids g)" arbitrary: g)
  case 0
  then have "extend_chain needed g = Some g" by (subst extend_chain.simps) simp
  then show ?case using 0 by (intro exI [of _ "next_page_id g"]) simp
next
  case (Suc d)
  let ?n = "next_page_id g"
  let ?g = "g\<lparr>next_page_id := ?n + 1, free_list_page_ids := free_list_page_ids g @ [?n]\<rparr>"
  have n: "u64_succ ?n = Some (?n + 1)" "unat (?n + 1) = Suc (unat ?n)"
    using u64_succ_Some [of ?n] Suc by auto
  have "d = needed - length (free_list_page_ids ?g)"
    "unat (next_page_id ?g) + (needed - length (free_list_page_ids ?g)) < 2 ^ 64"
    using Suc n by simp_all
  from Suc.hyps(1) [OF this] obtain m where
    m: "extend_chain needed ?g = Some (?g\<lparr>next_page_id := m,
          free_list_page_ids := free_list_page_ids ?g @ fresh (next_page_id ?g) m\<rparr>)"
    "unat m = unat (next_page_id ?g) + (needed - length (free_list_page_ids ?g))"
    by blast
  have "fresh ?n m = ?n # fresh (?n + 1) m"
    using fresh_trans [of ?n "?n + 1" m] fresh_succ [OF n(2)] n(2) m(2) by simp
  moreover have "extend_chain needed g = extend_chain needed ?g"
  proof -
    have "length (free_list_page_ids g) < needed" using Suc(2) by simp
    then show ?thesis using n by (subst extend_chain.simps) simp
  qed
  ultimately show ?case using m n(2) Suc(2) by (intro exI [of _ m]) simp
qed

text \<open>The chain grows by new ids only, and by no more than needed.\<close>

lemma extend_chain_grows:
  assumes "extend_chain needed g = Some g'"
  shows "unat (next_page_id g) \<le> unat (next_page_id g')"
    "i \<in> set (free_list_page_ids g') \<Longrightarrow> i \<in> set (free_list_page_ids g) \<or> unat (next_page_id g) \<le> unat i"
    "length (free_list_page_ids g') = max (length (free_list_page_ids g)) needed"
    "unat (next_page_id g') + length (free_list_page_ids g) = unat (next_page_id g) + length (free_list_page_ids g')"
    "free_list g' = free_list g" "pending_free g' = pending_free g"
proof -
  have "unat (next_page_id g) \<le> unat (next_page_id g') \<and>
    (\<forall>i \<in> set (free_list_page_ids g'). i \<in> set (free_list_page_ids g) \<or> unat (next_page_id g) \<le> unat i) \<and>
    length (free_list_page_ids g') = max (length (free_list_page_ids g)) needed \<and>
    unat (next_page_id g') + length (free_list_page_ids g) = unat (next_page_id g) + length (free_list_page_ids g') \<and>
    free_list g' = free_list g \<and> pending_free g' = pending_free g"
    using assms
  proof (induction needed g rule: extend_chain.induct)
    case (1 needed g)
    show ?case
    proof (cases "length (free_list_page_ids g) < needed")
      case True
      then obtain n where n: "u64_succ (next_page_id g) = Some n"
        "extend_chain needed (g\<lparr>next_page_id := n, free_list_page_ids := free_list_page_ids g @ [next_page_id g]\<rparr>) = Some g'"
        using "1.prems" by (subst (asm) extend_chain.simps) (auto simp: bind_eq_Some_conv)
      have "unat n = Suc (unat (next_page_id g))"
        using n(1) unatSuc [of "next_page_id g"]
        by (auto simp: u64_succ_def add.commute eq_neg_iff_add_eq_0 split: if_splits)
      then show ?thesis using "1.IH" [OF True n(1,2)] True by fastforce
    next
      case False
      then show ?thesis using "1.prems" by (subst (asm) extend_chain.simps) simp
    qed
  qed
  then show "unat (next_page_id g) \<le> unat (next_page_id g')"
    "i \<in> set (free_list_page_ids g') \<Longrightarrow> i \<in> set (free_list_page_ids g) \<or> unat (next_page_id g) \<le> unat i"
    "length (free_list_page_ids g') = max (length (free_list_page_ids g)) needed"
    "unat (next_page_id g') + length (free_list_page_ids g) = unat (next_page_id g) + length (free_list_page_ids g')"
    "free_list g' = free_list g" "pending_free g' = pending_free g"
    by simp_all
qed

lemma pool_ok_fresh:
  assumes "pool_ok xs g" "unat (next_page_id g) \<le> unat n"
  shows "pool_ok (xs @ fresh (next_page_id g) n)
    (g\<lparr>next_page_id := n, free_list_page_ids := c\<rparr>)"
proof -
  have "0 < unat (next_page_id g)" using assms(1) by (simp add: pool_ok_def unat_gt_0)
  moreover have "x \<noteq> 0 \<and> unat (next_page_id g) \<le> unat x \<and> unat x < unat n"
    if "x \<in> set (fresh (next_page_id g) n)" for x
    using set_fresh [OF that] \<open>0 < unat (next_page_id g)\<close> by auto
  moreover have old: "x \<noteq> 0 \<and> unat x < unat (next_page_id g)" if "x \<in> set (xs @ free_list g)" for x
    using assms(1) that unfolding pool_ok_def by blast
  then have "unat x < unat n" "x \<notin> set (fresh (next_page_id g) n)" if "x \<in> set (xs @ free_list g)" for x
    using that assms(2) set_fresh [of x "next_page_id g" n] by fastforce+
  ultimately show ?thesis
    using assms distinct_fresh [of "next_page_id g" n] old by (auto simp: pool_ok_def)
qed

section \<open>Writing and loading the chain\<close>

text \<open>The page that holds part \<open>i\<close> of the free list.\<close>

definition chain_page :: "nat \<Rightarrow> page_id list \<Rightarrow> page_id list \<Rightarrow> nat \<Rightarrow> nat \<Rightarrow> nat \<Rightarrow> bytes option" where
  "chain_page ps pids payload cap needed i =
     free_list_encode (pids ! i) (if i + 1 < needed then pids ! (i + 1) else 0) (chunk cap payload i) ps"

lemma chain_cap:
  assumes "page_size_ok ps" "cap = (ps - 19) div 8"
  shows "0 < cap" "cap < 65536"
proof -
  have "8 \<le> ps - 19" using assms(1) unfolding page_size_ok_def by linarith
  then show "0 < cap" using assms(2) by (simp add: div_greater_zero_iff)
  have "cap \<le> ps - 19" using assms(2) by simp
  then show "cap < 65536" using assms(1) unfolding page_size_ok_def by linarith
qed

lemma chain_page_Some:
  assumes "page_size_ok ps" "cap = (ps - 19) div 8"
  obtains bs where "chain_page ps pids payload cap needed i = Some bs" "length bs = ps"
    "free_list_decode (pids ! i) bs = Some (if i + 1 < needed then pids ! (i + 1) else 0, chunk cap payload i)"
proof -
  have "free_list_fits ps (chunk cap payload i)"
    using assms length_chunk [of cap payload i] chain_cap [OF assms]
    by (simp add: free_list_fits_def page_size_ok_def)
  then have "19 + 8 * length (chunk cap payload i) \<le> ps" "length (chunk cap payload i) < 65536"
    "chain_page ps pids payload cap needed i =
       Some (free_list_image (pids ! i) (if i + 1 < needed then pids ! (i + 1) else 0) (chunk cap payload i) @
             replicate (ps - 19 - 8 * length (chunk cap payload i)) 0)"
    by (auto simp: chain_page_def free_list_encode_image free_list_fits_def)
  with that show ?thesis by (simp add: free_list_decode_image)
qed

context page_backend
begin

lemma write_chain_ok:
  assumes "page_size_ok ps" "cap = (ps - 19) div 8" "needed = div_ceil (length payload) cap"
    and "needed \<le> length pids" "distinct pids" "\<forall>i \<in> set pids. unat i < lim"
  shows "inv io \<Longrightarrow> page_size ops io = ps \<Longrightarrow> limit io = lim \<Longrightarrow> a \<le> needed \<Longrightarrow>
    \<exists>io'. write_chain ops ps pids payload cap needed [a..<needed] io = Some io' \<and> evolves io io' \<and>
      (\<forall>i. a \<le> i \<longrightarrow> i < needed \<longrightarrow> read_page ops io' (pids ! i) = chain_page ps pids payload cap needed i) \<and>
      (\<forall>j b. j \<notin> set (drop a pids) \<longrightarrow> read_page ops io j = Some b \<longrightarrow> read_page ops io' j = Some b)"
proof (induction "needed - a" arbitrary: a io)
  case 0
  then show ?case by (simp add: evolves_refl)
next
  case (Suc d)
  then have a: "a < needed" "[a..<needed] = a # [Suc a..<needed]" by (simp_all add: upt_conv_Cons)
  have cap: "0 < cap" by (rule chain_cap [OF assms(1,2)])
  obtain bs where bs: "chain_page ps pids payload cap needed a = Some bs" "length bs = ps"
    using chain_page_Some [OF assms(1,2)] by metis
  have a_len: "a < length pids" using a assms(4) by simp
  then obtain io1 where io1: "write_page ops io (pids ! a) bs = Some io1"
    using write_ok [of io "pids ! a" bs] Suc.prems assms(6) bs(2) by auto
  then have ev: "evolves io io1" using Suc.prems(1) by (rule write_evolves [rotated])
  have slice: "slice_of payload (a * cap) (min ((a + 1) * cap) (length payload)) = Some (chunk cap payload a)"
    using div_ceil_tight [OF cap, of a "length payload"] a(1) assms(3)
    by (auto simp: slice_of_def chunk_def min_def)
  have "d = needed - Suc a" "inv io1" "page_size ops io1 = ps" "limit io1 = lim" "Suc a \<le> needed"
    using Suc.hyps(2) Suc.prems ev a by (auto simp: evolves_def)
  from Suc.hyps(1) [OF this] obtain io' where
    io': "write_chain ops ps pids payload cap needed [Suc a..<needed] io1 = Some io'" "evolves io1 io'"
      "\<forall>i. Suc a \<le> i \<longrightarrow> i < needed \<longrightarrow> read_page ops io' (pids ! i) = chain_page ps pids payload cap needed i"
      "\<forall>j b. j \<notin> set (drop (Suc a) pids) \<longrightarrow> read_page ops io1 j = Some b \<longrightarrow> read_page ops io' j = Some b"
    by blast
  have "pids ! a \<notin> set (drop (Suc a) pids)"
    using assms(5) a_len by (metis Cons_nth_drop_Suc distinct.simps(2) distinct_drop)
  moreover have "read_page ops io1 (pids ! a) = Some bs" using Suc.prems(1) io1 by (rule write_same)
  ultimately have "read_page ops io' (pids ! a) = chain_page ps pids payload cap needed a"
    using io'(4) bs(1) by simp
  then have pages: "read_page ops io' (pids ! i) = chain_page ps pids payload cap needed i" if "a \<le> i" "i < needed" for i
    using io'(3) that by (cases "i = a") auto
  have frame: "read_page ops io' j = Some b" if "j \<notin> set (drop a pids)" "read_page ops io j = Some b" for j b
  proof -
    have "j \<noteq> pids ! a" "j \<notin> set (drop (Suc a) pids)"
      using that(1) a_len by (metis Cons_nth_drop_Suc list.set_intros)+
    then show ?thesis using write_other [OF Suc.prems(1) io1] that(2) io'(4) by blast
  qed
  have "write_chain ops ps pids payload cap needed [a..<needed] io = Some io'"
    using a slice bs(1) io1 io'(1) a_len assms(4) by (auto simp: chain_page_def)
  then show ?case using evolves_trans [OF ev io'(2)] pages frame by blast
qed

end

text \<open>Loading follows the links, from any position.\<close>

lemma load_chain_loop_ok:
  assumes "page_size_ok ps" "cap = (ps - 19) div 8" "needed \<le> length pids" "0 \<notin> set pids"
    and "\<forall>i < needed. read_page ops io (pids ! i) = chain_page ps pids payload cap needed i"
  shows "a < needed \<Longrightarrow> load_chain_loop ops io (pids ! a) fl acc =
    Some (fl @ concat (map (chunk cap payload) [a..<needed]), acc @ drop a (take needed pids))"
proof (induction "needed - a" arbitrary: a fl acc)
  case 0
  then show ?case by simp
next
  case (Suc d)
  obtain bs where bs: "chain_page ps pids payload cap needed a = Some bs"
    "free_list_decode (pids ! a) bs = Some (if a + 1 < needed then pids ! (a + 1) else 0, chunk cap payload a)"
    using chain_page_Some [OF assms(1,2)] by metis
  have a: "a < length pids" using Suc.prems assms(3) by simp
  have nz: "pids ! a \<noteq> 0" using assms(4) a by (metis nth_mem)
  have step: "load_chain_loop ops io (pids ! a) fl acc =
      load_chain_loop ops io (if a + 1 < needed then pids ! (a + 1) else 0) (fl @ chunk cap payload a) (acc @ [pids ! a])"
    using nz bs assms(5) Suc.prems by (subst load_chain_loop.simps) simp
  have take: "drop a (take needed pids) = pids ! a # drop (Suc a) (take needed pids)"
    using Suc.prems a by (simp add: Cons_nth_drop_Suc [symmetric])
  show ?case
  proof (cases "Suc a < needed")
    case True
    then have "d = needed - Suc a" using Suc.hyps(2) by simp
    from Suc.hyps(1) [OF this True] step True take show ?thesis by (simp add: upt_conv_Cons)
  next
    case False
    then have "needed = Suc a" using Suc.prems by simp
    moreover have "load_chain_loop ops io 0 (fl @ chunk cap payload a) (acc @ [pids ! a]) =
        Some (fl @ chunk cap payload a, acc @ [pids ! a])"
      by (subst load_chain_loop.simps) simp
    ultimately show ?thesis using step take False by simp
  qed
qed

lemma load_free_list_chain_ok:
  assumes "page_size_ok ps" "cap = (ps - 19) div 8" "needed = div_ceil (length payload) cap"
    and "needed \<le> length pids" "0 \<notin> set pids"
    and "\<forall>i < needed. read_page ops io (pids ! i) = chain_page ps pids payload cap needed i"
  shows "load_free_list_chain ops io (if needed > 0 then pids ! 0 else 0) = Some (payload, take needed pids)"
proof -
  have cap: "0 < cap" by (rule chain_cap [OF assms(1,2)])
  have covers: "length payload \<le> needed * cap" using div_ceil_covers [OF cap] assms(3) by simp
  show ?thesis
  proof (cases "needed = 0")
    case True
    then have "payload = []" using covers by simp
    then show ?thesis using True by (simp add: load_free_list_chain_def load_chain_loop.simps)
  next
    case False
    then show ?thesis
      using load_chain_loop_ok [OF assms(1,2,4,5,6), of 0 "[]" "[]"] concat_chunks [OF cap covers, of 0]
      by (simp add: load_free_list_chain_def)
  qed
qed

section \<open>Properties\<close>

text \<open>C24. Round trip of the free-list chain: writing the ids of the free pages over chain pages that are
  distinct, inside the backend and not the header, succeeds; loading the chain from its first page gives
  the ids back in order with the chain's own pages, and no other page has changed.\<close>

theorem free_list_chain_round_trip:
  assumes "page_backend ops ok lim" "ok io" "page_size_ok (page_size ops io)"
    and "cap = (page_size ops io - 19) div 8" "needed = div_ceil (length payload) cap"
    and "needed \<le> length pids" "distinct pids" "\<forall>i \<in> set pids. i \<noteq> 0 \<and> unat i < lim io"
  shows "\<exists>io'. write_chain ops (page_size ops io) pids payload cap needed [0..<needed] io = Some io' \<and>
    load_free_list_chain ops io' (if needed > 0 then pids ! 0 else 0) = Some (payload, take needed pids) \<and>
    (\<forall>j b. j \<notin> set pids \<and> read_page ops io j = Some b \<longrightarrow> read_page ops io' j = Some b)"
proof -
  have "\<forall>i \<in> set pids. unat i < lim io" using assms(8) by blast
  from page_backend.write_chain_ok [OF assms(1,3,4,5,6,7) this assms(2) refl refl le0]
  obtain io' where io': "write_chain ops (page_size ops io) pids payload cap needed [0..<needed] io = Some io'"
    "\<forall>i. 0 \<le> i \<longrightarrow> i < needed \<longrightarrow> read_page ops io' (pids ! i) = chain_page (page_size ops io) pids payload cap needed i"
    "\<forall>j b. j \<notin> set (drop 0 pids) \<longrightarrow> read_page ops io j = Some b \<longrightarrow> read_page ops io' j = Some b"
    by (elim exE conjE) (rule that)
  moreover have "load_free_list_chain ops io' (if needed > 0 then pids ! 0 else 0) = Some (payload, take needed pids)"
    using assms(8) io'(2) by (intro load_free_list_chain_ok [OF assms(3,4,5,6)]) auto
  ultimately show ?thesis by (intro exI [of _ io']) simp
qed

lemma free_list_chain_round_trip_witness:
  "\<exists>io'. write_chain memory_ops 64 [10, 11] [1, 2, 3, 4, 5, 6, 7] 5 2 [0..<2] (memory_new 64) = Some io' \<and>
    load_free_list_chain memory_ops io' 10 = Some ([1, 2, 3, 4, 5, 6, 7], [10, 11])"
proof -
  let ?io = "memory_new 64" and ?xs = "[1, 2, 3, 4, 5, 6, 7] :: page_id list"
  have ps: "page_size memory_ops ?io = 64" by (simp add: memory_new_def)
  have 1: "page_size_ok (page_size memory_ops ?io)" by (simp add: memory_new_def page_size_ok_def)
  have 2: "(5 :: nat) = (page_size memory_ops ?io - 19) div 8" by (simp add: memory_new_def)
  have 3: "2 = div_ceil (length ?xs) 5" by (simp add: div_ceil_def)
  have 4: "2 \<le> length [10, 11 :: page_id]" "distinct [10, 11 :: page_id]"
    "\<forall>i \<in> set [10, 11 :: page_id]. i \<noteq> 0 \<and> unat i < 2 ^ 64" by simp_all
  from free_list_chain_round_trip [OF mem.page_backend_axioms memory_inv_new 1 2 3 4]
  show ?thesis unfolding ps by auto
qed

text \<open>C36. Growing the chain: unless the ids run out the loop ends, appends exactly the pages that are missing,
  with the next ids in order, and moves \<open>next_page_id\<close> past them.\<close>

theorem extend_chain_correct:
  assumes "unat (next_page_id g) + (needed - length (free_list_page_ids g)) < 2 ^ 64"
  shows "\<exists>n. extend_chain needed g = Some (g\<lparr>next_page_id := n,
          free_list_page_ids := free_list_page_ids g @ fresh (next_page_id g) n\<rparr>) \<and>
       unat n = unat (next_page_id g) + (needed - length (free_list_page_ids g))"
  using assms by (rule extend_chain_ok)

lemma extend_chain_correct_witness:
  "\<exists>n. unat n = 12 \<and> extend_chain 3 \<lparr>next_page_id = 10, free_list = [], pending_free = [4], free_list_page_ids = [7]\<rparr> =
     Some \<lparr>next_page_id = n, free_list = [], pending_free = [4], free_list_page_ids = 7 # fresh 10 n\<rparr>"
  using extend_chain_correct [of "\<lparr>next_page_id = 10, free_list = [], pending_free = [4], free_list_page_ids = [7]\<rparr>" 3]
  by auto

end
