(* ===== verification/Commit.thy ===== *)
theory Commit
  imports Chain
begin

text \<open>
  The commit, \<open>WriteTxn::commit\<close> of \<open>src/01-btree/src/storage/store.rs\<close>: over a backend that keeps
  the contract it ends, the buffered pages can be read, every page outside the transaction, the chain
  and the header is as before, and the disk holds what a later open needs.
\<close>

section \<open>The store's invariant\<close>

text \<open>The pages the chain needs for \<open>n\<close> ids, and those of the chain that hold the free list at present.\<close>

definition chain_need :: "nat \<Rightarrow> nat \<Rightarrow> nat" where
  "chain_need ps n = div_ceil n ((ps - 19) div 8)"

definition chain_used :: "'io page_io \<Rightarrow> 'io store \<Rightarrow> page_id list" where
  "chain_used ops st = (let g = write_lock st in
     take (chain_need (page_size ops (store_io st)) (length (free_list g @ pending_free g))) (free_list_page_ids g))"

text \<open>What an open of the backend would find: the header and the free list of the store.\<close>

definition disk_ok :: "'io page_io \<Rightarrow> 'io store \<Rightarrow> bool" where
  "disk_ok ops st \<longleftrightarrow>
     (\<exists>bs h. read_page ops (store_io st) HEADER_PAGE_ID = Some bs \<and> header_from_bytes bs = Some (Inr h) \<and>
        hdr_page_size h = page_size ops (store_io st) \<and> root_id h = root st \<and>
        hdr_next_page_id h = next_page_id (write_lock st) \<and>
        load_free_list_chain ops (store_io st) (free_list_head h) =
          Some (free_list (write_lock st) @ pending_free (write_lock st), chain_used ops st))"

text \<open>The published tree \<open>t\<close> of height \<open>h\<close>.\<close>

definition tree_ok :: "'io page_io \<Rightarrow> nat \<Rightarrow> ctree \<Rightarrow> 'io store \<Rightarrow> bool" where
  "tree_ok ops h t st \<longleftrightarrow> root st = tid t \<and> bal h t \<and> sized (page_size ops (store_io st)) t \<and>
     ordered None None t \<and> rep (guard_read ops st) t"

text \<open>
  Every page has one role: it is in the tree, free, waiting to be free, or in the chain.
\<close>

definition store_ok :: "'io page_io \<Rightarrow> ('io \<Rightarrow> bool) \<Rightarrow> nat \<Rightarrow> ctree \<Rightarrow> 'io store \<Rightarrow> bool" where
  "store_ok ops io_ok h t st \<longleftrightarrow> io_ok (store_io st) \<and> page_size_ok (page_size ops (store_io st)) \<and>
     tree_ok ops h t st \<and>
     pool_ok (ids t @ pending_free (write_lock st) @ free_list_page_ids (write_lock st)) (write_lock st) \<and>
     disk_ok ops st"

section \<open>The gate\<close>

lemma pool_ok_less: "pool_ok xs g \<Longrightarrow> x \<in> set xs \<Longrightarrow> x \<noteq> 0 \<and> unat x < unat (next_page_id g)"
  by (simp add: pool_ok_def)

lemma pool_ok_mset:
  assumes "pool_ok xs g" "mset (ys @ free_list g') = mset (xs @ free_list g)"
    "next_page_id g' = next_page_id g"
  shows "pool_ok ys g'"
  using assms mset_eq_imp_distinct_iff [OF assms(2)] mset_eq_setD [OF assms(2)]
  unfolding pool_ok_def by simp

lemma promote_simps [simp]:
  "store_io (txn_store (promote_pending tx)) = store_io (txn_store tx)"
  "readers (txn_store (promote_pending tx)) = readers (txn_store tx)"
  "root (txn_store (promote_pending tx)) = root (txn_store tx)"
  "freed (promote_pending tx) = []"
  "next_page_id (guard (promote_pending tx)) = next_page_id (guard tx)"
  "free_list_page_ids (guard (promote_pending tx)) = free_list_page_ids (guard tx)"
  by (simp_all add: promote_pending_def Let_def set_guard_def guard_def)

lemma promote_free_list:
  "free_list (guard (promote_pending tx)) =
     (if readers (txn_store tx) = 0 then free_list (guard tx) @ pending_free (guard tx) @ freed tx
      else free_list (guard tx))"
  "pending_free (guard (promote_pending tx)) =
     (if readers (txn_store tx) = 0 then [] else pending_free (guard tx) @ freed tx)"
  by (simp_all add: promote_pending_def Let_def set_guard_def guard_def)

lemma promote_payload:
  "free_list (guard (promote_pending tx)) @ pending_free (guard (promote_pending tx)) =
     free_list (guard tx) @ pending_free (guard tx) @ freed tx"
  by (simp add: promote_free_list)

lemma promote_pool:
  assumes "pool_ok (xs @ pending_free (guard tx) @ freed tx @ ys) (guard tx)"
  shows "pool_ok (xs @ pending_free (guard (promote_pending tx)) @ ys) (guard (promote_pending tx))"
  by (rule pool_ok_mset [OF assms]) (simp_all add: promote_free_list ac_simps)

section \<open>Persisting the free list\<close>

context page_backend
begin

lemma persist_free_list_ok:
  fixes tx :: "'io write_txn"
  defines "ps \<equiv> txn_page_size ops tx" and "g \<equiv> guard tx"
  defines "payload \<equiv> free_list g @ pending_free g"
  defines "grow \<equiv> chain_need ps (length payload) - length (free_list_page_ids g)"
  assumes io: "inv (store_io (txn_store tx))" and ps: "page_size_ok ps"
    and pool: "pool_ok (xs @ free_list_page_ids g) g"
    and room: "unat (next_page_id g) + grow < 2 ^ 64"
      "unat (next_page_id g) + grow \<le> limit (store_io (txn_store tx))"
  obtains n io' where
    "persist_free_list ops tx =
       Some (if chain_need ps (length payload) > 0 then (free_list_page_ids g @ fresh (next_page_id g) n) ! 0 else 0,
             word_of_nat (length payload),
             tx\<lparr>txn_store := (txn_store tx)\<lparr>store_io := io',
               write_lock := g\<lparr>next_page_id := n,
                 free_list_page_ids := free_list_page_ids g @ fresh (next_page_id g) n\<rparr>\<rparr>\<rparr>)"
    "unat n = unat (next_page_id g) + grow" "evolves (store_io (txn_store tx)) io'"
    "pool_ok (xs @ free_list_page_ids g @ fresh (next_page_id g) n)
       (g\<lparr>next_page_id := n, free_list_page_ids := free_list_page_ids g @ fresh (next_page_id g) n\<rparr>)"
    "\<And>i. i < chain_need ps (length payload) \<Longrightarrow>
       read_page ops io' ((free_list_page_ids g @ fresh (next_page_id g) n) ! i) =
         chain_page ps (free_list_page_ids g @ fresh (next_page_id g) n) payload ((ps - 19) div 8)
           (chain_need ps (length payload)) i"
    "\<And>j b. j \<notin> set (free_list_page_ids g @ fresh (next_page_id g) n) \<Longrightarrow>
       read_page ops (store_io (txn_store tx)) j = Some b \<Longrightarrow> read_page ops io' j = Some b"
    "chain_need ps (length payload) \<le> length (free_list_page_ids g @ fresh (next_page_id g) n)"
proof -
  let ?cap = "(ps - 19) div 8" and ?need = "chain_need ps (length payload)" and ?io = "store_io (txn_store tx)"
  have cap: "0 < ?cap" using chain_cap [OF ps refl] by simp
  have max_cap: "free_list_capacity ps = Some ?cap" "max ?cap 1 = ?cap"
    using ps cap by (simp_all add: free_list_capacity_def page_size_ok_def FREE_LIST_HEADER_def)
  obtain n where n: "extend_chain ?need g = Some (g\<lparr>next_page_id := n,
          free_list_page_ids := free_list_page_ids g @ fresh (next_page_id g) n\<rparr>)"
    "unat n = unat (next_page_id g) + grow"
    using extend_chain_ok [of g ?need] room(1) unfolding grow_def by auto
  let ?chain = "free_list_page_ids g @ fresh (next_page_id g) n"
  let ?g = "g\<lparr>next_page_id := n, free_list_page_ids := ?chain\<rparr>"
  have pool': "pool_ok (xs @ ?chain) ?g"
    using pool_ok_fresh [OF pool, of n] n(2) by simp
  have chain: "distinct ?chain" "\<forall>i \<in> set ?chain. unat i < limit ?io"
    using pool' n(2) room(2) pool_ok_less [OF pool'] by (fastforce simp: pool_ok_def)+
  have len: "?need \<le> length ?chain" using n(2) by (simp add: fresh_def grow_def)
  have "?need = div_ceil (length payload) ?cap" by (simp add: chain_need_def)
  from write_chain_ok [OF ps refl this len chain io, of 0]
  obtain io' where io': "write_chain ops ps ?chain payload ?cap ?need [0..<?need] ?io = Some io'" "evolves ?io io'"
    "\<forall>i < ?need. read_page ops io' (?chain ! i) = chain_page ps ?chain payload ?cap ?need i"
    "\<forall>j b. j \<notin> set ?chain \<longrightarrow> read_page ops ?io j = Some b \<longrightarrow> read_page ops io' j = Some b"
    unfolding ps_def txn_page_size_def by auto
  have head: "elem_at ?chain 0 = Some (?chain ! 0)" if "0 < ?need"
  proof -
    have "0 < length ?chain" using that len by linarith
    then show ?thesis by (simp only: elem_at_Some)
  qed
  have "persist_free_list ops tx = Some (if ?need > 0 then ?chain ! 0 else 0, word_of_nat (length payload),
             tx\<lparr>txn_store := (txn_store tx)\<lparr>store_io := io', write_lock := ?g\<rparr>\<rparr>)"
    unfolding persist_free_list_def Let_def ps_def [symmetric] g_def [symmetric] payload_def [symmetric]
      max_cap bind.simps chain_need_def [symmetric]
    using n(1) io'(1) head by simp
  then show ?thesis using that n(2) io' pool' len by blast
qed

text \<open>
  The commit up to the header: the buffered pages are written, the gate is passed and the free list is in
  the chain. The ids \<open>xs\<close> are those of the new tree; the buffered pages are among them.
\<close>

text \<open>After the flush the backend holds what the transaction reads.\<close>

lemma flush_read:
  assumes "inv (store_io (txn_store tx))" "write_pages ops (store_io (txn_store tx)) (writes tx) = Some io1"
    and "txn_read ops tx j = Some pg"
  obtains b where "read_page ops io1 j = Some b" "page_decode j b = Some pg"
proof (cases "map_of (rev (writes tx)) j")
  case None
  then obtain b where b: "read_page ops (store_io (txn_store tx)) j = Some b" "page_decode j b = Some pg"
    using assms(3) by (auto simp: txn_read_alt guard_read_def bind_eq_Some_conv)
  have "j \<notin> fst ` set (writes tx)" using None by (simp add: map_of_eq_None_iff)
  then show ?thesis using that b write_pages_other [OF assms(1,2)] by blast
next
  case (Some b)
  then show ?thesis using that write_pages_last [OF assms(1,2)] assms(3) by (auto simp: txn_read_alt)
qed

lemma flush_persist_ok:
  fixes tx :: "'io write_txn"
  defines "ps \<equiv> txn_page_size ops tx" and "g \<equiv> guard tx" and "io \<equiv> store_io (txn_store tx)"
  defines "payload \<equiv> free_list g @ pending_free g @ freed tx"
  defines "need \<equiv> chain_need ps (length payload)"
  assumes inv: "inv io" and ps: "page_size_ok ps"
    and pool: "pool_ok (xs @ pending_free g @ freed tx @ free_list_page_ids g) g"
    and writes: "\<forall>w \<in> set (writes tx). fst w \<in> set xs \<and> length (snd w) = ps"
    and room: "unat (next_page_id g) + (need - length (free_list_page_ids g)) < 2 ^ 64"
      "unat (next_page_id g) + (need - length (free_list_page_ids g)) \<le> limit io"
  obtains io1 io2 n tx1 pids where "write_pages ops io (writes tx) = Some io1"
    "tx1 = promote_pending (tx\<lparr>txn_store := (txn_store tx)\<lparr>store_io := io1\<rparr>\<rparr>)"
    "pids = free_list_page_ids g @ fresh (next_page_id g) n" "guard tx1 = guard (promote_pending tx)"
    "persist_free_list ops tx1 = Some (if need > 0 then pids ! 0 else 0, word_of_nat (length payload),
       tx1\<lparr>txn_store := (txn_store tx1)\<lparr>store_io := io2,
         write_lock := (guard (promote_pending tx))\<lparr>next_page_id := n, free_list_page_ids := pids\<rparr>\<rparr>\<rparr>)"
    "unat n = unat (next_page_id g) + (need - length (free_list_page_ids g))" "evolves io io2"
    "pool_ok ((xs @ pending_free (guard (promote_pending tx))) @ pids)
       ((guard (promote_pending tx))\<lparr>next_page_id := n, free_list_page_ids := pids\<rparr>)"
    "\<And>i. i < need \<Longrightarrow> read_page ops io2 (pids ! i) = chain_page ps pids payload ((ps - 19) div 8) need i"
    "need \<le> length pids" "HEADER_PAGE_ID \<notin> set xs" "HEADER_PAGE_ID \<notin> set pids"
    "\<And>j pg. j \<in> set xs \<Longrightarrow> txn_read ops tx j = Some pg \<Longrightarrow> \<exists>b. read_page ops io2 j = Some b \<and> page_decode j b = Some pg"
    "\<And>j b. j \<notin> fst ` set (writes tx) \<Longrightarrow> j \<notin> set pids \<Longrightarrow> read_page ops io j = Some b \<Longrightarrow> read_page ops io2 j = Some b"
proof -
  have lt: "unat j < limit io" if "j \<in> set xs" for j
    using pool_ok_less [OF pool, of j] that room(2) by simp
  have "\<forall>(i, bs) \<in> set (writes tx). unat i < limit io \<and> length bs = page_size ops io"
    using writes lt unfolding ps_def txn_page_size_def io_def by fastforce
  then obtain io1 where io1: "write_pages ops io (writes tx) = Some io1" "evolves io io1"
    using write_pages_ok [OF inv] by blast
  have inv1: "inv io1" using io1(2) by (simp add: evolves_def)
  let ?tx0 = "tx\<lparr>txn_store := (txn_store tx)\<lparr>store_io := io1\<rparr>\<rparr>"
  let ?tx1 = "promote_pending ?tx0"
  let ?g1 = "guard ?tx1"
  have tx0: "guard ?tx0 = g" "freed ?tx0 = freed tx" "readers (txn_store ?tx0) = readers (txn_store tx)"
    by (simp_all add: guard_def g_def)
  have g1: "?g1 = guard (promote_pending tx)"
    by (simp add: promote_pending_def Let_def guard_def set_guard_def)
  have ps1: "txn_page_size ops ?tx1 = ps"
    using io1(2) by (simp add: txn_page_size_def evolves_def ps_def io_def)
  have io_tx1: "store_io (txn_store ?tx1) = io1" by simp
  have payload1: "free_list ?g1 @ pending_free ?g1 = payload"
    unfolding promote_payload tx0 payload_def ..
  have same1: "next_page_id ?g1 = next_page_id g" "free_list_page_ids ?g1 = free_list_page_ids g"
    using tx0 by simp_all
  have pool1: "pool_ok ((xs @ pending_free ?g1) @ free_list_page_ids ?g1) ?g1"
    using promote_pool [of xs ?tx0 "free_list_page_ids g"] pool tx0 same1 by simp
  have need: "chain_need ps (length (free_list ?g1 @ pending_free ?g1)) = need"
    unfolding payload1 need_def ..
  have room1: "unat (next_page_id g) + (need - length (free_list_page_ids g)) < 2 ^ 64"
    "unat (next_page_id g) + (need - length (free_list_page_ids g)) \<le> limit (store_io (txn_store ?tx1))"
    using room io1(2) unfolding io_tx1 evolves_def by simp_all
  obtain n io2 where persist: "persist_free_list ops ?tx1 =
       Some (if need > 0 then (free_list_page_ids g @ fresh (next_page_id g) n) ! 0 else 0,
             word_of_nat (length payload),
             ?tx1\<lparr>txn_store := (txn_store ?tx1)\<lparr>store_io := io2,
               write_lock := ?g1\<lparr>next_page_id := n,
                 free_list_page_ids := free_list_page_ids g @ fresh (next_page_id g) n\<rparr>\<rparr>\<rparr>)"
    and n: "unat n = unat (next_page_id g) + (need - length (free_list_page_ids g))"
    and io2: "evolves io1 io2"
    and pool2: "pool_ok ((xs @ pending_free ?g1) @ free_list_page_ids g @ fresh (next_page_id g) n)
       (?g1\<lparr>next_page_id := n, free_list_page_ids := free_list_page_ids g @ fresh (next_page_id g) n\<rparr>)"
    and chain2: "\<And>i. i < need \<Longrightarrow> read_page ops io2 ((free_list_page_ids g @ fresh (next_page_id g) n) ! i) =
         chain_page ps (free_list_page_ids g @ fresh (next_page_id g) n) payload ((ps - 19) div 8) need i"
    and frame2: "\<And>j b. j \<notin> set (free_list_page_ids g @ fresh (next_page_id g) n) \<Longrightarrow>
       read_page ops io1 j = Some b \<Longrightarrow> read_page ops io2 j = Some b"
    and len2: "need \<le> length (free_list_page_ids g @ fresh (next_page_id g) n)"
    by (rule persist_free_list_ok [of ?tx1 "xs @ pending_free ?g1", unfolded ps1 payload1 same1 io_tx1, folded need_def,
          OF inv1 ps pool1 [unfolded same1] room1 [unfolded io_tx1]]) (rule that; assumption)
  have zero: "HEADER_PAGE_ID \<notin> set xs" "HEADER_PAGE_ID \<notin> set (free_list_page_ids g @ fresh (next_page_id g) n)"
    using pool2 unfolding pool_ok_def HEADER_PAGE_ID_def by auto
  have disjoint: "j \<notin> set (free_list_page_ids g @ fresh (next_page_id g) n)" if "j \<in> set xs" for j
    using pool2 that unfolding pool_ok_def by auto
  have read: "\<exists>b. read_page ops io2 j = Some b \<and> page_decode j b = Some pg"
    if jx: "j \<in> set xs" and rd: "txn_read ops tx j = Some pg" for j pg
    using flush_read [OF inv [unfolded io_def] io1(1) [unfolded io_def] rd] frame2 disjoint [OF jx] by metis
  have frame: "read_page ops io2 j = Some b" if "j \<notin> fst ` set (writes tx)"
      "j \<notin> set (free_list_page_ids g @ fresh (next_page_id g) n)" "read_page ops io j = Some b" for j b
    by (rule frame2 [OF that(2) write_pages_other [OF inv io1(1) that(1,3)]])
  show ?thesis
    by (rule that [OF io1(1) refl refl g1 persist [unfolded g1] n evolves_trans [OF io1(2) io2] pool2 [unfolded g1]
          chain2 len2 zero read frame])
qed

text \<open>The chain that has been written, as an open would load it.\<close>

lemma load_written_chain:
  assumes "page_size_ok ps" "need = chain_need ps (length payload)" "need \<le> length pids" "HEADER_PAGE_ID \<notin> set pids"
    and "\<And>i. i < need \<Longrightarrow> read_page ops io (pids ! i) = chain_page ps pids payload ((ps - 19) div 8) need i"
  shows "load_free_list_chain ops io (if need > 0 then pids ! 0 else 0) = Some (payload, take need pids)"
  using assms(2-5) unfolding HEADER_PAGE_ID_def
  by (intro load_free_list_chain_ok [OF assms(1) refl]) (auto simp: chain_need_def)

text \<open>The header is written last.\<close>

lemma write_header_ok:
  assumes inv: "inv io" and ps: "page_size_ok (page_size ops io)" and lim: "0 < limit io"
    and h: "hdr_page_size h = page_size ops io"
  obtains hb io' where "header_to_bytes h (page_size ops io) = Some hb" "write_page ops io HEADER_PAGE_ID hb = Some io'"
    "evolves io io'" "sync ops io' = Some io'" "read_page ops io' HEADER_PAGE_ID = Some hb" "header_from_bytes hb = Some (Inr h)"
    "\<And>j b. j \<noteq> HEADER_PAGE_ID \<Longrightarrow> read_page ops io j = Some b \<Longrightarrow> read_page ops io' j = Some b"
proof -
  have "49 \<le> page_size ops io" "page_size ops io < 2 ^ 32" using page_size_bounds [OF ps] by simp_all
  with h obtain hb where hb: "header_to_bytes h (page_size ops io) = Some hb" "length hb = page_size ops io"
    "header_from_bytes hb = Some (Inr h)"
    by (simp add: header_to_bytes_image header_from_image)
  have "unat HEADER_PAGE_ID < limit io" using lim by (simp add: HEADER_PAGE_ID_def)
  then obtain io' where io': "write_page ops io HEADER_PAGE_ID hb = Some io'"
    using write_ok [OF inv, of HEADER_PAGE_ID hb] hb(2) by auto
  have ev: "evolves io io'" using inv io' by (rule write_evolves)
  then have "sync ops io' = Some io'" by (intro sync_id) (simp add: evolves_def)
  then show ?thesis
    using that [OF hb(1) io' ev _ write_same [OF inv io'] hb(3)] write_other [OF inv io'] by blast
qed

text \<open>The chain is not touched by the header.\<close>

lemma chain_behind_header:
  assumes "page_size_ok ps" "i < need" "need \<le> length pids" "HEADER_PAGE_ID \<notin> set pids"
    and "read_page ops io (pids ! i) = chain_page ps pids payload ((ps - 19) div 8) need i"
    and "\<And>j b. j \<noteq> HEADER_PAGE_ID \<Longrightarrow> read_page ops io j = Some b \<Longrightarrow> read_page ops io' j = Some b"
  shows "read_page ops io' (pids ! i) = chain_page ps pids payload ((ps - 19) div 8) need i"
proof -
  have "pids ! i \<in> set pids" using assms(2,3) by (intro nth_mem) linarith
  then have "pids ! i \<noteq> HEADER_PAGE_ID" using assms(4) by metis
  moreover obtain bs where "chain_page ps pids payload ((ps - 19) div 8) need i = Some bs"
    using chain_page_Some [OF assms(1) refl] by metis
  ultimately show ?thesis using assms(5,6) by metis
qed

text \<open>The whole commit.\<close>

lemma commit_ok:
  fixes tx :: "'io write_txn"
  defines "ps \<equiv> txn_page_size ops tx" and "g \<equiv> guard tx" and "io \<equiv> store_io (txn_store tx)"
  defines "payload \<equiv> free_list g @ pending_free g @ freed tx"
  defines "grow \<equiv> chain_need ps (length payload) - length (free_list_page_ids g)"
  assumes inv: "inv io" and ps: "page_size_ok ps"
    and pool: "pool_ok (xs @ pending_free g @ freed tx @ free_list_page_ids g) g"
    and writes: "\<forall>w \<in> set (writes tx). fst w \<in> set xs \<and> length (snd w) = ps"
    and room: "unat (next_page_id g) + grow < 2 ^ 64" "unat (next_page_id g) + grow \<le> limit io"
  obtains tx' n where "commit ops tx r = Some tx'"
    "evolves io (store_io (txn_store tx'))" "root (txn_store tx') = r"
    "readers (txn_store tx') = readers (txn_store tx)"
    "unat n = unat (next_page_id g) + grow"
    "write_lock (txn_store tx') = (guard (promote_pending tx))
       \<lparr>next_page_id := n, free_list_page_ids := free_list_page_ids g @ fresh (next_page_id g) n\<rparr>"
    "pool_ok (xs @ pending_free (write_lock (txn_store tx')) @ free_list_page_ids (write_lock (txn_store tx')))
       (write_lock (txn_store tx'))"
    "disk_ok ops (txn_store tx')"
    "\<And>j pg. j \<in> set xs \<Longrightarrow> txn_read ops tx j = Some pg \<Longrightarrow> guard_read ops (txn_store tx') j = Some pg"
    "\<And>j b. j \<notin> fst ` set (writes tx) \<Longrightarrow> j \<notin> set (free_list_page_ids g @ fresh (next_page_id g) n) \<Longrightarrow>
       j \<noteq> HEADER_PAGE_ID \<Longrightarrow> read_page ops io j = Some b \<Longrightarrow> read_page ops (store_io (txn_store tx')) j = Some b"
proof -
  let ?need = "chain_need ps (length payload)"
  obtain io1 io2 n tx1 pids where io1: "write_pages ops io (writes tx) = Some io1"
    and tx1: "tx1 = promote_pending (tx\<lparr>txn_store := (txn_store tx)\<lparr>store_io := io1\<rparr>\<rparr>)"
    and pids: "pids = free_list_page_ids g @ fresh (next_page_id g) n"
    and g1: "guard tx1 = guard (promote_pending tx)"
    and persist: "persist_free_list ops tx1 = Some (if ?need > 0 then pids ! 0 else 0, word_of_nat (length payload),
       tx1\<lparr>txn_store := (txn_store tx1)\<lparr>store_io := io2,
         write_lock := (guard (promote_pending tx))\<lparr>next_page_id := n, free_list_page_ids := pids\<rparr>\<rparr>\<rparr>)"
    and n: "unat n = unat (next_page_id g) + (?need - length (free_list_page_ids g))"
    and io2: "evolves io io2"
    and pool2: "pool_ok ((xs @ pending_free (guard (promote_pending tx))) @ pids)
       ((guard (promote_pending tx))\<lparr>next_page_id := n, free_list_page_ids := pids\<rparr>)"
    and chain: "\<And>i. i < ?need \<Longrightarrow> read_page ops io2 (pids ! i) = chain_page ps pids payload ((ps - 19) div 8) ?need i"
    and len: "?need \<le> length pids" and zero: "HEADER_PAGE_ID \<notin> set xs" "HEADER_PAGE_ID \<notin> set pids"
    and read2: "\<And>j pg. j \<in> set xs \<Longrightarrow> txn_read ops tx j = Some pg \<Longrightarrow>
       \<exists>b. read_page ops io2 j = Some b \<and> page_decode j b = Some pg"
    and frame2: "\<And>j b. j \<notin> fst ` set (writes tx) \<Longrightarrow> j \<notin> set pids \<Longrightarrow> read_page ops io j = Some b \<Longrightarrow>
       read_page ops io2 j = Some b"
    by (rule flush_persist_ok [of tx xs, folded ps_def g_def io_def, folded payload_def,
          OF inv ps pool writes room [unfolded grow_def]]) (rule that; assumption)
  let ?g2 = "(guard (promote_pending tx))\<lparr>next_page_id := n, free_list_page_ids := pids\<rparr>"
  let ?tx2 = "tx1\<lparr>txn_store := (txn_store tx1)\<lparr>store_io := io2, write_lock := ?g2\<rparr>\<rparr>"
  let ?head = "if ?need > 0 then pids ! 0 else 0"
  let ?h = "\<lparr>hdr_page_size = ps, root_id = r, hdr_next_page_id = n, free_list_head = ?head,
      free_count = word_of_nat (length payload)\<rparr>"
  have inv2: "inv io2" and psz: "page_size ops io2 = ps" and lim2: "limit io2 = limit io"
    using io2 by (simp_all add: evolves_def ps_def txn_page_size_def io_def)
  have "0 < unat (next_page_id g)" using pool by (simp add: pool_ok_def unat_gt_0)
  then have "0 < limit io2" using room(2) lim2 by simp
  then obtain hb io3 where hb: "header_to_bytes ?h ps = Some hb" and io3: "write_page ops io2 HEADER_PAGE_ID hb = Some io3"
    and ev3: "evolves io2 io3" and sync3: "sync ops io3 = Some io3"
    and header3: "read_page ops io3 HEADER_PAGE_ID = Some hb" "header_from_bytes hb = Some (Inr ?h)"
    and frame3: "\<And>j b. j \<noteq> HEADER_PAGE_ID \<Longrightarrow> read_page ops io2 j = Some b \<Longrightarrow> read_page ops io3 j = Some b"
    using write_header_ok [OF inv2, unfolded psz, OF ps, of ?h] by auto
  have psz3: "page_size ops io3 = ps" using ev3 psz by (simp add: evolves_def)
  let ?tx3 = "?tx2\<lparr>txn_store := (txn_store ?tx2)\<lparr>store_io := io3, root := r\<rparr>\<rparr>"
  have guard2: "guard ?tx2 = ?g2" "store_io (txn_store ?tx2) = io2" "txn_page_size ops ?tx2 = ps"
    using psz by (simp_all add: guard_def txn_page_size_def)
  have commit: "commit ops tx r = Some ?tx3"
    using io1 tx1 persist hb io3 sync3 guard2
    by (simp add: commit_def io_def [symmetric] Let_def)
  have chain3: "read_page ops io3 (pids ! i) = chain_page ps pids payload ((ps - 19) div 8) ?need i" if "i < ?need" for i
    by (rule chain_behind_header [OF ps that len zero(2) chain [OF that] frame3])
  have st3: "store_io (txn_store ?tx3) = io3" "root (txn_store ?tx3) = r" "write_lock (txn_store ?tx3) = ?g2"
    "readers (txn_store ?tx3) = readers (txn_store tx)"
    by (simp_all add: tx1)
  have payload': "free_list ?g2 @ pending_free ?g2 = payload"
    using promote_payload [of tx] by (simp add: payload_def g_def)
  have disk: "disk_ok ops (txn_store ?tx3)"
    using header3 load_written_chain [OF ps refl len zero(2) chain3] psz3 payload'
    unfolding disk_ok_def chain_used_def Let_def st3 by (intro exI [of _ hb] exI [of _ ?h]) simp
  have read: "guard_read ops (txn_store ?tx3) j = Some pg" if "j \<in> set xs" "txn_read ops tx j = Some pg" for j pg
  proof -
    have "j \<noteq> HEADER_PAGE_ID" using zero(1) that(1) by auto
    then show ?thesis using read2 [OF that] frame3 by (auto simp: guard_read_def bind_eq_Some_conv)
  qed
  have frame: "read_page ops (store_io (txn_store ?tx3)) j = Some b"
    if "j \<notin> fst ` set (writes tx)" "j \<notin> set (free_list_page_ids g @ fresh (next_page_id g) n)" "j \<noteq> HEADER_PAGE_ID"
      "read_page ops io j = Some b" for j b
    using frame3 [OF that(3) frame2 [OF that(1) that(2) [folded pids] that(4)]] by (simp only: st3)
  have pool3: "pool_ok (xs @ pending_free (write_lock (txn_store ?tx3)) @ free_list_page_ids (write_lock (txn_store ?tx3)))
      (write_lock (txn_store ?tx3))"
    using pool2 unfolding st3 by simp
  have ev: "evolves io (store_io (txn_store ?tx3))" unfolding st3 by (rule evolves_trans [OF io2 ev3])
  have lock: "write_lock (txn_store ?tx3) = (guard (promote_pending tx))
      \<lparr>next_page_id := n, free_list_page_ids := free_list_page_ids g @ fresh (next_page_id g) n\<rparr>"
    using st3(3) pids by simp
  show ?thesis
    by (rule that [OF commit ev st3(2,4) n [folded grow_def] lock pool3 disk read frame])
qed

end

section \<open>Properties\<close>


end
