(* ===== verification/Put.thy ===== *)
theory Put
  imports Commit
begin

text \<open>
  \<open>put\<close> and \<open>get\<close> of \<open>src/01-btree/src/storage/tree.rs\<close> on a store that satisfies the invariant, over
  any backend that keeps the contract.
\<close>

section \<open>The new root\<close>

text \<open>What \<open>put\<close> does with the result for the old root.\<close>

definition place_root ::
    "'io page_io \<Rightarrow> 'io write_txn \<Rightarrow> insert_result \<Rightarrow> (page_id \<times> 'io write_txn) option" where
  "place_root ops tx1 res =
     (case res of
        Single new_node \<Rightarrow>
          do { a \<leftarrow> txn_alloc tx1;
               tx2 \<leftarrow> txn_write ops (snd a) (fst a) new_node;
               Some (fst a, tx2) }
      | Split left sep_key right \<Rightarrow>
          do { a \<leftarrow> txn_alloc tx1;
               tx2 \<leftarrow> txn_write ops (snd a) (fst a) left;
               b \<leftarrow> txn_alloc tx2;
               tx3 \<leftarrow> txn_write ops (snd b) (fst b) right;
               new_root \<leftarrow> internal_push_key internal_empty sep_key;
               let new_root = internal_push_child (internal_push_child new_root (fst a)) (fst b);
               c \<leftarrow> txn_alloc tx3;
               tx4 \<leftarrow> txn_write ops (snd c) (fst c) (Internal new_root);
               Some (fst c, tx4) })"

lemma tree_put_unfold:
  "tree_put ops tx key val =
     (case check_limits (txn_page_size ops tx) key val of
        Inl e \<Rightarrow> Some (Inl e, tx)
      | Inr _ \<Rightarrow>
          do { pg \<leftarrow> txn_read ops tx (base_root tx);
               r \<leftarrow> insert_node ops tx pg key val (txn_page_size ops tx);
               s \<leftarrow> place_root ops (txn_free (fst r) (base_root tx)) (snd r);
               tx' \<leftarrow> commit ops (snd s) (fst s);
               Some (Inr (), tx') })"
  by (simp add: tree_put_def insert_node_def place_root_def Let_def split: sum.split)

text \<open>The transaction of a \<open>put\<close> and its new root, up to the commit.\<close>

definition put_prepared ::
    "'io page_io \<Rightarrow> 'io write_txn \<Rightarrow> bytes \<Rightarrow> bytes \<Rightarrow> (page_id \<times> 'io write_txn) option" where
  "put_prepared ops tx key val =
     do { pg \<leftarrow> txn_read ops tx (base_root tx);
          r \<leftarrow> insert_node ops tx pg key val (txn_page_size ops tx);
          place_root ops (txn_free (fst r) (base_root tx)) (snd r) }"

lemma tree_put_prepared:
  "tree_put ops tx key val =
     (case check_limits (txn_page_size ops tx) key val of
        Inl e \<Rightarrow> Some (Inl e, tx)
      | Inr _ \<Rightarrow>
          do { s \<leftarrow> put_prepared ops tx key val;
               tx' \<leftarrow> commit ops (snd s) (fst s);
               Some (Inr (), tx') })"
  by (simp add: tree_put_unfold put_prepared_def split: sum.split)

lemma place_root_single:
  assumes tx: "txn_page_size ops tx = ps" "pool_ok xs (guard tx)"
    and room: "unat (next_page_id (guard tx)) + 3 < 2 ^ 64"
    and u: "subtree_ok ps h (txn_read ops tx) None None u" "set (below u) \<subseteq> set xs"
  obtains a tx' where "place_root ops tx (Single (mk_page 0 (node_of u))) = Some (a, tx')"
    "txn_ext ops [a] [] tx tx'" "rep (txn_read ops tx') (retag a u)"
proof -
  have fit: "node_fits (txn_page_size ops tx) (node_of u)"
    using u(1) tx(1) by (cases u) (auto simp: subtree_ok_def)
  have room': "unat (next_page_id (guard tx)) < 2 ^ 64 - 1" using room by simp
  have rep: "below_rep (txn_read ops tx) u" using u(1) by (simp add: subtree_ok_def)
  obtain a tx1 tx2 where a: "txn_alloc tx = Some (a, tx1)"
    "txn_write ops tx1 a (mk_page 0 (node_of u)) = Some tx2" "txn_ext ops [a] [] tx tx2"
    "rep (txn_read ops tx2) (retag a u)"
    using place_node [OF tx(2) u(2) rep fit room'] by blast
  then show ?thesis using that [of a tx2] by (simp add: place_root_def)
qed

lemma place_root_split:
  assumes ps: "page_size_ok ps" and tx: "txn_page_size ops tx = ps" "pool_ok xs (guard tx)"
    and room: "unat (next_page_id (guard tx)) + 3 < 2 ^ 64"
    and u: "subtree_ok ps h (txn_read ops tx) None (Some s) u" "set (below u) \<subseteq> set xs"
    and v: "subtree_ok ps h (txn_read ops tx) (Some s) None v" "set (below v) \<subseteq> set xs"
    and s: "length s \<le> max_kv_size ps" and filled: "contents u \<noteq> []" "contents v \<noteq> []"
  obtains a tx1 b c tx' where "txn_alloc tx = Some (a, tx1)"
    "place_root ops tx (Split (mk_page 0 (node_of u)) s (mk_page 0 (node_of v))) = Some (c, tx')"
    "txn_ext ops [a, b, c] [] tx tx'" "rep (txn_read ops tx') (CNode c [s] [retag a u, retag b v])"
    "bal (Suc h) (CNode c [s] [retag a u, retag b v])" "sized ps (CNode c [s] [retag a u, retag b v])"
    "ordered None None (CNode c [s] [retag a u, retag b v])"
proof -
  have room': "unat (next_page_id (guard tx)) < 2 ^ 64 - 2" using room by simp
  obtain a tx1 tx2 b tx3 tx4 where ab: "txn_alloc tx = Some (a, tx1)"
    "txn_write ops tx1 a (mk_page 0 (node_of u)) = Some tx2" "txn_alloc tx2 = Some (b, tx3)"
    "txn_write ops tx3 b (mk_page 0 (node_of v)) = Some tx4" and ext: "txn_ext ops [a, b] [] tx tx4"
    and children: "child_ok ps h (txn_read ops tx4) (retag a u)" "child_ok ps h (txn_read ops tx4) (retag b v)"
    using place_two [OF tx room' u v filled] by metis
  let ?t = "CNode 0 [s] [retag a u, retag b v]"
  have "29 + length s \<le> ps" using s page_size_bounds [OF ps] by simp
  then have t: "subtree_ok ps (Suc h) (txn_read ops tx4) None None ?t"
    using children u(1) v(1) s page_size_bounds [OF ps]
    by (simp add: subtree_node keys_small_def length_enc_key subtree_ok_def child_ok_def)
  have small: "keys_small [s]" using t by (simp add: subtree_node)
  have fit: "node_fits (txn_page_size ops tx4) (node_of ?t)"
    using t txn_ext_frame(6) [OF ext] tx(1) by (simp add: subtree_ok_def)
  have pool: "pool_ok (xs @ [a, b]) (guard tx4)" by (rule txn_ext_pool [OF ext tx(2)])
  have room4: "unat (next_page_id (guard tx4)) < 2 ^ 64 - 1"
    using txn_ext_frame(10) [OF ext] room by simp
  have below4: "set (below ?t) \<subseteq> set (xs @ [a, b])" using u(2) v(2) by auto
  have rep4: "below_rep (txn_read ops tx4) ?t" using t by (simp add: subtree_ok_def)
  obtain c tx5 tx6 where c: "txn_alloc tx4 = Some (c, tx5)"
    "txn_write ops tx5 c (mk_page 0 (node_of ?t)) = Some tx6" "txn_ext ops [c] [] tx4 tx6"
    "rep (txn_read ops tx6) (retag c ?t)"
    using place_node [OF pool below4 rep4 fit room4] by blast
  have push: "internal_push_key internal_empty s = Some (mk_internal 0 [s] [])"
    using internal_push_key_mk [of "[]" s 0 "[]"] small by (simp add: mk_internal_Nil)
  have "place_root ops tx (Split (mk_page 0 (node_of u)) s (mk_page 0 (node_of v))) = Some (c, tx6)"
    using ab c(1,2) push by (simp add: place_root_def)
  moreover have "txn_ext ops [a, b, c] [] tx tx6" using txn_ext_trans [OF ext c(3)] by simp
  ultimately show ?thesis
    using that [of a tx1 c tx6 b] ab(1) c(4) t by (simp add: subtree_ok_def)
qed

lemma place_root_ok:
  assumes ps: "page_size_ok ps" and tx: "txn_page_size ops tx = ps" "pool_ok xs (guard tx)"
    and room: "unat (next_page_id (guard tx)) + 3 < 2 ^ 64"
    and res: "grown ps h (txn_read ops tx) None None kvs M res" and M: "set_mset M \<subseteq> set xs"
  obtains i tx' A t h' where "place_root ops tx res = Some (i, tx')" "txn_ext ops A [] tx tx'"
    "length A \<le> 3" "tid t = i" "h' \<le> Suc h" "bal h' t" "sized ps t" "ordered None None t"
    "rep (txn_read ops tx') t" "contents t = kvs" "mset (ids t) = M + mset A" "i \<in> set A" "h \<le> h'"
  using res
proof cases
  case (grown_single u)
  have below: "set (below u) \<subseteq> set xs" using M unfolding grown_single(2) by simp
  obtain a tx' where "place_root ops tx (Single (mk_page 0 (node_of u))) = Some (a, tx')"
    "txn_ext ops [a] [] tx tx'" "rep (txn_read ops tx') (retag a u)"
    using place_root_single [OF tx room grown_single(4) below] .
  then show ?thesis
    using that [of a tx' "[a]" "retag a u" h] grown_single by (simp add: subtree_ok_def)
next
  case (grown_split s u v)
  have below: "set (below u) \<subseteq> set xs" "set (below v) \<subseteq> set xs" using M unfolding grown_split(2) by simp_all
  obtain a tx1 b c tx' where
    "place_root ops tx (Split (mk_page 0 (node_of u)) s (mk_page 0 (node_of v))) = Some (c, tx')"
    "txn_ext ops [a, b, c] [] tx tx'" "rep (txn_read ops tx') (CNode c [s] [retag a u, retag b v])"
    "bal (Suc h) (CNode c [s] [retag a u, retag b v])" "sized ps (CNode c [s] [retag a u, retag b v])"
    "ordered None None (CNode c [s] [retag a u, retag b v])"
    using place_root_split [OF ps tx room grown_split(4) below(1) grown_split(5) below(2) grown_split(8-10)] by metis
  then show ?thesis
    using that [of c tx' "[a, b, c]" "CNode c [s] [retag a u, retag b v]" "Suc h"] grown_split(1-3)
    by (simp add: ac_simps)
qed

section \<open>Lookup\<close>

lemma leaf_lookup:
  assumes "leaf_small kvs" "sorted_keys (map fst kvs)"
  shows "get_loop ops st (Leaf (mk_leaf i kvs)) key = Some (map_of kvs key)"
proof -
  let ?p = "lower_bound (map fst kvs) key"
  note at = map_of_at [OF assms(2), of key]
  show ?thesis
  proof (cases "?p < length kvs \<and> fst (kvs ! ?p) = key")
    case True
    then have "search_result (map fst kvs) key = Inr (as_u16 ?p)" by (simp add: search_result_def)
    with True at assms show ?thesis
      by (subst get_loop.simps) (simp add: leaf_search_mk leaf_get_val_mk Let_def)
  next
    case False
    then have "search_result (map fst kvs) key = Inl (as_u16 ?p)" by (auto simp: search_result_def Let_def)
    with False at assms show ?thesis
      by (subst get_loop.simps) (auto simp: leaf_search_mk Let_def)
  qed
qed

lemma get_loop_ok:
  assumes "rep (guard_read ops st) t" "sized ps t" "ordered lo hi t"
  shows "get_loop ops st (mk_page (tid t) (node_of t)) key = Some (map_of (contents t) key)"
  using assms
proof (induction t arbitrary: lo hi)
  case (CLeaf i kvs)
  then show ?case by (simp add: leaf_lookup)
next
  case (CNode i ks ts)
  let ?p = "upper_bound ks key"
  from CNode.prems have chain: "chain lo ks ts hi" and small: "keys_small ks" by simp_all
  have len: "length ts = Suc (length ks)" using chain by (rule chain_length)
  have p: "?p \<le> length ks" "?p < length ts" using len by (simp_all add: less_Suc_eq_le)
  let ?c = "ts ! ?p"
  have c: "?c \<in> set ts" using p by simp
  have rep: "rep (guard_read ops st) ?c" using CNode.prems(1) c by simp
  then have read: "guard_read ops st (tid ?c) = Some (mk_page (tid ?c) (node_of ?c))" by (simp add: rep_below)
  have IH: "get_loop ops st (mk_page (tid ?c) (node_of ?c)) key = Some (map_of (contents ?c) key)"
    using CNode.prems(2) c chain_nth [OF chain p(1)] by (intro CNode.IH [OF c rep]) auto
  have "internal_child_index (mk_internal i ks (map tid ts)) key = Some (as_u16 ?p)"
    using chain_keys [OF chain] small by (simp add: internal_child_index_mk)
  moreover have "internal_get_child (mk_internal i ks (map tid ts)) (as_u16 ?p) = Some (tid ?c)"
    using internal_get_child_mk [of ?p "map tid ts" i ks] keys_small_length [OF small] p by simp
  ultimately show ?case
    using IH map_of_contents_child [OF chain, of key] read by (subst get_loop.simps) simp
qed

lemma tree_get_ok:
  assumes "tree_ok ops h t st"
  shows "tree_get ops st key = Some (map_of (contents t) key)"
proof -
  have "guard_read ops st (root st) = Some (mk_page (tid t) (node_of t))"
    using assms by (simp add: tree_ok_def rep_below)
  then show ?thesis
    using assms get_loop_ok [of ops st t "page_size ops (store_io st)" None None key] by (simp add: tree_ok_def tree_get_def)
qed

lemma engine_get_ok:
  assumes "tree_ok ops h t st"
  shows "engine_get ops st key = Some (map_of (contents t) key, st)"
proof -
  have "guard_read ops (enter_read st) = guard_read ops st"
    by (rule guard_read_cong) (simp add: enter_read_def)
  then have "tree_ok ops h t (enter_read st)"
    using assms by (simp add: tree_ok_def enter_read_def)
  from tree_get_ok [OF this] show ?thesis
    by (simp add: engine_get_def Let_def enter_read_def drop_read_def)
qed

section \<open>Insertion\<close>

text \<open>
  The highest value \<open>next_page_id\<close> may take in a \<open>put\<close> on a tree of height \<open>h\<close>: two pages per level,
  three for a new root, and what the chain grows by.
\<close>

definition put_reach :: "nat \<Rightarrow> nat \<Rightarrow> writer_state \<Rightarrow> nat" where
  "put_reach ps h g = unat (next_page_id g) + 2 * h + 3 +
     (chain_need ps (length (free_list g) + length (pending_free g) + Suc h) - length (free_list_page_ids g))"

lemma rep_mono:
  "rep pg t \<Longrightarrow> (\<And>i p. i \<in> set (ids t) \<Longrightarrow> pg i = Some p \<Longrightarrow> pg' i = Some p) \<Longrightarrow> rep pg' t"
proof (induction pg t rule: rep.induct)
  case (1 pg i kvs)
  then show ?case by simp
next
  case (2 pg i ks ts)
  have "rep pg' t" if t: "t \<in> set ts" for t
    using 2(2) t by (intro 2(1) [OF t]) (auto intro!: 2(3))
  then show ?case using 2(2) 2(3) [of i] by simp
qed

lemma engine_put_prepared:
  assumes "put_prepared ops (begin_write st) key val = Some (i, tx)" "commit ops tx i = Some tx'"
    and "length key + length val \<le> max_kv_size (page_size ops (store_io st))"
  shows "engine_put ops st key val = Some (Inr (), txn_store tx')"
proof -
  have "check_limits (txn_page_size ops (begin_write st)) key val = Inr ()"
    using assms(3) by (simp add: check_limits_ok txn_page_size_def begin_write_def)
  then show ?thesis using assms(1,2) by (simp add: engine_put_def tree_put_prepared)
qed

text \<open>
  A transaction \<open>tx\<close> on the store \<open>st\<close> with the tree \<open>t\<close> that is ready to commit the tree \<open>t'\<close>: it has
  allocated the pages \<open>A\<close> and freed the pages \<open>F\<close> of the old path, the root last.
\<close>

definition prepared ::
    "'io page_io \<Rightarrow> nat \<Rightarrow> ctree \<Rightarrow> 'io store \<Rightarrow> page_id list \<Rightarrow> page_id list \<Rightarrow> nat \<Rightarrow> ctree \<Rightarrow> 'io write_txn \<Rightarrow> bool"
where
  "prepared ops h t st A F h' t' tx \<longleftrightarrow> txn_ext ops A F (begin_write st) tx \<and>
     Suc h \<le> length A \<and> length A \<le> 2 * h + 3 \<and> length F = Suc h \<and> mset (ids t') + mset F = mset (ids t) + mset A \<and>
     set A \<subseteq> set (ids t') \<and> tid t' \<in> set A \<and> set F \<subseteq> set (ids t) \<and> last F = tid t \<and>
     h \<le> h' \<and> bal h' t' \<and> sized (page_size ops (store_io st)) t' \<and> ordered None None t' \<and> rep (txn_read ops tx) t'"

text \<open>The insertion up to the commit: the buffered tree holds the new contents.\<close>

lemma put_buffered:
  fixes ops :: "'io page_io" and st :: "'io store"
  defines "ps \<equiv> page_size ops (store_io st)" and "g \<equiv> write_lock st"
  assumes tree: "tree_ok ops h t st" and ps: "page_size_ok ps"
    and pool: "pool_ok (ids t @ pending_free g @ free_list_page_ids g) g"
    and kv: "length key + length val \<le> max_kv_size ps"
    and room: "unat (next_page_id g) + 2 * h + 3 < 2 ^ 64"
  obtains tx A F t' h' where "put_prepared ops (begin_write st) key val = Some (tid t', tx)"
    "prepared ops h t st A F h' t' tx" "h' \<le> Suc h" "contents t' = upsert key val (contents t)"
proof -
  let ?tx = "begin_write st" and ?xs = "ids t @ pending_free g @ free_list_page_ids g"
  have start: "guard ?tx = g" "base_root ?tx = tid t" "txn_page_size ops ?tx = ps"
    using tree by (simp_all add: begin_write_def guard_def txn_page_size_def tree_ok_def ps_def g_def)
  have sub: "subtree_ok ps h (txn_read ops ?tx) None None t"
    using tree by (simp add: tree_ok_def subtree_ok_def rep_below ps_def)
  have range: "in_range None None key" by (simp add: in_range_def)
  have pool0: "pool_ok ?xs (guard ?tx)" using pool start by simp
  have below: "set (below t) \<subseteq> set ?xs" by (auto simp: ids_below)
  have room0: "unat (next_page_id (guard ?tx)) + 2 * h < 2 ^ 64" using room start by simp
  obtain tx1 res A F M where
    1: "insert_node ops ?tx (mk_page (tid t) (node_of t)) key val ps = Some (tx1, res)"
    "txn_ext ops A F ?tx tx1" "length A \<le> 2 * h" "length F = h" "set F \<subseteq> set (below t)"
    "grown ps h (txn_read ops tx1) None None (upsert key val (contents t)) M res"
    "M + mset F = mset (below t) + mset A" "h \<le> length A"
    using insert_node_ok [OF ps kv sub range start(3) pool0 below room0, of "tid t"] by blast
  let ?tx2 = "txn_free tx1 (tid t)"
  have ext2: "txn_ext ops A (F @ [tid t]) ?tx ?tx2"
    using txn_ext_trans [OF 1(2) txn_free_ext] by simp
  have read2: "txn_read ops ?tx2 = txn_read ops tx1"
    by (simp add: fun_eq_iff txn_ext_read [OF txn_free_ext])
  have pool2: "pool_ok (?xs @ A) (guard ?tx2)" by (rule txn_ext_pool [OF ext2 pool0])
  have ps2: "txn_page_size ops ?tx2 = ps" using txn_ext_frame(6) [OF ext2] start by simp
  have room2: "unat (next_page_id (guard ?tx2)) + 3 < 2 ^ 64"
    using txn_ext_frame(10) [OF ext2] 1(3) room start by simp
  have "set_mset M \<subseteq> set_mset (mset (below t) + mset A)" unfolding 1(7) [symmetric] by simp
  then have M: "set_mset M \<subseteq> set (?xs @ A)" using below by auto
  obtain i tx3 B t' h' where
    3: "place_root ops ?tx2 res = Some (i, tx3)" "txn_ext ops B [] ?tx2 tx3" "length B \<le> 3" "tid t' = i"
    "h' \<le> Suc h" "bal h' t'" "sized ps t'" "ordered None None t'" "rep (txn_read ops tx3) t'"
    "contents t' = upsert key val (contents t)" "mset (ids t') = M + mset B" "i \<in> set B" "h \<le> h'"
    using place_root_ok [OF ps ps2 pool2 room2 1(6) [folded read2] M] by blast
  have ext3: "txn_ext ops (A @ B) (F @ [tid t]) ?tx tx3" using txn_ext_trans [OF ext2 3(2)] by simp
  have ms: "mset (ids t') + mset (F @ [tid t]) = mset (ids t) + mset (A @ B)"
    using 1(7) 3(11) by (simp add: ids_below ac_simps)
  have F: "set (F @ [tid t]) \<subseteq> set (ids t)" using 1(5) by (auto simp: ids_below)
  have AB: "set (A @ B) \<subseteq> set (ids t')"
  proof
    fix j assume j: "j \<in> set (A @ B)"
    then have "j \<notin> set ?xs" using txn_ext_disjoint [OF ext3 pool0] by blast
    then have "j \<notin> set (F @ [tid t])" using F by auto
    moreover have "j \<in># mset (ids t') + mset (F @ [tid t])" unfolding ms using j by simp
    ultimately show "j \<in> set (ids t')" by (simp only: union_iff set_mset_mset) blast
  qed
  have "txn_read ops ?tx (base_root ?tx) = Some (mk_page (tid t) (node_of t))"
    using tree start by (simp add: tree_ok_def rep_below)
  then have "put_prepared ops ?tx key val = Some (tid t', tx3)"
    using 1(1) 3(1,4) start by (simp add: put_prepared_def)
  moreover have "prepared ops h t st (A @ B) (F @ [tid t]) h' t' tx3"
    using ext3 1(3,4,8) 3 ms AB F unfolding prepared_def ps_def by (cases B) auto
  ultimately show ?thesis using that 3(5,10) by blast
qed

lemma store_put_prepared:
  assumes st: "store_ok ops io_ok h t st" and kv: "length key + length val \<le> max_kv_size (page_size ops (store_io st))"
    and room: "put_reach (page_size ops (store_io st)) h (write_lock st) < 2 ^ 64"
  obtains tx A F t' h' where "put_prepared ops (begin_write st) key val = Some (tid t', tx)"
    "prepared ops h t st A F h' t' tx" "h' \<le> Suc h" "contents t' = upsert key val (contents t)"
proof -
  have tree: "tree_ok ops h t st" and ps: "page_size_ok (page_size ops (store_io st))"
    and pool: "pool_ok (ids t @ pending_free (write_lock st) @ free_list_page_ids (write_lock st)) (write_lock st)"
    using st by (simp_all add: store_ok_def)
  have room0: "unat (next_page_id (write_lock st)) + 2 * h + 3 < 2 ^ 64" using room by (simp add: put_reach_def)
  show ?thesis by (rule put_buffered [OF tree ps pool kv room0]) (rule that; assumption)
qed

text \<open>
  What a put does to the numbers of pages: the tree does not shrink, no page is lost or made up, the ids
  in use outside the chain grow only when the free list has been used up, the pages that waited and the
  old path are free or wait, and the chain grows only to what the free pages need.
\<close>

definition spends :: "nat \<Rightarrow> nat \<Rightarrow> ctree \<Rightarrow> writer_state \<Rightarrow> nat \<Rightarrow> ctree \<Rightarrow> writer_state \<Rightarrow> bool" where
  "spends ps h t g h' t' g' \<longleftrightarrow> h \<le> h' \<and> length (ids t) \<le> length (ids t') \<and>
     unat (next_page_id g') + length (ids t @ free_list g @ pending_free g @ free_list_page_ids g) =
       unat (next_page_id g) + length (ids t' @ free_list g' @ pending_free g' @ free_list_page_ids g') \<and>
     (unat (next_page_id g') + length (free_list_page_ids g) = unat (next_page_id g) + length (free_list_page_ids g') \<or>
      length (free_list g' @ pending_free g') = length (pending_free g) + Suc h) \<and>
     length (pending_free g) + Suc h \<le> length (free_list g' @ pending_free g') \<and>
     length (free_list_page_ids g') =
       max (length (free_list_page_ids g)) (chain_need ps (length (free_list g' @ pending_free g')))"

text \<open>The pages a prepared transaction has used, once its commit has stored the free list.\<close>

lemma prepared_spends:
  fixes st :: "'io store"
  assumes prep: "prepared ops h t st A F h' t' tx"
    and exact: "length (free_list g' @ pending_free g') =
         length (free_list (guard tx)) + length (pending_free (write_lock st)) + Suc h"
      "length (free_list_page_ids g') = max (length (free_list_page_ids (write_lock st)))
         (chain_need ps (length (free_list (guard tx)) + length (pending_free (write_lock st)) + Suc h))"
      "unat (next_page_id g') + length (free_list_page_ids (write_lock st)) =
         unat (next_page_id (guard tx)) + length (free_list_page_ids g')"
  shows "spends ps h t (write_lock st) h' t' g'"
proof -
  from prep have ext: "txn_ext ops A F (begin_write st) tx" and A: "Suc h \<le> length A" and h: "h \<le> h'"
    and F: "length F = Suc h" and ms: "mset (ids t') + mset F = mset (ids t) + mset A"
    by (simp_all add: prepared_def)
  have start: "guard (begin_write st) = write_lock st" by (simp add: begin_write_def guard_def)
  note free = txn_ext_count [OF ext, unfolded start]
  have "size (mset (ids t') + mset F) = size (mset (ids t) + mset A)" by (simp only: ms)
  then have tree: "length (ids t') + Suc h = length (ids t) + length A" using F by simp
  have "unat (next_page_id g') + length (free_list_page_ids (write_lock st)) =
        unat (next_page_id (write_lock st)) + length (free_list_page_ids g') \<or>
      length (free_list g' @ pending_free g') = length (pending_free (write_lock st)) + Suc h"
    using txn_ext_frame(12) [OF ext] unfolding start exact by auto
  then show ?thesis
    using h A tree free exact unfolding spends_def by simp
qed

text \<open>What a prepared transaction brings to its commit.\<close>

lemma prepared_ready:
  fixes ops :: "'io page_io" and st :: "'io store"
  defines "ps \<equiv> page_size ops (store_io st)" and "g \<equiv> write_lock st"
  assumes prep: "prepared ops h t st A F h' t' tx" and pool: "pool_ok (ids t @ pending_free g @ free_list_page_ids g) g"
  shows "store_io (txn_store tx) = store_io st" "readers (txn_store tx) = readers st" "root (txn_store tx) = root st"
    "txn_page_size ops tx = ps" "freed tx = F" "pending_free (guard tx) = pending_free g"
    "free_list_page_ids (guard tx) = free_list_page_ids g"
    "unat (next_page_id g) \<le> unat (next_page_id (guard tx))"
    "unat (next_page_id (guard tx)) \<le> unat (next_page_id g) + 2 * h + 3"
    "length (free_list (guard tx)) \<le> length (free_list g)"
    "pool_ok (ids t' @ pending_free (guard tx) @ freed tx @ free_list_page_ids (guard tx)) (guard tx)"
    "\<forall>w \<in> set (writes tx). fst w \<in> set A \<and> length (snd w) = ps" "set A \<subseteq> set (ids t')"
    "j \<in> set (ids t @ pending_free g @ free_list_page_ids g) \<Longrightarrow> j \<notin> set A"
    "unat (next_page_id (guard tx)) +
       (chain_need ps (length (free_list (guard tx) @ pending_free (guard tx) @ freed tx)) -
        length (free_list_page_ids (guard tx))) \<le> put_reach ps h g"
    "chain_need ps (length (free_list (guard tx) @ pending_free (guard tx) @ freed tx)) \<le>
       chain_need ps (length (free_list g) + length (pending_free g) + Suc h)"
proof -
  let ?xs = "ids t @ pending_free g @ free_list_page_ids g"
  from prep have ext: "txn_ext ops A F (begin_write st) tx" and len: "length A \<le> 2 * h + 3" "length F = Suc h"
    and ms: "mset (ids t') + mset F = mset (ids t) + mset A" and A: "set A \<subseteq> set (ids t')"
    by (simp_all add: prepared_def)
  have start: "guard (begin_write st) = g" "freed (begin_write st) = []" "writes (begin_write st) = []"
    "txn_store (begin_write st) = st" "txn_page_size ops (begin_write st) = ps"
    by (simp_all add: begin_write_def guard_def txn_page_size_def ps_def g_def)
  note fr = txn_ext_frame [OF ext, unfolded start]
  show "store_io (txn_store tx) = store_io st" "readers (txn_store tx) = readers st" "root (txn_store tx) = root st"
    "txn_page_size ops tx = ps" "freed tx = F" "pending_free (guard tx) = pending_free g"
    "free_list_page_ids (guard tx) = free_list_page_ids g"
    "unat (next_page_id g) \<le> unat (next_page_id (guard tx))" "set A \<subseteq> set (ids t')"
    "unat (next_page_id (guard tx)) \<le> unat (next_page_id g) + 2 * h + 3"
    using fr len A by simp_all
  show fl: "length (free_list (guard tx)) \<le> length (free_list g)"
    using txn_ext_count [OF ext, unfolded start] fr(10) by linarith
  show "pool_ok (ids t' @ pending_free (guard tx) @ freed tx @ free_list_page_ids (guard tx)) (guard tx)"
  proof (rule pool_ok_perm)
    show "pool_ok (?xs @ A) (guard tx)" by (rule txn_ext_pool [OF ext]) (simp add: start pool)
    have "mset (ids t' @ pending_free g @ F @ free_list_page_ids g) =
        (mset (ids t') + mset F) + (mset (pending_free g) + mset (free_list_page_ids g))"
      by (simp add: ac_simps)
    then show "mset (ids t' @ pending_free (guard tx) @ freed tx @ free_list_page_ids (guard tx)) = mset (?xs @ A)"
      unfolding fr ms by (simp add: ac_simps)
  qed
  show "\<forall>w \<in> set (writes tx). fst w \<in> set A \<and> length (snd w) = ps"
    using txn_ext_writes [OF ext, unfolded start] by auto
  show "j \<in> set ?xs \<Longrightarrow> j \<notin> set A" using txn_ext_disjoint [OF ext, of ?xs j] pool start by simp
  show need: "chain_need ps (length (free_list (guard tx) @ pending_free (guard tx) @ freed tx)) \<le>
      chain_need ps (length (free_list g) + length (pending_free g) + Suc h)"
    unfolding chain_need_def using fl len(2) fr(5,7) by (intro div_ceil_mono) simp
  show "unat (next_page_id (guard tx)) +
      (chain_need ps (length (free_list (guard tx) @ pending_free (guard tx) @ freed tx)) -
       length (free_list_page_ids (guard tx))) \<le> put_reach ps h g"
    unfolding put_reach_def fr(8) using fr(10) len(1) need by linarith
qed

context page_backend
begin

text \<open>
  The commit of a prepared insertion: the new state, what happened to the free pages, and what a
  reader of the old tree, or of an older one whose pages still wait to be free, sees.
\<close>

text \<open>The pages of the old tree and those that wait are not written by the commit.\<close>

lemma prepared_untouched:
  fixes st :: "'io store"
  assumes prep: "prepared ops h t st A F h' t' tx"
    and pool: "pool_ok (ids t @ pending_free (write_lock st) @ free_list_page_ids (write_lock st)) (write_lock st)"
    and j: "j \<in> set (ids t) \<union> set (pending_free (write_lock st))"
  shows "j \<notin> fst ` set (writes tx)" "j \<notin> set (free_list_page_ids (guard tx) @ fresh (next_page_id (guard tx)) n)"
    "j \<noteq> HEADER_PAGE_ID"
proof -
  note ready = prepared_ready [OF prep pool]
  have jx: "j \<in> set (ids t @ pending_free (write_lock st) @ free_list_page_ids (write_lock st))" using j by auto
  show "j \<notin> fst ` set (writes tx)" using ready(12) ready(14) [OF jx] by auto
  have less: "j \<noteq> HEADER_PAGE_ID" "unat j < unat (next_page_id (write_lock st))"
    using pool_ok_less [OF pool jx] by (auto simp: HEADER_PAGE_ID_def)
  have "j \<notin> set (free_list_page_ids (write_lock st))" using pool j by (auto simp: pool_ok_def)
  moreover have "j \<notin> set (fresh (next_page_id (guard tx)) n)"
    using less(2) ready(8) set_fresh [of j "next_page_id (guard tx)" n] by auto
  ultimately show "j \<notin> set (free_list_page_ids (guard tx) @ fresh (next_page_id (guard tx)) n)"
    using ready(7) by simp
  show "j \<noteq> HEADER_PAGE_ID" by (rule less(1))
qed

lemma commit_prepared:
  fixes st :: "'io store"
  defines "ps \<equiv> page_size ops (store_io st)" and "g \<equiv> write_lock st"
  assumes st: "store_ok ops inv h t st"
    and room: "put_reach ps h g < 2 ^ 64" "put_reach ps h g \<le> limit (store_io st)"
    and prep: "prepared ops h t st A F h' t' tx"
  obtains tx' st' where "commit ops tx (tid t') = Some tx'" "txn_store tx' = st'" "store_ok ops inv h' t' st'"
    "readers st' = readers st" "evolves (store_io st) (store_io st')"
    "length (free_list_page_ids g) \<le> length (free_list_page_ids (write_lock st'))"
    "unat (next_page_id (write_lock st')) + length (free_list_page_ids g) \<le>
       unat (next_page_id g) + 2 * h + 3 + length (free_list_page_ids (write_lock st'))"
    "length (free_list (write_lock st') @ pending_free (write_lock st')) \<le> length (free_list g @ pending_free g) + Suc h"
    "length (free_list_page_ids (write_lock st')) \<le>
       max (length (free_list_page_ids g)) (chain_need ps (length (free_list g @ pending_free g) + Suc h))"
    "readers st = 0 \<Longrightarrow> pending_free (write_lock st') = [] \<and> free_list (write_lock st') \<noteq> [] \<and>
       last (free_list (write_lock st')) = root st"
    "readers st \<noteq> 0 \<Longrightarrow> set (ids t) \<union> set (pending_free g) \<subseteq> set (ids t') \<union> set (pending_free (write_lock st'))"
    "\<And>j pg. j \<in> set (ids t) \<union> set (pending_free g) \<Longrightarrow> guard_read ops st j = Some pg \<Longrightarrow>
       guard_read ops st' j = Some pg"
    "pending_free (write_lock st') = (if readers st = 0 then [] else pending_free g @ F)"
    "length (free_list (write_lock st') @ pending_free (write_lock st')) =
       length (free_list (guard tx)) + length (pending_free g) + Suc h"
    "spends ps h t g h' t' (write_lock st')"
proof -
  from st have inv: "inv (store_io st)" and ps: "page_size_ok ps" and tree: "tree_ok ops h t st"
    and pool: "pool_ok (ids t @ pending_free g @ free_list_page_ids g) g"
    by (simp_all add: store_ok_def ps_def g_def)
  from prep have F: "length F = Suc h" "last F = tid t" "mset (ids t') + mset F = mset (ids t) + mset A"
    and t': "bal h' t'" "sized ps t'" "ordered None None t'" "rep (txn_read ops tx) t'"
    by (simp_all add: prepared_def ps_def)
  note ready = prepared_ready [OF prep pool [unfolded g_def], folded ps_def g_def]
  let ?need = "chain_need ps (length (free_list (guard tx) @ pending_free (guard tx) @ freed tx))"
  obtain tx' n where commit: "commit ops tx (tid t') = Some tx'"
    and ev: "evolves (store_io st) (store_io (txn_store tx'))" and root: "root (txn_store tx') = tid t'"
    and readers: "readers (txn_store tx') = readers st"
    and n: "unat n = unat (next_page_id (guard tx)) + (?need - length (free_list_page_ids (guard tx)))"
    and lock: "write_lock (txn_store tx') = (guard (promote_pending tx))
       \<lparr>next_page_id := n, free_list_page_ids := free_list_page_ids (guard tx) @ fresh (next_page_id (guard tx)) n\<rparr>"
    and pool'': "pool_ok (ids t' @ pending_free (write_lock (txn_store tx')) @
        free_list_page_ids (write_lock (txn_store tx'))) (write_lock (txn_store tx'))"
    and disk: "disk_ok ops (txn_store tx')"
    and read: "\<And>j pg. j \<in> set (ids t') \<Longrightarrow> txn_read ops tx j = Some pg \<Longrightarrow> guard_read ops (txn_store tx') j = Some pg"
    and frame: "\<And>j b. j \<notin> fst ` set (writes tx) \<Longrightarrow>
       j \<notin> set (free_list_page_ids (guard tx) @ fresh (next_page_id (guard tx)) n) \<Longrightarrow>
       j \<noteq> HEADER_PAGE_ID \<Longrightarrow> read_page ops (store_io st) j = Some b \<Longrightarrow>
       read_page ops (store_io (txn_store tx')) j = Some b"
  proof (rule commit_ok [of tx "ids t'" "tid t'", unfolded ready(4)])
    show "inv (store_io (txn_store tx))" "page_size_ok ps" using inv ps ready(1) by simp_all
    show "pool_ok (ids t' @ pending_free (guard tx) @ freed tx @ free_list_page_ids (guard tx)) (guard tx)"
      by (rule ready(11))
    show "\<forall>w \<in> set (writes tx). fst w \<in> set (ids t') \<and> length (snd w) = ps" using ready(12,13) by blast
    show "unat (next_page_id (guard tx)) + (?need - length (free_list_page_ids (guard tx))) < 2 ^ 64"
      "unat (next_page_id (guard tx)) + (?need - length (free_list_page_ids (guard tx))) \<le> limit (store_io (txn_store tx))"
      using ready(15) room unfolding ready(1) by linarith+
  qed (use ready(1,2) in simp)
  let ?st = "txn_store tx'"
  have "rep (guard_read ops ?st) t'" using t'(4) by (rule rep_mono) (rule read)
  then have tree': "tree_ok ops h' t' ?st"
    using t' root ev by (simp add: tree_ok_def evolves_def ps_def)
  have ok: "store_ok ops inv h' t' ?st"
    using ev tree' pool'' disk ps by (simp add: store_ok_def evolves_def ps_def)
  have old: "guard_read ops ?st j = Some pg"
    if j: "j \<in> set (ids t) \<union> set (pending_free g)" and pg: "guard_read ops st j = Some pg" for j pg
  proof -
    have "read_page ops (store_io ?st) j = Some b" if "read_page ops (store_io st) j = Some b" for b
      using frame [OF prepared_untouched [OF prep pool [unfolded g_def] j [unfolded g_def]]] that ready(1) by simp
    then show ?thesis using pg by (auto simp: guard_read_def bind_eq_Some_conv)
  qed
  have payload: "length (free_list (write_lock ?st) @ pending_free (write_lock ?st)) \<le> length (free_list g @ pending_free g) + Suc h"
    using promote_payload [of tx] ready(5,6,10) F(1) unfolding lock by simp
  have chain: "length (free_list_page_ids (write_lock ?st)) \<le>
      max (length (free_list_page_ids g)) (chain_need ps (length (free_list g @ pending_free g) + Suc h))"
    using ready(16) n ready(7) unfolding lock by (simp add: fresh_def)
  have pend: "pending_free (write_lock ?st) = (if readers st = 0 then [] else pending_free g @ F)"
    and free: "readers st = 0 \<Longrightarrow> free_list (write_lock ?st) = free_list (guard tx) @ pending_free g @ F"
    using ready(2,5,6) unfolding lock by (simp_all add: promote_free_list)
  have top: "pending_free (write_lock ?st) = [] \<and> free_list (write_lock ?st) \<noteq> [] \<and>
      last (free_list (write_lock ?st)) = root st" if "readers st = 0"
  proof -
    have "F \<noteq> []" using F(1) by auto
    then show ?thesis using that pend free F(2) tree by (simp add: tree_ok_def)
  qed
  have kept: "set (ids t) \<union> set (pending_free g) \<subseteq> set (ids t') \<union> set (pending_free (write_lock ?st))" if "readers st \<noteq> 0"
  proof -
    have "set (ids t) \<subseteq> set_mset (mset (ids t') + mset F)" unfolding F(3) by simp
    then show ?thesis using that pend by auto
  qed
  have grow: "length (free_list_page_ids g) \<le> length (free_list_page_ids (write_lock ?st))"
    "unat (next_page_id (write_lock ?st)) + length (free_list_page_ids g) \<le>
       unat (next_page_id g) + 2 * h + 3 + length (free_list_page_ids (write_lock ?st))"
    unfolding lock using n ready(7,9) by (simp_all add: fresh_def)
  have exact: "length (free_list (write_lock ?st) @ pending_free (write_lock ?st)) =
       length (free_list (guard tx)) + length (pending_free g) + Suc h"
    "length (free_list_page_ids (write_lock ?st)) = max (length (free_list_page_ids g))
       (chain_need ps (length (free_list (guard tx)) + length (pending_free g) + Suc h))"
    "unat (next_page_id (write_lock ?st)) + length (free_list_page_ids g) =
       unat (next_page_id (guard tx)) + length (free_list_page_ids (write_lock ?st))"
    using promote_payload [of tx] ready(5-7) F(1) n unfolding lock by (simp_all add: fresh_def ac_simps max_def)
  have spends: "spends ps h t g h' t' (write_lock ?st)"
    using exact unfolding ps_def g_def by (rule prepared_spends [OF prep])
  show ?thesis by (rule that [OF commit refl ok readers ev grow payload chain top kept old pend exact(1) spends])
qed

text \<open>A \<open>put\<close> within the limits, from the store's invariant to the store's invariant.\<close>

lemma put_ok:
  fixes st :: "'io store"
  defines "ps \<equiv> page_size ops (store_io st)" and "g \<equiv> write_lock st"
  assumes st: "store_ok ops inv h t st" and kv: "length key + length val \<le> max_kv_size ps"
    and room: "put_reach ps h g < 2 ^ 64" "put_reach ps h g \<le> limit (store_io st)"
  obtains st' t' h' where "engine_put ops st key val = Some (Inr (), st')" "store_ok ops inv h' t' st'"
    "h' \<le> Suc h" "contents t' = upsert key val (contents t)" "readers st' = readers st"
    "evolves (store_io st) (store_io st')"
    "length (free_list_page_ids g) \<le> length (free_list_page_ids (write_lock st'))"
    "unat (next_page_id (write_lock st')) + length (free_list_page_ids g) \<le>
       unat (next_page_id g) + 2 * h + 3 + length (free_list_page_ids (write_lock st'))"
    "length (free_list (write_lock st') @ pending_free (write_lock st')) \<le> length (free_list g @ pending_free g) + Suc h"
    "length (free_list_page_ids (write_lock st')) \<le>
       max (length (free_list_page_ids g)) (chain_need ps (length (free_list g @ pending_free g) + Suc h))"
    "readers st = 0 \<Longrightarrow> pending_free (write_lock st') = [] \<and> free_list (write_lock st') \<noteq> [] \<and>
       last (free_list (write_lock st')) = root st"
    "readers st \<noteq> 0 \<Longrightarrow> set (ids t) \<union> set (pending_free g) \<subseteq> set (ids t') \<union> set (pending_free (write_lock st'))"
    "\<And>j pg. j \<in> set (ids t) \<union> set (pending_free g) \<Longrightarrow> guard_read ops st j = Some pg \<Longrightarrow>
       guard_read ops st' j = Some pg"
    "length (pending_free g) < length (free_list (write_lock st') @ pending_free (write_lock st'))"
    "readers st \<noteq> 0 \<Longrightarrow> length (pending_free g) < length (pending_free (write_lock st'))"
    "spends ps h t g h' t' (write_lock st')"
proof -
  obtain tx A F t' h' where 1: "put_prepared ops (begin_write st) key val = Some (tid t', tx)"
    and prep: "prepared ops h t st A F h' t' tx"
    and h': "h' \<le> Suc h" and contents: "contents t' = upsert key val (contents t)"
    using store_put_prepared [OF st kv [unfolded ps_def] room(1) [unfolded ps_def g_def]] .
  have put: "engine_put ops st key val = Some (Inr (), txn_store tx')" if "commit ops tx (tid t') = Some tx'" for tx'
    using engine_put_prepared [OF 1 that] kv by (simp add: ps_def)
  show ?thesis
  proof (rule commit_prepared [OF st room [unfolded ps_def g_def] prep, folded ps_def g_def])
    fix tx' st'
    assume commit: "commit ops tx (tid t') = Some tx'" and st': "txn_store tx' = st'"
    assume rest: "store_ok ops inv h' t' st'"
      "readers st' = readers st" "evolves (store_io st) (store_io st')"
      "length (free_list_page_ids g) \<le> length (free_list_page_ids (write_lock st'))"
      "unat (next_page_id (write_lock st')) + length (free_list_page_ids g) \<le>
         unat (next_page_id g) + 2 * h + 3 + length (free_list_page_ids (write_lock st'))"
      "length (free_list (write_lock st') @ pending_free (write_lock st')) \<le> length (free_list g @ pending_free g) + Suc h"
      "length (free_list_page_ids (write_lock st')) \<le>
         max (length (free_list_page_ids g)) (chain_need ps (length (free_list g @ pending_free g) + Suc h))"
      "readers st = 0 \<Longrightarrow> pending_free (write_lock st') = [] \<and> free_list (write_lock st') \<noteq> [] \<and>
         last (free_list (write_lock st')) = root st"
      "readers st \<noteq> 0 \<Longrightarrow> set (ids t) \<union> set (pending_free g) \<subseteq> set (ids t') \<union> set (pending_free (write_lock st'))"
      "\<And>j pg. j \<in> set (ids t) \<union> set (pending_free g) \<Longrightarrow> guard_read ops st j = Some pg \<Longrightarrow>
         guard_read ops st' j = Some pg"
    assume pend: "pending_free (write_lock st') = (if readers st = 0 then [] else pending_free g @ F)"
      and free: "length (free_list (write_lock st') @ pending_free (write_lock st')) =
         length (free_list (guard tx)) + length (pending_free g) + Suc h"
      and spends: "spends ps h t g h' t' (write_lock st')"
    have "length F = Suc h" using prep by (simp add: prepared_def)
    then have more: "length (pending_free g) < length (free_list (write_lock st') @ pending_free (write_lock st'))"
      "readers st \<noteq> 0 \<Longrightarrow> length (pending_free g) < length (pending_free (write_lock st'))"
      using pend free by simp_all
    show ?thesis by (rule that [OF put [OF commit, unfolded st'] rest(1) h' contents rest(2-) more spends])
  qed
qed

end

end
