(* ===== verification/Recovery.thy ===== *)
theory Recovery
  imports Put
begin

text \<open>
  Opening a store, \<open>Store::open_or_create\<close>: a fresh backend becomes an empty store, a store that was
  closed comes back with the same tree and the same free pages, and a file of another format or page
  size is refused. Then runs of \<open>put\<close>.
\<close>

section \<open>Opening\<close>

text \<open>The writer state of a store that has just been created.\<close>

definition fresh_writer :: "writer_state \<Rightarrow> bool" where
  "fresh_writer g \<longleftrightarrow> next_page_id g = 2 \<and> free_list g = [] \<and> pending_free g = [] \<and> free_list_page_ids g = []"

lemma load_no_chain: "load_free_list_chain ops io 0 = Some ([], [])"
  by (simp add: load_free_list_chain_def load_chain_loop.simps)

lemma open_refuses_page_size:
  assumes "read_page ops io HEADER_PAGE_ID = Some bs" "header_from_bytes bs = Some (Inr h)"
    and "hdr_page_size h \<noteq> page_size ops io"
  shows "open_or_create ops io = Some (Inl (PageSizeMismatch (page_size ops io) (hdr_page_size h)))"
  using assms by (simp add: open_or_create_def)

lemma open_refuses_version:
  assumes "read_page ops io HEADER_PAGE_ID = Some bs"
    and "header_from_bytes bs = Some (Inl (VersionMismatch found expected))"
  shows "open_or_create ops io = Some (Inl (StoreVersionMismatch found expected))"
  using assms by (simp add: open_or_create_def)

text \<open>
  What an open makes of a backend that holds a store's header and free list: the pages that waited are
  free, and of the chain only the pages in use are known.
\<close>

definition reopened :: "'io page_io \<Rightarrow> 'io store \<Rightarrow> 'io store" where
  "reopened ops st = \<lparr>store_io = store_io st, root = root st, readers = 0,
     write_lock = \<lparr>next_page_id = next_page_id (write_lock st),
       free_list = free_list (write_lock st) @ pending_free (write_lock st), pending_free = [],
       free_list_page_ids = chain_used ops st\<rparr>\<rparr>"

lemma reopened_simps [simp]:
  "store_io (reopened ops st) = store_io st" "root (reopened ops st) = root st" "readers (reopened ops st) = 0"
  "next_page_id (write_lock (reopened ops st)) = next_page_id (write_lock st)"
  "free_list (write_lock (reopened ops st)) = free_list (write_lock st) @ pending_free (write_lock st)"
  "pending_free (write_lock (reopened ops st)) = []"
  "free_list_page_ids (write_lock (reopened ops st)) = chain_used ops st"
  "chain_used ops (reopened ops st) = chain_used ops st"
  by (simp_all add: reopened_def chain_used_def Let_def)

lemma open_disk:
  assumes "disk_ok ops st"
  shows "open_or_create ops (store_io st) = Some (Inr (reopened ops st))"
  using assms by (auto simp: disk_ok_def open_or_create_def store_from_header_def reopened_def)

context page_backend
begin

lemma open_fresh:
  assumes io: "inv io" and ps: "page_size_ok (page_size ops io)" and lim: "2 \<le> limit io"
    and zero: "read_page ops io HEADER_PAGE_ID = Some bs" "header_from_bytes bs = Some (Inl NotAHeader)"
  obtains st where "open_or_create ops io = Some (Inr st)" "store_ok ops inv 0 (CLeaf 1 []) st"
    "fresh_writer (write_lock st)" "readers st = 0" "evolves io (store_io st)"
    "\<And>j b. j \<noteq> HEADER_PAGE_ID \<Longrightarrow> j \<noteq> 1 \<Longrightarrow> read_page ops io j = Some b \<Longrightarrow> read_page ops (store_io st) j = Some b"
proof -
  let ?ps = "page_size ops io"
  note b = page_size_bounds [OF ps]
  have fits: "node_fits ?ps (LeafN [])" using b by (simp add: leaf_small_def)
  obtain rb where rb: "page_to_bytes (mk_page 0 (LeafN [])) 1 ?ps = Some rb" "length rb = ?ps"
    "page_decode 1 rb = Some (mk_page 1 (LeafN []))"
    using page_to_bytes_decode [OF fits] by blast
  have rb': "leaf_to_bytes leaf_empty INITIAL_ROOT_PAGE_ID ?ps = Some rb"
    using rb(1) by (simp add: mk_leaf_Nil INITIAL_ROOT_PAGE_ID_def)
  obtain io1 where io1: "write_page ops io 1 rb = Some io1"
    using write_ok [OF io, of 1 rb] lim rb(2) by auto
  have ev1: "evolves io io1" using io io1 by (rule write_evolves)
  let ?h = "header_new ?ps 1 2"
  obtain hb where hb: "header_to_bytes ?h ?ps = Some hb" "length hb = ?ps" "header_from_bytes hb = Some (Inr ?h)"
    using b by (simp add: header_to_bytes_image header_from_image header_new_def)
  have inv1: "inv io1" using ev1 by (simp add: evolves_def)
  obtain io2 where io2: "write_page ops io1 HEADER_PAGE_ID hb = Some io2"
    using write_ok [OF inv1, of HEADER_PAGE_ID hb] lim hb(2) ev1 by (auto simp: evolves_def HEADER_PAGE_ID_def)
  have ev2: "evolves io1 io2" using inv1 io2 by (rule write_evolves)
  have ev: "evolves io io2" by (rule evolves_trans [OF ev1 ev2])
  have sync: "sync ops io2 = Some io2" using ev by (intro sync_id) (simp add: evolves_def)
  let ?st = "\<lparr>store_io = io2, root = 1, readers = 0,
     write_lock = \<lparr>next_page_id = 2, free_list = [], pending_free = [], free_list_page_ids = []\<rparr>\<rparr>"
  have "open_or_create ops io = Some (Inr ?st)"
    using zero rb' io1 hb(1) io2 sync
    by (simp add: load_no_chain open_or_create_def Let_def store_from_header_def header_new_def INITIAL_ROOT_PAGE_ID_def)
  moreover have "read_page ops io2 1 = Some rb"
    using write_same [OF io io1] write_other [OF inv1 io2] by (simp add: HEADER_PAGE_ID_def)
  then have "guard_read ops ?st 1 = Some (mk_page 1 (LeafN []))" using rb(3) by (simp add: guard_read_def)
  then have "tree_ok ops 0 (CLeaf 1 []) ?st"
    using fits ev by (simp add: tree_ok_def evolves_def)
  moreover have "disk_ok ops ?st"
    using write_same [OF inv1 io2] hb(3) ev
    by (simp add: load_no_chain disk_ok_def chain_used_def header_new_def evolves_def)
  moreover have "pool_ok [1] (write_lock ?st)" by (simp add: pool_ok_def)
  moreover have "read_page ops io2 j = Some b"
    if "j \<noteq> HEADER_PAGE_ID" "j \<noteq> 1" "read_page ops io j = Some b" for j b
    using write_other [OF io io1 that(2,3)] by (rule write_other [OF inv1 io2 that(1)])
  ultimately show ?thesis
    using that [of ?st] ev ps by (simp add: store_ok_def fresh_writer_def evolves_def)
qed

text \<open>Closing is dropping the store; reopening the same backend finds the store again.\<close>

lemma reopen_ok:
  assumes "store_ok ops inv h t st"
  shows "open_or_create ops (store_io st) = Some (Inr (reopened ops st))" "store_ok ops inv h t (reopened ops st)"
proof -
  let ?g = "write_lock st" and ?st = "reopened ops st"
  have disk: "disk_ok ops st" using assms by (simp add: store_ok_def)
  then show "open_or_create ops (store_io st) = Some (Inr ?st)" by (rule open_disk)
  have "guard_read ops ?st = guard_read ops st" by (rule guard_read_cong) simp
  then have "tree_ok ops h t ?st" using assms by (simp add: store_ok_def tree_ok_def)
  moreover have "pool_ok (ids t @ [] @ chain_used ops st) (write_lock ?st)"
  proof -
    let ?p = "free_list_page_ids ?g" and ?n = "chain_need (page_size ops (store_io st)) (length (free_list ?g @ pending_free ?g))"
    have "pool_ok (ids t @ pending_free ?g @ ?p) ?g" using assms by (simp add: store_ok_def)
    then have "pool_ok ((ids t @ take ?n ?p @ pending_free ?g) @ drop ?n ?p) ?g"
    proof (rule pool_ok_perm)
      have "mset ?p = mset (take ?n ?p) + mset (drop ?n ?p)" by (metis append_take_drop_id mset_append)
      then show "mset ((ids t @ take ?n ?p @ pending_free ?g) @ drop ?n ?p) = mset (ids t @ pending_free ?g @ ?p)"
        by (simp add: ac_simps)
    qed
    then have "pool_ok (ids t @ take ?n ?p @ pending_free ?g) ?g" by (rule pool_ok_sub)
    then show ?thesis by (rule pool_ok_mset) (simp_all add: chain_used_def Let_def ac_simps)
  qed
  moreover have "disk_ok ops ?st" using disk by (simp add: disk_ok_def)
  ultimately show "store_ok ops inv h t ?st" using assms by (simp add: store_ok_def)
qed

end

section \<open>Runs\<close>

text \<open>A sequence of puts, each of which must succeed; and what it does to the sorted list of pairs.\<close>

fun put_all :: "'io page_io \<Rightarrow> 'io store \<Rightarrow> (key \<times> val) list \<Rightarrow> 'io store option" where
  "put_all ops st [] = Some st"
| "put_all ops st ((k, v) # kvs) =
     do { r \<leftarrow> engine_put ops st k v;
          case fst r of Inr _ \<Rightarrow> put_all ops (snd r) kvs | Inl _ \<Rightarrow> None }"

lemma put_all_Cons:
  "put_all ops st ((k, v) # kvs) = Some st' \<longleftrightarrow>
     (\<exists>st1. engine_put ops st k v = Some (Inr (), st1) \<and> put_all ops st1 kvs = Some st')"
proof -
  have "(case r of Inl e \<Rightarrow> None | Inr u \<Rightarrow> put_all ops st1 kvs) = Some st' \<longleftrightarrow>
      r = Inr () \<and> put_all ops st1 kvs = Some st'" for r :: "page_error + unit" and st1
    by (cases r) simp_all
  then show ?thesis by (auto simp: bind_eq_Some_conv)
qed

definition upserts :: "(key \<times> val) list \<Rightarrow> (key \<times> val) list \<Rightarrow> (key \<times> val) list" where
  "upserts kvs cs = fold (\<lambda>(k, v). upsert k v) kvs cs"

lemma upserts_simps [simp]: "upserts [] cs = cs" "upserts ((k, v) # kvs) cs = upserts kvs (upsert k v cs)"
  by (simp_all add: upserts_def)

lemma map_of_upserts: "map_of (upserts kvs cs) = map_of cs ++ map_of (rev kvs)"
proof (induction kvs arbitrary: cs)
  case Nil
  then show ?case by simp
next
  case (Cons p kvs)
  then show ?case by (cases p) (simp add: map_of_upsert map_add_def fun_eq_iff split: option.split)
qed

lemma upserts_keys: "fst ` set (upserts kvs cs) = fst ` set kvs \<union> fst ` set cs"
proof -
  have "dom (map_of (upserts kvs cs)) = dom (map_of (rev kvs)) \<union> dom (map_of cs)"
    by (simp add: map_of_upserts)
  then show ?thesis by (simp add: dom_map_of_conv_image_fst)
qed

text \<open>
  Bounds along a run. After \<open>n\<close> puts the tree has at most height \<open>n\<close>, at most \<open>n\<^sup>2\<close> pages are free or
  waiting, and \<open>next_page_id\<close> is at most \<open>run_reach n\<close>.
\<close>

definition run_reach :: "nat \<Rightarrow> nat \<Rightarrow> nat" where
  "run_reach ps n = 2 + 2 * n + n * n + chain_need ps (n * n)"

definition within_run :: "nat \<Rightarrow> nat \<Rightarrow> nat \<Rightarrow> writer_state \<Rightarrow> bool" where
  "within_run ps n h g \<longleftrightarrow> h \<le> n \<and> length (free_list g @ pending_free g) \<le> n * n \<and>
     length (free_list_page_ids g) \<le> chain_need ps (n * n) \<and>
     unat (next_page_id g) \<le> 2 + 2 * n + n * n + length (free_list_page_ids g)"

lemma chain_need_mono: "m \<le> n \<Longrightarrow> chain_need ps m \<le> chain_need ps n"
  by (simp add: chain_need_def div_ceil_mono)

lemma run_reach_mono: "m \<le> n \<Longrightarrow> run_reach ps m \<le> run_reach ps n"
  unfolding run_reach_def by (intro add_mono mult_le_mono chain_need_mono) simp_all

lemma within_run_reach:
  assumes "within_run ps n h g"
  shows "put_reach ps h g \<le> run_reach ps (Suc n)"
proof -
  let ?need = "chain_need ps (length (free_list g) + length (pending_free g) + Suc h)"
  have "length (free_list g) + length (pending_free g) + Suc h \<le> Suc n * Suc n"
    using assms by (simp add: within_run_def)
  then have need: "?need \<le> chain_need ps (Suc n * Suc n)" by (rule chain_need_mono)
  have "chain_need ps (n * n) \<le> chain_need ps (Suc n * Suc n)" by (rule chain_need_mono) simp
  then have "length (free_list_page_ids g) \<le> chain_need ps (Suc n * Suc n)"
    using assms by (simp add: within_run_def)
  moreover have "unat (next_page_id g) \<le> 2 + 2 * n + n * n + length (free_list_page_ids g)" "h \<le> n"
    using assms by (simp_all add: within_run_def)
  ultimately show ?thesis using need unfolding put_reach_def run_reach_def by simp
qed

text \<open>
  The steps of the tree and the writer's state in a run. With no reader inside every freed page is
  free at once; otherwise more pages wait after each put.
\<close>

definition run_step ::
    "nat \<Rightarrow> nat \<Rightarrow> nat \<times> ctree \<times> writer_state \<Rightarrow> nat \<times> ctree \<times> writer_state \<Rightarrow> bool"
where
  "run_step ps r = (\<lambda>(h, t, g) (h', t', g'). spends ps h t g h' t' g' \<and>
     (if r = 0 then pending_free g' = [] \<and> free_list g' \<noteq> [] else length (pending_free g) < length (pending_free g')))"

context page_backend
begin

text \<open>One put of a run.\<close>

lemma put_within:
  assumes st: "store_ok ops inv h t st" "page_size ops (store_io st) = ps" "within_run ps n h (write_lock st)"
    and kv: "length k + length v \<le> max_kv_size ps"
    and lim: "run_reach ps (Suc n) < 2 ^ 64" "run_reach ps (Suc n) \<le> limit (store_io st)"
  obtains st1 t1 h1 where "engine_put ops st k v = Some (Inr (), st1)" "store_ok ops inv h1 t1 st1"
    "h1 \<le> Suc h" "contents t1 = upsert k v (contents t)" "readers st1 = readers st"
    "evolves (store_io st) (store_io st1)" "page_size ops (store_io st1) = ps"
    "limit (store_io st1) = limit (store_io st)" "within_run ps (Suc n) h1 (write_lock st1)"
    "run_step ps (readers st) (h, t, write_lock st) (h1, t1, write_lock st1)"
proof -
  let ?g = "write_lock st"
  have kv': "length k + length v \<le> max_kv_size (page_size ops (store_io st))" using kv st(2) by simp
  have reach: "put_reach ps h ?g < 2 ^ 64" "put_reach ps h ?g \<le> limit (store_io st)"
    using within_run_reach [OF st(3)] lim by linarith+
  obtain st1 t1 h1 where 1: "engine_put ops st k v = Some (Inr (), st1)" "store_ok ops inv h1 t1 st1"
    "h1 \<le> Suc h" "contents t1 = upsert k v (contents t)" "readers st1 = readers st"
    "evolves (store_io st) (store_io st1)"
    "length (free_list_page_ids ?g) \<le> length (free_list_page_ids (write_lock st1))"
    "unat (next_page_id (write_lock st1)) + length (free_list_page_ids ?g) \<le>
       unat (next_page_id ?g) + 2 * h + 3 + length (free_list_page_ids (write_lock st1))"
    "length (free_list (write_lock st1) @ pending_free (write_lock st1)) \<le> length (free_list ?g @ pending_free ?g) + Suc h"
    "length (free_list_page_ids (write_lock st1)) \<le>
       max (length (free_list_page_ids ?g)) (chain_need ps (length (free_list ?g @ pending_free ?g) + Suc h))"
    and gate: "readers st = 0 \<Longrightarrow> pending_free (write_lock st1) = [] \<and> free_list (write_lock st1) \<noteq> [] \<and>
       last (free_list (write_lock st1)) = root st"
      "readers st \<noteq> 0 \<Longrightarrow> length (pending_free ?g) < length (pending_free (write_lock st1))"
    and spends: "spends ps h t ?g h1 t1 (write_lock st1)"
    by (rule put_ok [OF st(1) kv' reach [folded st(2)], unfolded st(2)]) (rule that; assumption)
  have step: "run_step ps (readers st) (h, t, ?g) (h1, t1, write_lock st1)"
    using gate spends by (simp add: run_step_def)
  have w: "h \<le> n" "length (free_list ?g @ pending_free ?g) \<le> n * n"
    "length (free_list_page_ids ?g) \<le> chain_need ps (n * n)"
    "unat (next_page_id ?g) \<le> 2 + 2 * n + n * n + length (free_list_page_ids ?g)"
    using st(3) by (simp_all only: within_run_def)
  have "chain_need ps (length (free_list ?g @ pending_free ?g) + Suc h) \<le> chain_need ps (Suc n * Suc n)"
    using w(1,2) by (intro chain_need_mono) simp
  moreover have "chain_need ps (n * n) \<le> chain_need ps (Suc n * Suc n)" by (rule chain_need_mono) simp
  ultimately have "length (free_list_page_ids (write_lock st1)) \<le> chain_need ps (Suc n * Suc n)"
    using 1(10) w(3) by linarith
  moreover have "length (free_list (write_lock st1) @ pending_free (write_lock st1)) \<le> Suc n * Suc n"
    using 1(9) w(1,2) by simp
  moreover have "unat (next_page_id (write_lock st1)) \<le>
      2 + 2 * Suc n + Suc n * Suc n + length (free_list_page_ids (write_lock st1))"
    using 1(7,8) w(1,4) by simp
  ultimately have w1: "within_run ps (Suc n) h1 (write_lock st1)"
    using 1(3) w(1) by (simp only: within_run_def) simp
  have "page_size ops (store_io st1) = ps" "limit (store_io st1) = limit (store_io st)"
    using 1(6) st(2) by (simp_all add: evolves_def)
  with 1(1-6) w1 step that show ?thesis by blast
qed

lemma put_all_ok:
  "store_ok ops inv h t st \<Longrightarrow> page_size ops (store_io st) = ps \<Longrightarrow> within_run ps n h (write_lock st) \<Longrightarrow>
   \<forall>(k, v) \<in> set kvs. length k + length v \<le> max_kv_size ps \<Longrightarrow>
   run_reach ps (n + length kvs) < 2 ^ 64 \<Longrightarrow> run_reach ps (n + length kvs) \<le> limit (store_io st) \<Longrightarrow>
   \<exists>st' t' h'. put_all ops st kvs = Some st' \<and> store_ok ops inv h' t' st' \<and>
     contents t' = upserts kvs (contents t) \<and> evolves (store_io st) (store_io st') \<and>
     readers st' = readers st \<and> within_run ps (n + length kvs) h' (write_lock st') \<and>
     (run_step ps (readers st) ^^ length kvs) (h, t, write_lock st) (h', t', write_lock st')"
proof (induction kvs arbitrary: st t h n)
  case Nil
  then show ?case by (auto simp: store_ok_def intro!: evolves_refl)
next
  case (Cons p kvs)
  obtain k v where p: "p = (k, v)" by (cases p)
  have kv: "length k + length v \<le> max_kv_size ps" using Cons.prems(4) p by simp
  have "run_reach ps (Suc n) \<le> run_reach ps (n + length (p # kvs))" by (rule run_reach_mono) simp
  then have reach: "run_reach ps (Suc n) < 2 ^ 64" "run_reach ps (Suc n) \<le> limit (store_io st)"
    using Cons.prems(5,6) by linarith+
  obtain st1 t1 h1 where 1: "engine_put ops st k v = Some (Inr (), st1)" "store_ok ops inv h1 t1 st1"
    "contents t1 = upsert k v (contents t)" "readers st1 = readers st" "evolves (store_io st) (store_io st1)"
    and ps1: "page_size ops (store_io st1) = ps" "limit (store_io st1) = limit (store_io st)"
    and w1: "within_run ps (Suc n) h1 (write_lock st1)"
    and step: "run_step ps (readers st) (h, t, write_lock st) (h1, t1, write_lock st1)"
    by (rule put_within [OF Cons.prems(1-3) kv reach])
  have rest: "\<forall>(k, v) \<in> set kvs. length k + length v \<le> max_kv_size ps" using Cons.prems(4) by simp
  obtain st' t' h' where 2: "put_all ops st1 kvs = Some st'" "store_ok ops inv h' t' st'"
    "contents t' = upserts kvs (contents t1)" "evolves (store_io st1) (store_io st')"
    "readers st' = readers st1" "within_run ps (Suc n + length kvs) h' (write_lock st')"
    "(run_step ps (readers st1) ^^ length kvs) (h1, t1, write_lock st1) (h', t', write_lock st')"
    using Cons.IH [OF 1(2) ps1(1) w1 rest] Cons.prems(5,6) ps1(2) by auto
  show ?case
  proof (intro exI conjI)
    show "put_all ops st (p # kvs) = Some st'" using 1(1) 2(1) p by simp
    show "contents t' = upserts (p # kvs) (contents t)" using 2(3) 1(3) p by simp
    show "evolves (store_io st) (store_io st')" by (rule evolves_trans [OF 1(5) 2(4)])
    show "within_run ps (n + length (p # kvs)) h' (write_lock st')" using 2(6) by simp
    show "(run_step ps (readers st) ^^ length (p # kvs)) (h, t, write_lock st) (h', t', write_lock st')"
      using relpowp_Suc_I2 [OF step 2(7) [unfolded 1(4)]] by simp
  qed (use 2 1 in simp_all)
qed

end

end
