(* ===== verification/Space.thy ===== *)
theory Space
  imports Recovery
begin

text \<open>
  How much the file grows. Every id below \<open>next_page_id\<close> is accounted for: the header, a page of the tree,
  free, waiting to be free, or in the chain. Without readers the pages freed by a put are used by the
  next ones before the file grows, so that the file is never larger than the tree by more than about
  twice its height.
\<close>

definition accounted :: "ctree \<Rightarrow> writer_state \<Rightarrow> bool" where
  "accounted t g \<longleftrightarrow>
     unat (next_page_id g) = 1 + length (ids t @ free_list g @ pending_free g @ free_list_page_ids g)"

lemma spends_accounted: "spends ps h t g h' t' g' \<Longrightarrow> accounted t g \<Longrightarrow> accounted t' g'"
  by (simp add: spends_def accounted_def)

lemma accounted_run:
  "(run_step ps r ^^ n) (h, t, g) (h', t', g') \<Longrightarrow> accounted t g \<Longrightarrow> accounted t' g'"
  by (induction n arbitrary: h' t' g') (auto simp: run_step_def intro: spends_accounted)

text \<open>No page waits, and the free pages are those of the last path at most.\<close>

definition lean :: "nat \<Rightarrow> nat \<times> ctree \<times> writer_state \<Rightarrow> bool" where
  "lean ps = (\<lambda>(h, t, g). accounted t g \<and> pending_free g = [] \<and> length (free_list g) \<le> Suc h \<and>
     length (free_list_page_ids g) \<le> chain_need ps (Suc h))"

lemma lean_step:
  assumes "run_step ps 0 s s'" "lean ps s"
  shows "lean ps s'"
proof -
  obtain h t g h' t' g' where s: "s = (h, t, g)" "s' = (h', t', g')" by (cases s; cases s') blast
  have spends: "spends ps h t g h' t' g'" and pend: "pending_free g' = []"
    using assms(1) by (simp_all add: run_step_def s)
  have l: "accounted t g" "pending_free g = []" "length (free_list g) \<le> Suc h"
    "length (free_list_page_ids g) \<le> chain_need ps (Suc h)"
    using assms(2) by (simp_all add: lean_def s)
  have acc: "accounted t' g'" using spends l(1) by (rule spends_accounted)
  have h: "h \<le> h'" and t: "length (ids t) \<le> length (ids t')" using spends by (simp_all add: spends_def)
  have free: "length (free_list g') \<le> Suc h'"
    using spends pend l(2,3) by (auto simp: spends_def)
  have "chain_need ps (length (free_list g')) \<le> chain_need ps (Suc h')"
    "chain_need ps (Suc h) \<le> chain_need ps (Suc h')"
    using free h by (simp_all add: chain_need_mono)
  then have "length (free_list_page_ids g') \<le> chain_need ps (Suc h')"
    using spends pend l(4) by (simp add: spends_def)
  then show ?thesis using acc pend free by (simp add: lean_def s)
qed

lemma lean_run: "(run_step ps 0 ^^ n) s s' \<Longrightarrow> lean ps s \<Longrightarrow> lean ps s'"
  by (induction n arbitrary: s') (auto intro: lean_step)

lemma lean_fresh: "fresh_writer g \<Longrightarrow> lean ps (0, CLeaf 1 [], g)"
  by (simp add: lean_def fresh_writer_def accounted_def)

text \<open>With a reader inside, more pages wait after each put.\<close>

lemma pending_run:
  assumes "(run_step ps r ^^ n) s s'" "r \<noteq> 0"
  shows "length (pending_free (snd (snd s))) + n \<le> length (pending_free (snd (snd s')))"
  using assms(1)
proof (induction n arbitrary: s')
  case (Suc n)
  then obtain u where u: "(run_step ps r ^^ n) s u" "run_step ps r u s'" by auto
  have "length (pending_free (snd (snd u))) < length (pending_free (snd (snd s')))"
    using u(2) assms(2) by (cases u; cases s') (simp add: run_step_def)
  then show ?case using Suc.IH [OF u(1)] by simp
qed simp

text \<open>A run that ends with a tree of one leaf leaves one page free.\<close>

lemma flat_run:
  assumes "(run_step ps 0 ^^ Suc n) s (0, t, g)" "lean ps s"
  shows "length (free_list g) = 1 \<and> pending_free g = [] \<and> length (free_list_page_ids g) = chain_need ps 1"
proof -
  obtain u where u: "run_step ps 0 u (0, t, g)" using assms(1) by auto
  have "lean ps (0, t, g)" using assms by (rule lean_run)
  then show ?thesis using u by (cases u) (auto simp: run_step_def lean_def spends_def Suc_le_eq le_Suc_eq)
qed

end
