(* ===== verification/Growth.thy ===== *)
theory Growth
  imports Space
begin

text \<open>
  How many pages a run of puts needs when no reader is inside: the tree has at least half as many entries
  as pages, its height is logarithmic, and the pages that are not in the tree are few. So the bound
  depends on the number of different keys only, and not on how often they are put.
\<close>

text \<open>The length of a number in binary.\<close>

fun bits :: "nat \<Rightarrow> nat" where
  "bits n = (if n = 0 then 0 else Suc (bits (n div 2)))"

declare bits.simps [simp del]

lemma bits_ge: "2 ^ h \<le> n \<Longrightarrow> Suc h \<le> bits n"
proof (induction h arbitrary: n)
  case 0
  then show ?case by (subst bits.simps) simp
next
  case (Suc h)
  have "2 ^ h \<le> n div 2" using Suc.prems by (simp add: less_eq_div_iff_mult_less_eq mult.commute)
  moreover have "0 < n" using Suc.prems by (cases n) simp_all
  ultimately show ?case using Suc.IH [of "n div 2"] by (subst bits.simps) simp
qed

lemma bits_le: "n < 2 ^ w \<Longrightarrow> bits n \<le> w"
proof (induction w arbitrary: n)
  case 0
  then show ?case by (simp add: bits.simps)
next
  case (Suc w)
  have "n div 2 < 2 ^ w" using Suc.prems by (simp add: less_mult_imp_div_less mult.commute)
  then show ?case using Suc.IH by (subst bits.simps) simp
qed

section \<open>The size of a tree\<close>

lemma children_pages:
  "\<forall>t \<in> set ts. length (ids t) < 2 * length (contents t) \<Longrightarrow>
   length (concat (map ids ts)) + length ts \<le> 2 * length (concat (map contents ts))"
  by (induction ts) auto

lemma two_children: "sized ps (CNode i ks ts) \<Longrightarrow> \<exists>a b us. ts = a # b # us"
  by (cases ks; cases ts; cases "tl ts") auto

lemma tree_pages: "sized ps t \<Longrightarrow> contents t \<noteq> [] \<Longrightarrow> length (ids t) < 2 * length (contents t)"
proof (induction t)
  case (CNode i ks ts)
  then have "length (concat (map ids ts)) + length ts \<le> 2 * length (concat (map contents ts))"
    by (intro children_pages) auto
  moreover have "2 \<le> length ts" using two_children [OF CNode.prems(1)] by auto
  ultimately show ?case by simp
next
  case (CLeaf i kvs)
  then show ?case by (cases kvs) simp_all
qed

lemma tree_height: "bal h t \<Longrightarrow> sized ps t \<Longrightarrow> contents t \<noteq> [] \<Longrightarrow> 2 ^ h \<le> length (contents t)"
proof (induction t arbitrary: h)
  case (CNode i ks ts)
  obtain a b us where ts: "ts = a # b # us" using two_children [OF CNode.prems(2)] by blast
  then have "2 ^ (h - 1) \<le> length (contents a)" "2 ^ (h - 1) \<le> length (contents b)"
    using CNode.prems by (auto intro!: CNode.IH)
  then have "2 * 2 ^ (h - 1) \<le> length (contents (CNode i ks ts))" by (simp add: ts)
  then show ?case using CNode.prems(1) by (cases h) simp_all
qed (simp add: Suc_le_eq)

lemma contents_card:
  assumes "ordered lo hi t" "fst ` set (contents t) \<subseteq> K" "finite K"
  shows "length (contents t) \<le> card K"
proof -
  have "distinct (map fst (contents t))"
    using ordered_contents(1) [OF assms(1)] by (simp add: strict_sorted_iff)
  then have "length (contents t) = card (fst ` set (contents t))"
    by (metis distinct_card length_map list.set_map)
  also have "\<dots> \<le> card K" by (rule card_mono [OF assms(3,2)])
  finally show ?thesis .
qed

section \<open>The room a run needs\<close>

text \<open>The ids that puts of \<open>m\<close> different keys can use, \<open>m\<close> at least 1.\<close>

definition keys_reach :: "nat \<Rightarrow> nat \<Rightarrow> nat" where
  "keys_reach ps m = (let n = max 1 m; l = bits n in 2 * n + 3 * l + 1 + chain_need ps (2 * l))"

lemma tree_small:
  assumes "bal h t" "sized ps t" "ordered lo hi t" "fst ` set (contents t) \<subseteq> K" "finite K"
  shows "length (ids t) < 2 * max 1 (card K)" "Suc h \<le> bits (max 1 (card K))"
proof -
  have len: "length (contents t) \<le> card K" by (rule contents_card [OF assms(3-5)])
  have "length (ids t) < 2 * max 1 (card K) \<and> 2 ^ h \<le> max 1 (card K)"
  proof (cases "contents t = []")
    case True
    then obtain i where "t = CLeaf i []" using assms(2)
      by (cases t) (auto dest!: two_children)
    then show ?thesis using assms(1) by simp
  next
    case False
    then show ?thesis
      using tree_pages [OF assms(2) False] tree_height [OF assms(1,2) False] len by linarith
  qed
  then show "length (ids t) < 2 * max 1 (card K)" "Suc h \<le> bits (max 1 (card K))"
    by (simp_all add: bits_ge)
qed

lemma put_reach_lean:
  assumes "bal h t" "sized ps t" "ordered lo hi t" "fst ` set (contents t) \<subseteq> K" "finite K" "lean ps (h, t, g)"
  shows "put_reach ps h g \<le> keys_reach ps (card K)"
proof -
  let ?L = "bits (max 1 (card K))"
  note small = tree_small [OF assms(1-5)]
  have lean: "unat (next_page_id g) = 1 + length (ids t @ free_list g @ free_list_page_ids g)"
    "pending_free g = []" "length (free_list g) \<le> Suc h" "length (free_list_page_ids g) \<le> chain_need ps (Suc h)"
    using assms(6) by (simp_all add: lean_def accounted_def)
  have "length (free_list g) + Suc h \<le> 2 * ?L" "Suc h \<le> 2 * ?L" using lean(3) small(2) by simp_all
  then have "chain_need ps (length (free_list g) + Suc h) \<le> chain_need ps (2 * ?L)"
    "chain_need ps (Suc h) \<le> chain_need ps (2 * ?L)"
    by (simp_all add: chain_need_mono)
  then show ?thesis using lean small unfolding put_reach_def keys_reach_def Let_def by simp
qed

lemma next_page_id_lean:
  "bal h t \<Longrightarrow> sized ps t \<Longrightarrow> ordered lo hi t \<Longrightarrow> fst ` set (contents t) \<subseteq> K \<Longrightarrow> finite K \<Longrightarrow> lean ps (h, t, g) \<Longrightarrow>
   unat (next_page_id g) \<le> keys_reach ps (card K)"
  using put_reach_lean [of h t ps lo hi K g] by (simp add: put_reach_def)

lemma two_keys_reach: "2 \<le> keys_reach ps m"
  by (simp add: keys_reach_def Let_def)

text \<open>Up to \<open>2 ^ 60\<close> different keys there are always ids left.\<close>

lemma keys_reach_64:
  assumes "page_size_ok ps" "m \<le> 2 ^ 60"
  shows "keys_reach ps m < 2 ^ 64"
proof -
  let ?l = "bits (max 1 m)"
  have "?l \<le> 61" using assms(2) by (intro bits_le) simp_all
  moreover have "chain_need ps (2 * ?l) \<le> 2 * ?l"
    unfolding chain_need_def using chain_cap(1) [OF assms(1) refl] by (rule div_ceil_le)
  moreover have "max 1 m \<le> 2 ^ 60" using assms(2) by simp
  ultimately show ?thesis unfolding keys_reach_def Let_def by simp
qed

section \<open>Runs without readers\<close>

context page_backend
begin

lemma put_lean:
  assumes st: "store_ok ops inv h t st" "page_size ops (store_io st) = ps" "readers st = 0" "lean ps (h, t, write_lock st)"
    and K: "fst ` set (contents t) \<subseteq> K" "finite K" and kv: "k \<in> K" "length k + length v \<le> max_kv_size ps"
    and lim: "keys_reach ps (card K) < 2 ^ 64" "keys_reach ps (card K) \<le> limit (store_io st)"
  obtains st1 t1 h1 where "put_reach ps h (write_lock st) < 2 ^ 64" "put_reach ps h (write_lock st) \<le> limit (store_io st)"
    "engine_put ops st k v = Some (Inr (), st1)" "store_ok ops inv h1 t1 st1" "page_size ops (store_io st1) = ps"
    "readers st1 = 0" "lean ps (h1, t1, write_lock st1)" "contents t1 = upsert k v (contents t)"
    "fst ` set (contents t1) \<subseteq> K" "evolves (store_io st) (store_io st1)" "limit (store_io st1) = limit (store_io st)"
proof -
  have tree: "bal h t" "sized ps t" "ordered None None t" using st(1,2) by (simp_all add: store_ok_def tree_ok_def)
  have reach: "put_reach ps h (write_lock st) < 2 ^ 64" "put_reach ps h (write_lock st) \<le> limit (store_io st)"
    using put_reach_lean [OF tree K st(4)] lim by linarith+
  obtain st1 t1 h1 where 1: "engine_put ops st k v = Some (Inr (), st1)" "store_ok ops inv h1 t1 st1"
    "contents t1 = upsert k v (contents t)" "readers st1 = readers st" "evolves (store_io st) (store_io st1)"
    "pending_free (write_lock st1) = [] \<and> free_list (write_lock st1) \<noteq> []" "spends ps h t (write_lock st) h1 t1 (write_lock st1)"
    by (rule put_ok [OF st(1) kv(2) [folded st(2)] reach [folded st(2)], unfolded st(2)]) (use st(3) in blast)
  have "run_step ps 0 (h, t, write_lock st) (h1, t1, write_lock st1)" using 1(6,7) by (simp add: run_step_def)
  then have "lean ps (h1, t1, write_lock st1)" using st(4) by (rule lean_step)
  moreover have "fst ` set (contents t1) \<subseteq> K" using K(1) kv(1) by (simp add: 1(3) fst_set_upsert)
  ultimately show ?thesis
    using that reach 1(1-5) st(2,3) evolves_facts(2,3) [OF 1(5)] by auto
qed

lemma put_all_lean:
  "store_ok ops inv h t st \<Longrightarrow> page_size ops (store_io st) = ps \<Longrightarrow> readers st = 0 \<Longrightarrow> lean ps (h, t, write_lock st) \<Longrightarrow>
   fst ` set (contents t) \<subseteq> K \<Longrightarrow> finite K \<Longrightarrow> \<forall>(k, v) \<in> set kvs. k \<in> K \<and> length k + length v \<le> max_kv_size ps \<Longrightarrow>
   keys_reach ps (card K) < 2 ^ 64 \<Longrightarrow> keys_reach ps (card K) \<le> limit (store_io st) \<Longrightarrow>
   \<exists>st' t' h'. put_all ops st kvs = Some st' \<and> store_ok ops inv h' t' st' \<and>
     contents t' = upserts kvs (contents t) \<and> evolves (store_io st) (store_io st') \<and>
     readers st' = 0 \<and> lean ps (h', t', write_lock st')"
proof (induction kvs arbitrary: st t h)
  case Nil
  then show ?case by (auto simp: store_ok_def intro!: evolves_refl)
next
  case (Cons p kvs)
  obtain k v where p: "p = (k, v)" by (cases p)
  then have kv: "k \<in> K" "length k + length v \<le> max_kv_size ps" using Cons.prems(7) by simp_all
  obtain st1 t1 h1 where 1: "engine_put ops st k v = Some (Inr (), st1)" "store_ok ops inv h1 t1 st1"
    "page_size ops (store_io st1) = ps" "readers st1 = 0" "lean ps (h1, t1, write_lock st1)"
    "contents t1 = upsert k v (contents t)" "fst ` set (contents t1) \<subseteq> K" "evolves (store_io st) (store_io st1)"
    "limit (store_io st1) = limit (store_io st)"
    by (rule put_lean [OF Cons.prems(1-6) kv Cons.prems(8,9)]) (rule that; assumption)
  have rest: "\<forall>(k, v) \<in> set kvs. k \<in> K \<and> length k + length v \<le> max_kv_size ps" using Cons.prems(7) by simp
  obtain st' t' h' where 2: "put_all ops st1 kvs = Some st'" "store_ok ops inv h' t' st'"
    "contents t' = upserts kvs (contents t1)" "evolves (store_io st1) (store_io st')" "readers st' = 0"
    "lean ps (h', t', write_lock st')"
    using Cons.IH [OF 1(2-5,7) Cons.prems(6) rest Cons.prems(8)] Cons.prems(9) 1(9) by auto
  have "put_all ops st (p # kvs) = Some st'" "contents t' = upserts (p # kvs) (contents t)"
    using 1(1,6) 2(1,3) by (simp_all add: p)
  then show ?case using 2(2,5,6) evolves_trans [OF 1(8) 2(4)] by blast
qed

text \<open>A store that has just been created, and the lookups afterwards.\<close>

lemma fresh_lean_run:
  assumes "store_ok ops inv 0 (CLeaf 1 []) st" "fresh_writer (write_lock st)" "page_size ops (store_io st) = ps"
    and "readers st = 0" "\<forall>(k, v) \<in> set kvs. length k + length v \<le> max_kv_size ps"
    and "keys_reach ps (card (fst ` set kvs)) < 2 ^ 64" "keys_reach ps (card (fst ` set kvs)) \<le> limit (store_io st)"
  obtains st' t' h' where "put_all ops st kvs = Some st'" "store_ok ops inv h' t' st'"
    "evolves (store_io st) (store_io st')" "contents t' = upserts kvs []"
    "\<And>key. engine_get ops st' key = Some (map_of (rev kvs) key, st')" "lean ps (h', t', write_lock st')"
proof -
  have kvs: "\<forall>(k, v) \<in> set kvs. k \<in> fst ` set kvs \<and> length k + length v \<le> max_kv_size ps"
    using assms(5) by force
  from put_all_lean [OF assms(1,3,4) lean_fresh [OF assms(2)] _ _ kvs assms(6,7)]
  obtain st' t' h' where 1: "put_all ops st kvs = Some st'" "store_ok ops inv h' t' st'"
    "contents t' = upserts kvs []" "evolves (store_io st) (store_io st')" "lean ps (h', t', write_lock st')" by auto
  then have "tree_ok ops h' t' st'" by (simp add: store_ok_def)
  from engine_get_ok [OF this] show ?thesis using that 1 by (simp add: map_of_upserts)
qed

end

end
