(* ===== verification/Engine_Correct.thy ===== *)
theory Engine_Correct
  imports Growth
begin

text \<open>
  The engine on its two backends: the general lemmas at the in-memory page table and at the
  memory-mapped file, with the bounds each backend brings.
\<close>

section \<open>The in-memory engine\<close>

lemma memory_first_page: "memory_read_page (memory_new ps) i = Some (replicate ps 0)"
  by (simp add: memory_read_page_def memory_new_def)

lemma engine_in_memory_ok:
  assumes "page_size_ok ps"
  obtains st where "engine_in_memory ps = Some st" "store_ok memory_ops memory_inv 0 (CLeaf 1 []) st"
    "fresh_writer (write_lock st)" "readers st = 0" "page_size memory_ops (store_io st) = ps"
    "\<And>j. j \<noteq> HEADER_PAGE_ID \<Longrightarrow> j \<noteq> 1 \<Longrightarrow> read_page memory_ops (store_io st) j = Some (replicate ps 0)"
proof -
  have ps: "page_size memory_ops (memory_new ps) = ps" by (simp add: memory_new_def)
  obtain st where st: "open_or_create memory_ops (memory_new ps) = Some (Inr st)"
    "store_ok memory_ops memory_inv 0 (CLeaf 1 []) st" "fresh_writer (write_lock st)" "readers st = 0"
    "mem.evolves (memory_new ps) (store_io st)"
    "\<And>j b. j \<noteq> HEADER_PAGE_ID \<Longrightarrow> j \<noteq> 1 \<Longrightarrow> memory_read_page (memory_new ps) j = Some b \<Longrightarrow>
       memory_read_page (store_io st) j = Some b"
    by (rule mem.open_fresh [OF memory_inv_new, of ps "replicate ps 0"])
      (use assms ps in \<open>simp_all add: memory_first_page header_from_zeros\<close>)
  have "page_size memory_ops (store_io st) = ps" using mem.evolves_facts(2) [OF st(5)] ps by simp
  then show ?thesis using that [of st] st by (simp add: engine_in_memory_def memory_first_page)
qed

text \<open>A run never needs more ids than there are, up to \<open>2 ^ 30\<close> puts.\<close>

lemma run_reach_bound:
  assumes "page_size_ok ps"
  shows "run_reach ps n \<le> 2 + 2 * n + 2 * (n * n)"
proof -
  have "chain_need ps (n * n) \<le> n * n"
    unfolding chain_need_def using chain_cap(1) [OF assms refl] by (rule div_ceil_le)
  then show ?thesis by (simp add: run_reach_def)
qed

lemma run_reach_64:
  assumes "page_size_ok ps" "n \<le> 2 ^ 30"
  shows "run_reach ps n < 2 ^ 64"
proof -
  have "n * n \<le> 2 ^ 30 * 2 ^ 30" using assms(2) by (intro mult_le_mono)
  then show ?thesis using run_reach_bound [OF assms(1), of n] assms(2) by simp
qed

lemma memory_run:
  assumes "page_size_ok ps" "\<forall>(k, v) \<in> set kvs. length k + length v \<le> max_kv_size ps" "card (fst ` set kvs) \<le> 2 ^ 60"
  obtains st0 st t h where "engine_in_memory ps = Some st0" "put_all memory_ops st0 kvs = Some st"
    "store_ok memory_ops memory_inv h t st" "contents t = upserts kvs []"
    "\<And>key. engine_get memory_ops st key = Some (map_of (rev kvs) key, st)"
proof -
  obtain st0 where st0: "engine_in_memory ps = Some st0" "store_ok memory_ops memory_inv 0 (CLeaf 1 []) st0"
    "fresh_writer (write_lock st0)" "page_size memory_ops (store_io st0) = ps" "readers st0 = 0"
    using engine_in_memory_ok [OF assms(1)] by blast
  have reach: "keys_reach ps (card (fst ` set kvs)) < 2 ^ 64" using assms(1,3) by (rule keys_reach_64)
  then show ?thesis
    using mem.fresh_lean_run [OF st0(2-5) assms(2) reach] that st0(1) by (metis less_imp_le)
qed

section \<open>The engine on a file\<close>

text \<open>
  The contract again, with the ceiling and the disk limit of the mapping fixed: no write changes them.
\<close>

definition mmap_at :: "nat \<Rightarrow> nat \<Rightarrow> mmap_page_io \<Rightarrow> bool" where
  "mmap_at len disk io \<longleftrightarrow> mmap_inv io \<and> mmap_len io = len \<and> disk_limit io = disk"

lemma mmap_write_page_fixed:
  "mmap_write_page io i bs = Some io' \<Longrightarrow> mmap_len io' = mmap_len io \<and> disk_limit io' = disk_limit io"
  by (auto simp: mmap_write_page_def ensure_committed_def write_at_def bind_eq_Some_conv split: if_splits)

interpretation mapping: page_backend mmap_ops "mmap_at len disk" mmap_limit for len disk
proof (unfold_locales, goal_cases)
  case (1 io i bs)
  then show ?case using mmap.read_length [of io i bs] by (simp add: mmap_at_def)
next
  case (2 io i bs)
  then show ?case using mmap.write_ok [of io i bs] by (simp add: mmap_at_def)
next
  case (3 io i bs io')
  then show ?case
    using mmap_write_page_fixed [of io i bs io'] mmap.write_inv [of io i bs io'] by (simp add: mmap_at_def)
next
  case (4 io i bs io')
  then show ?case using mmap.write_page_size [of io i bs io'] by (simp add: mmap_at_def)
next
  case (5 io i bs io')
  then show ?case using mmap.write_limit [of io i bs io'] by (simp add: mmap_at_def)
next
  case (6 io i bs io')
  then show ?case using mmap.write_same [of io i bs io'] by (simp add: mmap_at_def)
next
  case (7 io i bs io' j b)
  then show ?case using mmap.write_other [of io i bs io' j b] by (simp add: mmap_at_def)
next
  case (8 io)
  then show ?case using mmap.sync_id [of io] by (simp add: mmap_at_def)
qed

text \<open>Opening the file again shows the mapping as it was.\<close>

lemma mmap_reopen:
  assumes "mmap_at (max DEFAULT_MAX_SIZE ps) disk io" "mmap_page_size io = ps" "\<And>c. os c = None"
  shows "mmap_open os disk (file_bytes io) ps = Inr io"
proof -
  have "max (length (file_bytes io)) ps = length (file_bytes io)"
    "max DEFAULT_MAX_SIZE (length (file_bytes io)) = mmap_len io"
    using assms(1,2) by (auto simp: mmap_at_def mmap_inv_def)
  then show ?thesis
    using assms by (simp add: mmap_open_def mmap_open_with_max_size_def Let_def mmap_at_def mmap_inv_def)
qed

lemma mmap_open_new:
  assumes "\<And>c. os c = None" "page_size_ok ps"
  obtains io where "mmap_open os disk [] ps = Inr io" "mmap_at (max DEFAULT_MAX_SIZE ps) disk io"
    "mmap_page_size io = ps" "mmap_limit io = min (max DEFAULT_MAX_SIZE ps) disk div ps"
    "mmap_read_page io 0 = Some (replicate ps 0)"
proof -
  have ps: "0 < ps" "ps < 2 ^ 30" using page_size_bounds [OF assms(2)] by simp_all
  then show ?thesis
    using assms(1) that
    by (simp add: mmap_open_def mmap_open_with_max_size_def Let_def mmap_at_def mmap_inv_def set_len_def
        mmap_limit_def DEFAULT_MAX_SIZE_def mmap_read_page_def usize_mul_def read_at_def slice_of_def)
qed

lemma engine_open_ok:
  assumes "\<And>c. os c = None" "page_size_ok ps" "2 \<le> min (max DEFAULT_MAX_SIZE ps) disk div ps"
  obtains st where "engine_open os disk [] ps = Some (Inr st)"
    "store_ok mmap_ops (mmap_at (max DEFAULT_MAX_SIZE ps) disk) 0 (CLeaf 1 []) st"
    "fresh_writer (write_lock st)" "readers st = 0" "page_size mmap_ops (store_io st) = ps"
    "mmap_limit (store_io st) = min (max DEFAULT_MAX_SIZE ps) disk div ps"
proof -
  obtain io where io: "mmap_open os disk [] ps = Inr io" "mmap_at (max DEFAULT_MAX_SIZE ps) disk io"
    "mmap_page_size io = ps" "mmap_limit io = min (max DEFAULT_MAX_SIZE ps) disk div ps"
    "mmap_read_page io 0 = Some (replicate ps 0)"
    using mmap_open_new [OF assms(1,2)] .
  obtain st where st: "open_or_create mmap_ops io = Some (Inr st)"
    "store_ok mmap_ops (mmap_at (max DEFAULT_MAX_SIZE ps) disk) 0 (CLeaf 1 []) st"
    "fresh_writer (write_lock st)" "readers st = 0"
    "mapping.evolves (max DEFAULT_MAX_SIZE ps) disk io (store_io st)"
    by (rule mapping.open_fresh [OF io(2), of "replicate ps 0"])
      (use assms io in \<open>simp_all add: HEADER_PAGE_ID_def header_from_zeros\<close>)
  have "page_size mmap_ops (store_io st) = ps" "mmap_limit (store_io st) = mmap_limit io"
    using mapping.evolves_facts(2,3) [OF st(5)] io(3) by simp_all
  then show ?thesis using that [of st] st io(1,4) by (simp add: engine_open_def)
qed

text \<open>A page id below the ceiling is far below \<open>2 ^ 64\<close>.\<close>

lemma ceiling_64: "page_size_ok ps \<Longrightarrow> n \<le> min (max DEFAULT_MAX_SIZE ps) disk div ps \<Longrightarrow> n < 2 ^ 64"
proof -
  assume ps: "page_size_ok ps" and n: "n \<le> min (max DEFAULT_MAX_SIZE ps) disk div ps"
  have "min (max DEFAULT_MAX_SIZE ps) disk div ps \<le> max DEFAULT_MAX_SIZE ps"
    using div_le_dividend [of "min (max DEFAULT_MAX_SIZE ps) disk" ps] by linarith
  moreover have "max DEFAULT_MAX_SIZE ps < 2 ^ 64" using page_size_bounds(2) [OF ps] by (simp add: DEFAULT_MAX_SIZE_def)
  ultimately show ?thesis using n by linarith
qed

lemma mmap_run:
  assumes os: "\<And>c. os c = None" and ps: "page_size_ok ps"
    and kvs: "\<forall>(k, v) \<in> set kvs. length k + length v \<le> max_kv_size ps"
    and lim: "keys_reach ps (card (fst ` set kvs)) \<le> min (max DEFAULT_MAX_SIZE ps) disk div ps"
  obtains st0 st t h where "engine_open os disk [] ps = Some (Inr st0)" "put_all mmap_ops st0 kvs = Some st"
    "store_ok mmap_ops (mmap_at (max DEFAULT_MAX_SIZE ps) disk) h t st" "contents t = upserts kvs []"
    "mmap_page_size (store_io st) = ps"
    "\<And>key. engine_get mmap_ops st key = Some (map_of (rev kvs) key, st)"
proof -
  have two: "2 \<le> min (max DEFAULT_MAX_SIZE ps) disk div ps"
    using lim two_keys_reach [of ps "card (fst ` set kvs)"] by linarith
  obtain st0 where st0: "engine_open os disk [] ps = Some (Inr st0)"
    "store_ok mmap_ops (mmap_at (max DEFAULT_MAX_SIZE ps) disk) 0 (CLeaf 1 []) st0"
    "fresh_writer (write_lock st0)" "page_size mmap_ops (store_io st0) = ps" "readers st0 = 0"
    "mmap_limit (store_io st0) = min (max DEFAULT_MAX_SIZE ps) disk div ps"
    by (rule engine_open_ok [OF os ps two]) (rule that; assumption)
  obtain st t h where "put_all mmap_ops st0 kvs = Some st"
    "store_ok mmap_ops (mmap_at (max DEFAULT_MAX_SIZE ps) disk) h t st"
    "mapping.evolves (max DEFAULT_MAX_SIZE ps) disk (store_io st0) (store_io st)" "contents t = upserts kvs []"
    "\<And>key. engine_get mmap_ops st key = Some (map_of (rev kvs) key, st)"
    by (rule mapping.fresh_lean_run [OF st0(2-5) kvs ceiling_64 [OF ps lim] lim [folded st0(6)]]) (rule that; assumption)
  moreover from this have "mmap_page_size (store_io st) = ps"
    using mapping.evolves_facts(2) [of "max DEFAULT_MAX_SIZE ps" disk "store_io st0" "store_io st"] st0(4) by simp
  ultimately show ?thesis using that st0(1) by blast
qed

end
