(* ===== verification/Concurrency.thy ===== *)
theory Concurrency
  imports Engine_Correct
begin

text \<open>
  Readers beside the writer. A \<open>get\<close> enters (\<open>enter_read\<close>), loads the root, reads one page after the
  other and leaves (\<open>drop\<close> of the guard); between its steps other readers and the writer run. The
  steps here are those of \<open>get\<close> in \<open>src/01-btree/src/storage/tree.rs\<close> with the guard functions of
  \<open>store.rs\<close>, on the shared store.

  \<open>published\<close> and \<open>snap\<close> belong to the specification: the map that the finished puts have built, and
  what it was when a reader loaded the root.
\<close>

section \<open>The system\<close>

datatype reader_pc =
    Outside
  | Entered key
  | Rooted key page_id
  | At key page
  | Answered key "val option"

text \<open>
  Where the writer is in the commit of a prepared insertion: the key, the value, the new root and the
  transaction. The transaction's own copy of the store is not used; the shared one is.
\<close>

datatype 'io writer_pc =
    Idle
  | Prepared key val page_id "'io write_txn"
  | Flushed key val page_id "'io write_txn"
  | Gated key val page_id "'io write_txn"
  | Persisted key val page_id "'io write_txn"

record 'io system =
  shared :: "'io store"
  writer :: "'io writer_pc"
  pcs :: "nat \<Rightarrow> reader_pc"
  published :: "key \<rightharpoonup> val"
  snap :: "nat \<Rightarrow> key \<rightharpoonup> val"

text \<open>The ids and the backend suffice for one more put, whatever the height of the tree.\<close>

definition capacity :: "'io page_io \<Rightarrow> ('io \<Rightarrow> nat) \<Rightarrow> 'io store \<Rightarrow> bool" where
  "capacity ops lim st \<longleftrightarrow>
     (let g = write_lock st; r = put_reach (page_size ops (store_io st)) (unat (next_page_id g)) g
      in r < 2 ^ 64 \<and> r \<le> lim (store_io st))"

text \<open>The steps of a reader.\<close>

inductive read_step :: "'io page_io \<Rightarrow> 'io system \<Rightarrow> 'io system \<Rightarrow> bool" for ops where
  enter: "pcs s i = Outside \<Longrightarrow>
    read_step ops s (s\<lparr>shared := enter_read (shared s), pcs := (pcs s)(i := Entered k)\<rparr>)"
| load_root: "pcs s i = Entered k \<Longrightarrow>
    read_step ops s (s\<lparr>pcs := (pcs s)(i := Rooted k (root (shared s))), snap := (snap s)(i := published s)\<rparr>)"
| read_root: "pcs s i = Rooted k r \<Longrightarrow> guard_read ops (shared s) r = Some pg \<Longrightarrow>
    read_step ops s (s\<lparr>pcs := (pcs s)(i := At k pg)\<rparr>)"
| descend: "pcs s i = At k (Internal n) \<Longrightarrow> internal_child_index n k = Some idx \<Longrightarrow>
    internal_get_child n idx = Some c \<Longrightarrow> guard_read ops (shared s) c = Some pg \<Longrightarrow>
    read_step ops s (s\<lparr>pcs := (pcs s)(i := At k pg)\<rparr>)"
| found: "pcs s i = At k (Leaf l) \<Longrightarrow> leaf_search l k = Some (Inr idx) \<Longrightarrow> leaf_get_val l idx = Some v \<Longrightarrow>
    read_step ops s (s\<lparr>pcs := (pcs s)(i := Answered k (Some v))\<rparr>)"
| missing: "pcs s i = At k (Leaf l) \<Longrightarrow> leaf_search l k = Some (Inl idx) \<Longrightarrow>
    read_step ops s (s\<lparr>pcs := (pcs s)(i := Answered k None)\<rparr>)"
| leave: "pcs s i = Answered k v \<Longrightarrow>
    read_step ops s (s\<lparr>shared := drop_read (shared s), pcs := (pcs s)(i := Outside)\<rparr>)"

text \<open>
  Puts as single steps: no reader enters between the gate of a commit, where the number of readers is
  read, and the publication of the new root.
\<close>

inductive atomic_step :: "'io page_io \<Rightarrow> ('io \<Rightarrow> nat) \<Rightarrow> 'io system \<Rightarrow> 'io system \<Rightarrow> bool" for ops lim where
  read: "read_step ops s s' \<Longrightarrow> atomic_step ops lim s s'"
| put: "engine_put ops (shared s) k v = Some (Inr (), st) \<Longrightarrow> capacity ops lim (shared s) \<Longrightarrow>
    atomic_step ops lim s (s\<lparr>shared := st, published := (published s)(k \<mapsto> v)\<rparr>)"
| put_refused: "engine_put ops (shared s) k v = Some (Inl e, st) \<Longrightarrow>
    atomic_step ops lim s (s\<lparr>shared := st\<rparr>)"

text \<open>A run is a sequence of steps: the reflexive transitive closure of the relation.\<close>

section \<open>The invariant\<close>

text \<open>
  A subtree a reader may still visit: its pages are in the published tree or waiting to be free, and
  they have not been overwritten.
\<close>

definition visible :: "'io page_io \<Rightarrow> page_id set \<Rightarrow> 'io store \<Rightarrow> ctree \<Rightarrow> bool" where
  "visible ops P st u \<longleftrightarrow> rep (guard_read ops st) u \<and> set (ids u) \<subseteq> P \<and>
     sized (page_size ops (store_io st)) u \<and> (\<exists>lo hi. ordered lo hi u)"

fun reader_ok :: "'io page_io \<Rightarrow> page_id set \<Rightarrow> 'io store \<Rightarrow> (key \<rightharpoonup> val) \<Rightarrow> reader_pc \<Rightarrow> bool" where
  "reader_ok ops P st m Outside \<longleftrightarrow> True"
| "reader_ok ops P st m (Entered k) \<longleftrightarrow> True"
| "reader_ok ops P st m (Rooted k r) \<longleftrightarrow>
     (\<exists>u. tid u = r \<and> visible ops P st u \<and> map_of (contents u) k = m k)"
| "reader_ok ops P st m (At k pg) \<longleftrightarrow>
     (\<exists>u. pg = mk_page (tid u) (node_of u) \<and> visible ops P st u \<and> map_of (contents u) k = m k)"
| "reader_ok ops P st m (Answered k v) \<longleftrightarrow> v = m k"

definition active :: "(nat \<Rightarrow> reader_pc) \<Rightarrow> nat set" where
  "active f = {i. f i \<noteq> Outside}"

definition live_pages :: "ctree \<Rightarrow> 'io store \<Rightarrow> page_id set" where
  "live_pages t st = set (ids t) \<union> set (pending_free (write_lock st))"

definition system_ok :: "'io page_io \<Rightarrow> ('io \<Rightarrow> bool) \<Rightarrow> 'io system \<Rightarrow> bool" where
  "system_ok ops io_ok s \<longleftrightarrow>
     finite (active (pcs s)) \<and> readers (shared s) = card (active (pcs s)) \<and>
     (\<exists>h t. store_ok ops io_ok h t (shared s) \<and> map_of (contents t) = published s \<and>
       (\<forall>i. reader_ok ops (live_pages t (shared s)) (shared s) (snap s i) (pcs s i)))"

lemma active_upd:
  "active (f(i := pc)) = (if pc = Outside then active f - {i} else insert i (active f))"
  by (auto simp: active_def)

lemma active_mem [simp]: "i \<in> active f \<longleftrightarrow> f i \<noteq> Outside"
  by (simp add: active_def)

text \<open>The count of readers is no part of the tree, the pages or the disk.\<close>

lemma readers_irrelevant [simp]:
  "guard_read ops (st\<lparr>readers := n\<rparr>) = guard_read ops st"
  "tree_ok ops h t (st\<lparr>readers := n\<rparr>) = tree_ok ops h t st"
  "store_ok ops io_ok h t (st\<lparr>readers := n\<rparr>) = store_ok ops io_ok h t st"
  "visible ops P (st\<lparr>readers := n\<rparr>) u = visible ops P st u"
  "reader_ok ops P (st\<lparr>readers := n\<rparr>) m pc = reader_ok ops P st m pc"
  "live_pages t (st\<lparr>readers := n\<rparr>) = live_pages t st"
proof -
  show g: "guard_read ops (st\<lparr>readers := n\<rparr>) = guard_read ops st" by (rule guard_read_cong) simp
  then show t: "tree_ok ops h t (st\<lparr>readers := n\<rparr>) = tree_ok ops h t st" by (simp add: tree_ok_def)
  then show "store_ok ops io_ok h t (st\<lparr>readers := n\<rparr>) = store_ok ops io_ok h t st"
    by (simp add: store_ok_def disk_ok_def chain_used_def)
  have v: "visible ops P (st\<lparr>readers := n\<rparr>) u = visible ops P st u" for u
    using g by (simp add: visible_def)
  then show "visible ops P (st\<lparr>readers := n\<rparr>) u = visible ops P st u" .
  show "reader_ok ops P (st\<lparr>readers := n\<rparr>) m pc = reader_ok ops P st m pc"
    by (cases pc) (simp_all add: v)
  show "live_pages t (st\<lparr>readers := n\<rparr>) = live_pages t st" by (simp add: live_pages_def)
qed

lemma visible_child:
  fixes k :: key
  assumes "visible ops P st (CNode i ks ts)"
  defines "p \<equiv> upper_bound ks k"
  shows "visible ops P st (ts ! p) \<and> p < length ts \<and> keys_small ks \<and> sorted_keys ks \<and>
    map_of (concat (map contents ts)) k = map_of (contents (ts ! p)) k"
proof -
  from assms(1) obtain lo hi where chain: "chain lo ks ts hi" by (auto simp: visible_def)
  have len: "length ts = Suc (length ks)" using chain by (rule chain_length)
  have p: "p \<le> length ks" "p < length ts" using len by (simp_all add: p_def less_Suc_eq_le)
  have "ts ! p \<in> set ts" using p by simp
  then have "visible ops P st (ts ! p)"
    using assms(1) chain_nth [OF chain p(1)] by (auto simp: visible_def)
  then show ?thesis
    using assms(1) p chain_keys [OF chain] map_of_contents_child [OF chain, of k]
    by (simp add: visible_def p_def)
qed

lemma visible_root: "visible ops P st u \<Longrightarrow> guard_read ops st (tid u) = Some (mk_page (tid u) (node_of u))"
  by (simp add: visible_def rep_below)

text \<open>A reader's own steps keep its state right.\<close>

lemma descend_child:
  assumes "reader_ok ops P st m (At k (Internal n))" "internal_child_index n k = Some idx"
    "internal_get_child n idx = Some c"
  obtains u where "c = tid u" "visible ops P st u" "map_of (contents u) k = m k"
proof -
  obtain u where u: "Internal n = mk_page (tid u) (node_of u)" "visible ops P st u" "map_of (contents u) k = m k"
    using assms(1) by auto
  then obtain i ks ts where node: "u = CNode i ks ts" "n = mk_internal i ks (map tid ts)" by (cases u) auto
  let ?c = "ts ! upper_bound ks k"
  have vc: "visible ops P st ?c" "upper_bound ks k < length ts" "keys_small ks" "sorted_keys ks"
    "map_of (concat (map contents ts)) k = map_of (contents ?c) k"
    using visible_child [OF u(2) [unfolded node(1)], of k] by simp_all
  have "idx = as_u16 (upper_bound ks k)"
    using assms(2) vc by (simp add: node(2) internal_child_index_mk)
  then have "c = tid ?c"
    using assms(3) vc keys_small_length [OF vc(3)] upper_bound_le [of ks k]
      internal_get_child_mk [of "upper_bound ks k" "map tid ts" i ks] by (simp add: node(2))
  then show ?thesis using that vc(1,5) u(3) node(1) by simp
qed

lemma leaf_answer:
  assumes "reader_ok ops P st m (At k (Leaf l))"
  obtains i kvs where "l = mk_leaf i kvs" "leaf_small kvs" "sorted_keys (map fst kvs)" "map_of kvs k = m k"
proof -
  obtain u where u: "Leaf l = mk_page (tid u) (node_of u)" "visible ops P st u" "map_of (contents u) k = m k"
    using assms by auto
  then show ?thesis using that by (cases u) (auto simp: visible_def)
qed

text \<open>The search in a leaf gives the value of the key, or that it is missing.\<close>

lemma leaf_found:
  assumes "leaf_small kvs" "sorted_keys (map fst kvs)"
  obtains r where "leaf_search (mk_leaf i kvs) k = Some r"
    "\<And>idx. r = Inl idx \<Longrightarrow> map_of kvs k = None"
    "\<And>idx. r = Inr idx \<Longrightarrow> \<exists>v. leaf_get_val (mk_leaf i kvs) idx = Some v \<and> map_of kvs k = Some v"
proof -
  have loop: "get_loop undefined undefined (Leaf (mk_leaf i kvs)) k = Some (map_of kvs k)" by (rule leaf_lookup [OF assms])
  have search: "leaf_search (mk_leaf i kvs) k = Some (search_result (map fst kvs) k)" by (rule leaf_search_mk [OF assms])
  show ?thesis
  proof (cases "search_result (map fst kvs) k")
    case (Inl idx)
    then show ?thesis using that [OF search] loop search by (subst (asm) get_loop.simps) simp
  next
    case (Inr idx)
    then have "do { v \<leftarrow> leaf_get_val (mk_leaf i kvs) idx; Some (Some v) } = Some (map_of kvs k)"
      using loop search by (subst (asm) get_loop.simps) simp
    then obtain v where "leaf_get_val (mk_leaf i kvs) idx = Some v" "Some v = map_of kvs k"
      by (cases "leaf_get_val (mk_leaf i kvs) idx") auto
    then have "\<exists>v. leaf_get_val (mk_leaf i kvs) idx = Some v \<and> map_of kvs k = Some v" by metis
    then show ?thesis using that [OF search] Inr by simp
  qed
qed

lemma found_ok:
  assumes "reader_ok ops P st m (At k (Leaf l))" "leaf_search l k = Some (Inr idx)" "leaf_get_val l idx = Some v"
  shows "Some v = m k"
proof -
  obtain i kvs where kvs: "l = mk_leaf i kvs" "leaf_small kvs" "sorted_keys (map fst kvs)" "map_of kvs k = m k"
    using assms(1) by (rule leaf_answer)
  show ?thesis by (rule leaf_found [OF kvs(2,3), of i k]) (use assms(2,3) kvs(1,4) in auto)
qed

lemma missing_ok:
  assumes "reader_ok ops P st m (At k (Leaf l))" "leaf_search l k = Some (Inl idx)"
  shows "None = m k"
proof -
  obtain i kvs where kvs: "l = mk_leaf i kvs" "leaf_small kvs" "sorted_keys (map fst kvs)" "map_of kvs k = m k"
    using assms(1) by (rule leaf_answer)
  show ?thesis by (rule leaf_found [OF kvs(2,3), of i k]) (use assms(2) kvs(1,4) in auto)
qed

section \<open>Every step keeps it\<close>

lemma engine_put_too_large:
  assumes "max_kv_size (page_size ops (store_io st)) < length key + length val"
  shows "engine_put ops st key val =
    Some (Inl (EntryTooLarge (length key + length val) (max_kv_size (page_size ops (store_io st)))), st)"
  using assms
  by (simp add: engine_put_def tree_put_unfold check_limits_def Let_def begin_write_def txn_page_size_def)

lemma put_result:
  assumes "engine_put ops st key val = Some (r, st')"
  shows "r = Inr () \<longleftrightarrow> length key + length val \<le> max_kv_size (page_size ops (store_io st))"
    and "r \<noteq> Inr () \<Longrightarrow> st' = st"
proof -
  show iff: "r = Inr () \<longleftrightarrow> length key + length val \<le> max_kv_size (page_size ops (store_io st))"
    using assms by (auto simp: engine_put_def tree_put_unfold check_limits_def Let_def begin_write_def
        txn_page_size_def bind_eq_Some_conv split: if_splits)
  show "r \<noteq> Inr () \<Longrightarrow> st' = st" using iff assms engine_put_too_large [of ops st key val] by simp
qed

lemma height_ids: "bal h t \<Longrightarrow> sized ps t \<Longrightarrow> h < length (ids t)"
proof (induction t arbitrary: h)
  case (CLeaf i kvs)
  then show ?case by simp
next
  case (CNode i ks ts)
  then obtain t ts' where ts: "ts = t # ts'" by (cases ts) auto
  with CNode have "h - 1 < length (ids t)" by simp
  with CNode.prems(1) ts show ?case by simp
qed

lemma pool_ok_length: "pool_ok xs g \<Longrightarrow> length xs \<le> unat (next_page_id g)"
proof -
  assume pool: "pool_ok xs g"
  have "length xs = card (unat ` set xs)"
    using pool by (subst card_image) (auto simp: pool_ok_def distinct_card inj_on_def word_unat_eq_iff)
  also have "\<dots> \<le> card {..<unat (next_page_id g)}"
    using pool by (intro card_mono) (auto simp: pool_ok_def)
  finally show ?thesis by simp
qed

lemma height_next:
  assumes "store_ok ops io_ok h t st"
  shows "h \<le> unat (next_page_id (write_lock st))"
proof -
  have "h < length (ids t)" using assms by (auto simp: store_ok_def tree_ok_def intro: height_ids)
  moreover have "pool_ok (ids t) (write_lock st)" using assms by (auto simp: store_ok_def dest: pool_ok_sub)
  then have "length (ids t) \<le> unat (next_page_id (write_lock st))" by (rule pool_ok_length)
  ultimately show ?thesis by simp
qed

lemma put_reach_mono:
  assumes "h \<le> h'"
  shows "put_reach ps h g \<le> put_reach ps h' g"
proof -
  have "chain_need ps (length (free_list g) + length (pending_free g) + Suc h) \<le>
      chain_need ps (length (free_list g) + length (pending_free g) + Suc h')"
    using assms by (intro chain_need_mono) simp
  then show ?thesis using assms unfolding put_reach_def by linarith
qed

lemma put_reach_of_capacity:
  assumes "store_ok ops ok h t st" "capacity ops lim st"
  shows "put_reach (page_size ops (store_io st)) h (write_lock st) < 2 ^ 64"
    "put_reach (page_size ops (store_io st)) h (write_lock st) \<le> lim (store_io st)"
  using put_reach_mono [OF height_next [OF assms(1)], of "page_size ops (store_io st)" "write_lock st"] assms(2)
  unfolding capacity_def Let_def by linarith+

lemma visible_mono:
  assumes "visible ops P st u" "P \<subseteq> P'" "page_size ops (store_io st') = page_size ops (store_io st)"
    and "\<And>j pg. j \<in> P \<Longrightarrow> guard_read ops st j = Some pg \<Longrightarrow> guard_read ops st' j = Some pg"
  shows "visible ops P' st' u"
proof -
  have "rep (guard_read ops st') u"
    using assms(1) by (auto simp: visible_def intro!: assms(4) elim!: rep_mono)
  then show ?thesis using assms(1-3) by (auto simp: visible_def)
qed

text \<open>
  The steps of readers, seen from a store \<open>st\<close> whose pages \<open>P\<close> the shared one still has: whatever else
  has changed in the shared store, the readers stay right.
\<close>

lemma read_step_readers:
  assumes step: "read_step ops s s'" and rd: "\<And>i. reader_ok ops P st (snap s i) (pcs s i)"
    and tree: "visible ops P st t" "root (shared s) = tid t" "map_of (contents t) = published s"
    and kept: "\<And>j pg. j \<in> P \<Longrightarrow> guard_read ops st j = Some pg \<Longrightarrow> guard_read ops (shared s) j = Some pg"
  shows "reader_ok ops P st (snap s' i) (pcs s' i)"
proof -
  have root_kept: "pg = mk_page (tid u) (node_of u)"
    if "visible ops P st u" "guard_read ops (shared s) (tid u) = Some pg" for u pg
    using kept [OF _ visible_root [OF that(1)]] that by (auto simp: visible_def ids_below)
  from step show ?thesis
  proof cases
    case (enter j k)
    then show ?thesis using rd [of i] by simp
  next
    case (load_root j k)
    have "reader_ok ops P st (published s) (Rooted k (root (shared s)))" using tree by auto
    then show ?thesis using load_root rd [of i] by (simp del: reader_ok.simps)
  next
    case (read_root j k r pg)
    then obtain u where "tid u = r" "visible ops P st u" "map_of (contents u) k = snap s j k" using rd [of j] by auto
    then have "reader_ok ops P st (snap s j) (At k pg)" using root_kept read_root(3) by auto
    then show ?thesis using read_root rd [of i] by (simp del: reader_ok.simps)
  next
    case (descend j k n idx c pg)
    have "reader_ok ops P st (snap s j) (At k (Internal n))" using rd [of j] descend(2) by simp
    then obtain u where "c = tid u" "visible ops P st u" "map_of (contents u) k = snap s j k"
      using descend(3,4) by (rule descend_child)
    then have "reader_ok ops P st (snap s j) (At k pg)" using root_kept descend(5) by auto
    then show ?thesis using descend rd [of i] by (simp del: reader_ok.simps)
  next
    case (found j k l idx v)
    then have "reader_ok ops P st (snap s j) (Answered k (Some v))" using found_ok [of ops P st "snap s j"] rd [of j] by simp
    then show ?thesis using found rd [of i] by (simp del: reader_ok.simps)
  next
    case (missing j k l idx)
    then have "reader_ok ops P st (snap s j) (Answered k None)" using missing_ok [of ops P st "snap s j"] rd [of j] by simp
    then show ?thesis using missing rd [of i] by (simp del: reader_ok.simps)
  next
    case (leave j k v)
    then show ?thesis using rd [of i] by simp
  qed
qed

text \<open>Of the shared store a reader changes the count of readers only, which stays the number of those inside.\<close>

lemma read_step_frame:
  assumes "read_step ops s s'"
  shows "\<exists>n. shared s' = (shared s)\<lparr>readers := n\<rparr>" "writer s' = writer s" "published s' = published s"
proof -
  have same: "\<exists>n. st = st\<lparr>readers := n\<rparr>" for st :: "'a store"
    by (rule exI [of _ "readers st"]) simp
  show "\<exists>n. shared s' = (shared s)\<lparr>readers := n\<rparr>"
    using assms by cases (use same in \<open>auto simp: enter_read_def drop_read_def\<close>)
qed (use assms in \<open>cases; simp\<close>)+

lemma read_step_count:
  assumes "read_step ops s s'" "finite (active (pcs s))" "readers (shared s) = card (active (pcs s))"
  shows "finite (active (pcs s')) \<and> readers (shared s') = card (active (pcs s'))"
  using assms by cases (auto simp: enter_read_def drop_read_def active_upd insert_absorb)

lemma store_visible:
  "store_ok ops io_ok h t st \<Longrightarrow> visible ops (live_pages t st) st t \<and> root st = tid t"
  by (auto simp: visible_def live_pages_def store_ok_def tree_ok_def)

context page_backend
begin

lemma read_step_ok:
  assumes "read_step ops s s'" "system_ok ops inv s"
  shows "system_ok ops inv s'"
proof -
  obtain h t where t: "store_ok ops inv h t (shared s)" "map_of (contents t) = published s"
    "\<And>i. reader_ok ops (live_pages t (shared s)) (shared s) (snap s i) (pcs s i)"
    using assms(2) by (auto simp: system_ok_def)
  have "reader_ok ops (live_pages t (shared s)) (shared s) (snap s' i) (pcs s' i)" for i
    using store_visible [OF t(1)] t(2) by (intro read_step_readers [OF assms(1) t(3)]) auto
  moreover have "finite (active (pcs s')) \<and> readers (shared s') = card (active (pcs s'))"
    using assms(2) by (intro read_step_count [OF assms(1)]) (simp_all add: system_ok_def)
  moreover obtain n where "shared s' = (shared s)\<lparr>readers := n\<rparr>" "published s' = published s"
    using read_step_frame [OF assms(1)] by blast
  ultimately show ?thesis
    using t(1,2) unfolding system_ok_def by (intro conjI exI [of _ h] exI [of _ t]) simp_all
qed

lemma put_step_ok:
  assumes s: "system_ok ops inv s" and put: "engine_put ops (shared s) k v = Some (Inr (), st)"
    and cap: "capacity ops limit (shared s)"
  shows "system_ok ops inv (s\<lparr>shared := st, published := (published s)(k \<mapsto> v)\<rparr>)"
proof -
  let ?st = "shared s" and ?g = "write_lock (shared s)"
  obtain h t where ok: "store_ok ops inv h t ?st" "map_of (contents t) = published s"
    and rd: "\<forall>i. reader_ok ops (live_pages t ?st) ?st (snap s i) (pcs s i)"
    using s by (auto simp: system_ok_def)
  have kv: "length k + length v \<le> max_kv_size (page_size ops (store_io ?st))"
    using put_result(1) [OF put] by simp
  note reach = put_reach_of_capacity [OF ok(1) cap]
  obtain st' t' h' where 1: "engine_put ops ?st k v = Some (Inr (), st')" "store_ok ops inv h' t' st'"
    "contents t' = upsert k v (contents t)" "readers st' = readers ?st" "evolves (store_io ?st) (store_io st')"
    "readers ?st \<noteq> 0 \<Longrightarrow> set (ids t) \<union> set (pending_free ?g) \<subseteq> set (ids t') \<union> set (pending_free (write_lock st'))"
    "\<And>j pg. j \<in> set (ids t) \<union> set (pending_free ?g) \<Longrightarrow> guard_read ops ?st j = Some pg \<Longrightarrow>
       guard_read ops st' j = Some pg"
    by (rule put_ok [OF ok(1) kv reach]) (rule that; assumption)
  have st: "st = st'" using put 1(1) by simp
  have ps: "page_size ops (store_io st') = page_size ops (store_io ?st)" by (rule evolves_facts(2) [OF 1(5)])
  have "reader_ok ops (live_pages t' st') st' (snap s i) (pcs s i)" for i
  proof (cases "pcs s i = Outside")
    case False
    then have "active (pcs s) \<noteq> {}" by (auto simp: active_def)
    then have "readers ?st \<noteq> 0" using s by (auto simp: system_ok_def)
    then have sub: "live_pages t ?st \<subseteq> live_pages t' st'" using 1(6) by (simp add: live_pages_def)
    have "visible ops (live_pages t' st') st' u" if "visible ops (live_pages t ?st) ?st u" for u
      using that sub ps 1(7) by (rule visible_mono) (simp_all add: live_pages_def)
    then show ?thesis using rd [rule_format, of i] by (cases "pcs s i") auto
  qed simp
  moreover have "map_of (contents t') = (published s)(k \<mapsto> v)" using 1(3) ok(2) by (simp add: map_of_upsert)
  ultimately show ?thesis
    using s 1(2,4) unfolding system_ok_def st by auto
qed

lemma atomic_step_ok:
  assumes "atomic_step ops limit s s'" "system_ok ops inv s"
  shows "system_ok ops inv s'"
  using assms
proof cases
  case read
  then show ?thesis using assms(2) by (simp add: read_step_ok)
next
  case (put k v st)
  then show ?thesis using assms(2) by (simp add: put_step_ok)
next
  case (put_refused k v e st)
  then have "st = shared s" using put_result(2) by blast
  then show ?thesis using put_refused assms(2) by simp
qed

lemma atomic_run_ok:
  "(atomic_step ops limit)\<^sup>*\<^sup>* s s' \<Longrightarrow> system_ok ops inv s \<Longrightarrow> system_ok ops inv s'"
  by (induction rule: rtranclp_induct) (auto intro: atomic_step_ok)

end

section \<open>Readers make progress\<close>

text \<open>The system when an engine has just been opened.\<close>

definition start :: "'io store \<Rightarrow> 'io system" where
  "start st = \<lparr>shared = st, writer = Idle, pcs = \<lambda>_. Outside, published = Map.empty, snap = \<lambda>_. Map.empty\<rparr>"

lemma start_ok:
  assumes "store_ok ops io_ok 0 (CLeaf 1 []) st" "readers st = 0"
  shows "system_ok ops io_ok (start st)"
  using assms by (auto simp: system_ok_def start_def active_def intro!: exI [of _ 0] exI [of _ "CLeaf 1 []"])

text \<open>The steps of one reader, the others staying where they are.\<close>

definition own_step :: "'io page_io \<Rightarrow> nat \<Rightarrow> 'io system \<Rightarrow> 'io system \<Rightarrow> bool" where
  "own_step ops i s s' \<longleftrightarrow> read_step ops s s' \<and> (\<forall>j. j \<noteq> i \<longrightarrow> pcs s' j = pcs s j) \<and> pcs s' i \<noteq> Outside"

lemma own_stepI:
  "read_step ops s (s\<lparr>pcs := (pcs s)(i := pc)\<rparr>) \<Longrightarrow> pc \<noteq> Outside \<Longrightarrow> own_step ops i s (s\<lparr>pcs := (pcs s)(i := pc)\<rparr>)"
  "read_step ops s (s\<lparr>pcs := (pcs s)(i := pc), snap := f\<rparr>) \<Longrightarrow> pc \<noteq> Outside \<Longrightarrow>
    own_step ops i s (s\<lparr>pcs := (pcs s)(i := pc), snap := f\<rparr>)"
  by (simp_all add: own_step_def)

lemma own_steps_read: "(own_step ops i)\<^sup>*\<^sup>* s s' \<Longrightarrow> (read_step ops)\<^sup>*\<^sup>* s s'"
  by (induction rule: rtranclp_induct) (auto simp: own_step_def intro: rtranclp.rtrancl_into_rtrancl)

text \<open>A reader left alone goes down its tree to an answer.\<close>

lemma leaf_answered:
  assumes pc: "pcs s i = At k (Leaf (mk_leaf j kvs))" and leaf: "leaf_small kvs" "sorted_keys (map fst kvs)"
  shows "\<exists>s' v. (own_step ops i)\<^sup>*\<^sup>* s s' \<and> pcs s' i = Answered k v"
proof -
  obtain r where r: "leaf_search (mk_leaf j kvs) k = Some r"
    "\<And>idx. r = Inr idx \<Longrightarrow> \<exists>v. leaf_get_val (mk_leaf j kvs) idx = Some v \<and> map_of kvs k = Some v"
    by (rule leaf_found [OF leaf, of j k]) blast
  show ?thesis
  proof (cases r)
    case (Inl idx)
    from own_stepI(1) [OF read_step.missing [OF pc r(1) [unfolded this], of ops]]
    show ?thesis by (intro exI conjI) (rule r_into_rtranclp, simp, simp)
  next
    case (Inr idx)
    then obtain v where "leaf_get_val (mk_leaf j kvs) idx = Some v" using r(2) by blast
    from own_stepI(1) [OF read_step.found [OF pc r(1) [unfolded Inr] this, of ops]]
    show ?thesis by (intro exI conjI) (rule r_into_rtranclp, simp, simp)
  qed
qed

lemma reader_descends:
  assumes "visible ops P (shared s) u" "pcs s i = At k (mk_page (tid u) (node_of u))"
  shows "\<exists>s' v. (own_step ops i)\<^sup>*\<^sup>* s s' \<and> pcs s' i = Answered k v"
  using assms
proof (induction u arbitrary: s)
  case (CLeaf j kvs)
  have leaf: "leaf_small kvs" "sorted_keys (map fst kvs)" "pcs s i = At k (Leaf (mk_leaf j kvs))"
    using CLeaf by (auto simp: visible_def)
  show ?case by (rule leaf_answered [where s = s, OF leaf(3,1,2)])
next
  case (CNode j ks ts)
  let ?p = "upper_bound ks k"
  have c: "visible ops P (shared s) (ts ! ?p)" "?p < length ts" "keys_small ks" "sorted_keys ks"
    using visible_child [OF CNode.prems(1), of k] by simp_all
  have at: "pcs s i = At k (Internal (mk_internal j ks (map tid ts)))" using CNode.prems(2) by simp
  have "internal_child_index (mk_internal j ks (map tid ts)) k = Some (as_u16 ?p)"
    using c by (simp add: internal_child_index_mk)
  moreover have "internal_get_child (mk_internal j ks (map tid ts)) (as_u16 ?p) = Some (tid (ts ! ?p))"
    using internal_get_child_mk [of ?p "map tid ts" j ks] c keys_small_length [OF c(3)] upper_bound_le [of ks k]
    by simp
  ultimately have step: "read_step ops s (s\<lparr>pcs := (pcs s)(i := At k (mk_page (tid (ts ! ?p)) (node_of (ts ! ?p))))\<rparr>)"
      (is "read_step ops s ?s1")
    using visible_root [OF c(1)] by (rule read_step.descend [OF at])
  have "ts ! ?p \<in> set ts" using c(2) by simp
  then have "\<exists>s' v. (own_step ops i)\<^sup>*\<^sup>* ?s1 s' \<and> pcs s' i = Answered k v"
    by (rule CNode.IH) (use c(1) in simp_all)
  then show ?case using own_stepI(1) [OF step] by (blast intro: converse_rtranclp_into_rtranclp)
qed

lemma reader_reaches_answer:
  assumes s: "system_ok ops io_ok s" and pc: "pcs s i = Entered k \<or> pcs s i = Rooted k r \<or> pcs s i = At k pg"
  shows "\<exists>s' v. (own_step ops i)\<^sup>*\<^sup>* s s' \<and> pcs s' i = Answered k v"
proof -
  obtain h t where t: "store_ok ops io_ok h t (shared s)"
    "reader_ok ops (live_pages t (shared s)) (shared s) (snap s i) (pcs s i)"
    using s by (auto simp: system_ok_def simp del: reader_ok.simps)
  have vis: "visible ops (live_pages t (shared s)) (shared s) t" "root (shared s) = tid t"
    using store_visible [OF t(1)] by simp_all
  have rooted: "\<exists>s' v. (own_step ops i)\<^sup>*\<^sup>* s1 s' \<and> pcs s' i = Answered k v"
    if u: "visible ops P (shared s1) u" "pcs s1 i = Rooted k (tid u)" for s1 u P
  proof -
    have "own_step ops i s1 (s1\<lparr>pcs := (pcs s1)(i := At k (mk_page (tid u) (node_of u)))\<rparr>)"
      using u(2) visible_root [OF u(1)] by (intro own_stepI(1) read_step.read_root) simp_all
    moreover have "\<exists>s' v. (own_step ops i)\<^sup>*\<^sup>* (s1\<lparr>pcs := (pcs s1)(i := At k (mk_page (tid u) (node_of u)))\<rparr>) s' \<and>
        pcs s' i = Answered k v"
      by (rule reader_descends) (use u(1) in simp_all)
    ultimately show ?thesis by (blast intro: converse_rtranclp_into_rtranclp)
  qed
  from pc consider (entered) "pcs s i = Entered k" | (rooted) "pcs s i = Rooted k r" | (at) "pcs s i = At k pg" by blast
  then show ?thesis
  proof cases
    case entered
    let ?s1 = "s\<lparr>pcs := (pcs s)(i := Rooted k (root (shared s))), snap := (snap s)(i := published s)\<rparr>"
    have "\<exists>s' v. (own_step ops i)\<^sup>*\<^sup>* ?s1 s' \<and> pcs s' i = Answered k v"
      by (rule rooted [of _ _ t]) (use vis in simp_all)
    then show ?thesis using own_stepI(2) [OF read_step.load_root [OF entered, of ops]] by (blast intro: converse_rtranclp_into_rtranclp)
  next
    case rooted
    then obtain u where "tid u = r" "visible ops (live_pages t (shared s)) (shared s) u" using t(2) by auto
    with rooted \<open>\<And>u s1 P. visible ops P (shared s1) u \<Longrightarrow> pcs s1 i = Rooted k (tid u) \<Longrightarrow> _\<close> show ?thesis by blast
  next
    case at
    then obtain u where "pg = mk_page (tid u) (node_of u)" "visible ops (live_pages t (shared s)) (shared s) u"
      using t(2) by auto
    with at reader_descends [of ops _ s u i k] show ?thesis by blast
  qed
qed


lemma read_steps_atomic: "(read_step ops)\<^sup>*\<^sup>* s s' \<Longrightarrow> (atomic_step ops lim)\<^sup>*\<^sup>* s s'"
  by (induction rule: rtranclp_induct) (auto intro: atomic_step.read rtranclp.rtrancl_into_rtrancl)

text \<open>An in-memory engine to start from.\<close>

lemma fresh_capacity:
  assumes "fresh_writer (write_lock st)" "page_size memory_ops (store_io st) = 64"
  shows "capacity memory_ops (\<lambda>_. 2 ^ 64) st"
  using assms by (simp add: capacity_def Let_def fresh_writer_def put_reach_def chain_need_def div_ceil_def)

lemma memory_ready:
  obtains st where "engine_in_memory 64 = Some st" "store_ok memory_ops memory_inv 0 (CLeaf 1 []) st"
    "capacity memory_ops (\<lambda>_. 2 ^ 64) st" "page_size memory_ops (store_io st) = 64"
    "readers st = 0"
proof -
  obtain st where st: "engine_in_memory 64 = Some st" "store_ok memory_ops memory_inv 0 (CLeaf 1 []) st"
    "fresh_writer (write_lock st)" "page_size memory_ops (store_io st) = 64" "readers st = 0"
    using engine_in_memory_ok [of 64] by (auto simp: page_size_ok_def)
  moreover have "capacity memory_ops (\<lambda>_. 2 ^ 64) st" using st(3,4) by (rule fresh_capacity)
  ultimately show ?thesis using that by blast
qed

text \<open>An in-memory engine with one reader inside.\<close>

lemma memory_reader_inside:
  obtains st s where "engine_in_memory 64 = Some st" "system_ok memory_ops memory_inv (start st)"
    "read_step memory_ops (start st) s" "system_ok memory_ops memory_inv s" "pcs s 3 = Entered [1]"
proof -
  obtain st where st: "engine_in_memory 64 = Some st" "store_ok memory_ops memory_inv 0 (CLeaf 1 []) st" "readers st = 0"
    using engine_in_memory_ok [of 64] by (auto simp: page_size_ok_def)
  let ?s = "(start st)\<lparr>shared := enter_read st, pcs := (\<lambda>_. Outside)(3 := Entered [1])\<rparr>"
  have "read_step memory_ops (start st) ?s"
    using read_step.enter [of "start st" 3 memory_ops "[1]"] by (simp add: start_def)
  moreover from this have "system_ok memory_ops memory_inv ?s"
    using start_ok [OF st(2,3)] by (rule mem.read_step_ok)
  ultimately show ?thesis using that st(1) start_ok [OF st(2,3)] by simp
qed

section \<open>The abstract store\<close>

text \<open>
  The contract of the engine: one map, on which a put and a lookup are single steps. A lookup takes
  effect when the reader loads the root, between its call and its return.
\<close>

datatype call = NoCall | Called key | Returned key "val option"

record spec =
  kv :: "key \<rightharpoonup> val"
  calls :: "nat \<Rightarrow> call"

inductive spec_step :: "spec \<Rightarrow> spec \<Rightarrow> bool" where
  spec_call: "calls a i = NoCall \<Longrightarrow> spec_step a (a\<lparr>calls := (calls a)(i := Called k)\<rparr>)"
| spec_lookup: "calls a i = Called k \<Longrightarrow> spec_step a (a\<lparr>calls := (calls a)(i := Returned k (kv a k))\<rparr>)"
| spec_return: "calls a i = Returned k v \<Longrightarrow> spec_step a (a\<lparr>calls := (calls a)(i := NoCall)\<rparr>)"
| spec_put: "spec_step a (a\<lparr>kv := (kv a)(k \<mapsto> v)\<rparr>)"

fun abs_pc :: "(key \<rightharpoonup> val) \<Rightarrow> reader_pc \<Rightarrow> call" where
  "abs_pc m Outside = NoCall"
| "abs_pc m (Entered k) = Called k"
| "abs_pc m (Rooted k r) = Returned k (m k)"
| "abs_pc m (At k pg) = Returned k (m k)"
| "abs_pc m (Answered k v) = Returned k v"

definition abs_system :: "'io system \<Rightarrow> spec" where
  "abs_system s = \<lparr>kv = published s, calls = (\<lambda>i. abs_pc (snap s i) (pcs s i))\<rparr>"

lemma abs_system_simps [simp]:
  "kv (abs_system s) = published s" "calls (abs_system s) i = abs_pc (snap s i) (pcs s i)"
  by (simp_all add: abs_system_def)

text \<open>What a change of one reader is in the abstract store.\<close>

lemma abs_system_pc:
  "abs_system (s\<lparr>shared := st, pcs := (pcs s)(i := pc), snap := (snap s)(i := m)\<rparr>) =
     (abs_system s)\<lparr>calls := (calls (abs_system s))(i := abs_pc m pc)\<rparr>"
  by (auto simp: abs_system_def fun_eq_iff)

lemma abs_system_pc_only:
  "abs_system (s\<lparr>shared := st, pcs := (pcs s)(i := pc)\<rparr>) =
     (abs_system s)\<lparr>calls := (calls (abs_system s))(i := abs_pc (snap s i) pc)\<rparr>"
  "abs_system (s\<lparr>pcs := (pcs s)(i := pc)\<rparr>) =
     (abs_system s)\<lparr>calls := (calls (abs_system s))(i := abs_pc (snap s i) pc)\<rparr>"
  "abs_system (s\<lparr>pcs := (pcs s)(i := pc), snap := (snap s)(i := m)\<rparr>) =
     (abs_system s)\<lparr>calls := (calls (abs_system s))(i := abs_pc m pc)\<rparr>"
  by (auto simp: abs_system_def fun_eq_iff)

lemma abs_system_same:
  "abs_pc (snap s i) pc = abs_pc (snap s i) (pcs s i) \<Longrightarrow> abs_system (s\<lparr>pcs := (pcs s)(i := pc)\<rparr>) = abs_system s"
  by (auto simp: abs_system_def fun_eq_iff)

lemma read_step_refines:
  assumes "read_step ops s s'" "\<And>i. reader_ok ops P st (snap s i) (pcs s i)"
  shows "abs_system s' = abs_system s \<or> spec_step (abs_system s) (abs_system s')"
  using assms(1)
proof cases
  case (enter i k)
  then have "spec_step (abs_system s) (abs_system s')"
    using spec_call [of "abs_system s" i k] by (simp add: abs_system_pc_only)
  then show ?thesis ..
next
  case (load_root i k)
  then have "spec_step (abs_system s) (abs_system s')"
    using spec_lookup [of "abs_system s" i k] by (simp add: abs_system_pc_only)
  then show ?thesis ..
next
  case (read_root i k r pg)
  then show ?thesis by (simp add: abs_system_same)
next
  case (descend i k n idx c pg)
  then show ?thesis by (simp add: abs_system_same)
next
  case (found i k l idx v)
  then have "Some v = snap s i k" using found_ok [of ops P st "snap s i" k l] assms(2) [of i] by metis
  then show ?thesis using found by (simp add: abs_system_same)
next
  case (missing i k l idx)
  then have "None = snap s i k" using missing_ok [of ops P st "snap s i" k l] assms(2) [of i] by metis
  then show ?thesis using missing by (simp add: abs_system_same)
next
  case (leave i k v)
  then have "spec_step (abs_system s) (abs_system s')"
    using spec_return [of "abs_system s" i k v] by (simp add: abs_system_pc_only)
  then show ?thesis ..
qed

lemma atomic_step_refines:
  assumes "atomic_step ops lim s s'" "system_ok ops io_ok s"
  shows "abs_system s' = abs_system s \<or> spec_step (abs_system s) (abs_system s')"
  using assms(1)
proof cases
  case read
  obtain t where "\<forall>i. reader_ok ops (live_pages t (shared s)) (shared s) (snap s i) (pcs s i)"
    using assms(2) by (auto simp: system_ok_def)
  then show ?thesis using read_step_refines [OF read] by blast
next
  case (put k v st)
  have "abs_system s' = (abs_system s)\<lparr>kv := (kv (abs_system s))(k \<mapsto> v)\<rparr>"
    unfolding put(1) by (simp add: abs_system_def)
  then show ?thesis using spec_put [of "abs_system s" k v] by simp
next
  case (put_refused k v e st)
  then show ?thesis by (simp add: abs_system_def)
qed

context page_backend
begin

text \<open>Runs refine runs.\<close>

lemma atomic_run_refines:
  assumes "(atomic_step ops limit)\<^sup>*\<^sup>* s s'" "system_ok ops inv s"
  shows "spec_step\<^sup>*\<^sup>* (abs_system s) (abs_system s')"
  using assms
proof (induction rule: rtranclp_induct)
  case base
  then show ?case by simp
next
  case (step s' s'')
  have "system_ok ops inv s'" using atomic_run_ok step.hyps(1) step.prems .
  from atomic_step_refines [OF step.hyps(2) this] step.IH [OF step.prems]
  show ?case by (metis rtranclp.rtrancl_into_rtrancl)
qed

end

section \<open>Properties\<close>

text \<open>C3. Linearizability of lookups beside puts: whatever the interleaving of the steps of any number of
  readers with whole puts, the run is a run of the abstract store, a map on which a put is one step and
  a lookup takes effect in one step between its call and its return; and the invariant of the system
  holds in every state reached.\<close>

theorem linearizable:
  assumes "page_backend ops ok lim" "system_ok ops ok s" "(atomic_step ops lim)\<^sup>*\<^sup>* s s'"
  shows "spec_step\<^sup>*\<^sup>* (abs_system s) (abs_system s') \<and> system_ok ops ok s'"
  using page_backend.atomic_run_refines [OF assms(1,3,2)] page_backend.atomic_run_ok [OF assms(1,3,2)] by simp

lemma linearizable_witness:
  "\<exists>st s'. engine_in_memory 64 = Some st \<and> (atomic_step memory_ops (\<lambda>_. 2 ^ 64))\<^sup>*\<^sup>* (start st) s' \<and>
     pcs s' 3 = Entered [1] \<and> spec_step\<^sup>*\<^sup>* (abs_system (start st)) (abs_system s') \<and> system_ok memory_ops memory_inv s'"
proof -
  obtain st s where s: "engine_in_memory 64 = Some st" "system_ok memory_ops memory_inv (start st)"
    "read_step memory_ops (start st) s" "pcs s 3 = Entered [1]"
    by (rule memory_reader_inside)
  have run: "(atomic_step memory_ops (\<lambda>_. 2 ^ 64))\<^sup>*\<^sup>* (start st) s"
    using s(3) by (intro read_steps_atomic) (rule r_into_rtranclp)
  show ?thesis using linearizable [OF mem.page_backend_axioms s(2) run] s run by blast
qed





end
