(* ===== verification/Stages.thy ===== *)
theory Stages
  imports Concurrency
begin

text \<open>
  The commit as the code runs it, in stages, with the steps of readers between the stages:
  \<open>WriteTxn::commit\<close> of \<open>src/01-btree/src/storage/store.rs\<close>.
\<close>

section \<open>The stages of a commit\<close>

text \<open>Step 1, the buffered writes; and steps 4 and 5, the free list, the header and the sync.\<close>

definition flush_writes :: "'io page_io \<Rightarrow> 'io write_txn \<Rightarrow> 'io write_txn option" where
  "flush_writes ops tx =
     do { io \<leftarrow> write_pages ops (store_io (txn_store tx)) (writes tx);
          Some (tx\<lparr>txn_store := (txn_store tx)\<lparr>store_io := io\<rparr>\<rparr>) }"

definition commit_metadata :: "'io page_io \<Rightarrow> 'io write_txn \<Rightarrow> page_id \<Rightarrow> 'io write_txn option" where
  "commit_metadata ops tx1 new_root =
     do { (head, count, tx2) \<leftarrow> persist_free_list ops tx1;
          let ps = txn_page_size ops tx2;
          hb \<leftarrow> header_to_bytes
                  \<lparr>hdr_page_size = ps, root_id = new_root, hdr_next_page_id = next_page_id (guard tx2),
                   free_list_head = head, free_count = count\<rparr> ps;
          io2 \<leftarrow> write_page ops (store_io (txn_store tx2)) HEADER_PAGE_ID hb;
          io3 \<leftarrow> sync ops io2;
          Some (tx2\<lparr>txn_store := (txn_store tx2)\<lparr>store_io := io3\<rparr>\<rparr>) }"

lemma commit_stages:
  "commit ops tx r =
     do { tx1 \<leftarrow> flush_writes ops tx;
          tx2 \<leftarrow> commit_metadata ops (promote_pending tx1) r;
          Some (tx2\<lparr>txn_store := (txn_store tx2)\<lparr>root := r\<rparr>\<rparr>) }"
  by (simp add: commit_def flush_writes_def commit_metadata_def Let_def split_def)

text \<open>The free list and the header are written without a look at the number of readers.\<close>

definition with_readers :: "nat \<Rightarrow> 'io write_txn \<Rightarrow> 'io write_txn" where
  "with_readers n tx = tx\<lparr>txn_store := (txn_store tx)\<lparr>readers := n\<rparr>\<rparr>"

lemma with_readers_simps [simp]:
  "txn_store (with_readers n tx) = (txn_store tx)\<lparr>readers := n\<rparr>"
  "guard (with_readers n tx) = guard tx" "freed (with_readers n tx) = freed tx"
  "txn_page_size ops (with_readers n tx) = txn_page_size ops tx"
  by (simp_all add: with_readers_def guard_def txn_page_size_def)

lemma readers_last:
  "st\<lparr>readers := n, store_io := io\<rparr> = st\<lparr>store_io := io, readers := n\<rparr>"
  "st\<lparr>readers := n, write_lock := g\<rparr> = st\<lparr>write_lock := g, readers := n\<rparr>"
  by (cases st; simp)+

lemma persist_free_list_readers:
  "persist_free_list ops (with_readers n tx) =
     map_option (\<lambda>(a, b, tx'). (a, b, with_readers n tx')) (persist_free_list ops tx)"
  unfolding persist_free_list_def with_readers_simps
  by (simp add: Let_def map_option_bind comp_def with_readers_def readers_last)

lemma commit_metadata_readers:
  "commit_metadata ops (with_readers n tx) r = map_option (with_readers n) (commit_metadata ops tx r)"
  unfolding commit_metadata_def persist_free_list_readers
  by (simp add: Let_def map_option_bind split_def comp_def bind_map_option) (simp add: with_readers_def readers_last)

text \<open>Up to its commit a transaction publishes nothing and writes nothing to the backend.\<close>

definition unpublished :: "'io write_txn \<Rightarrow> 'io write_txn \<Rightarrow> bool" where
  "unpublished tx tx' \<longleftrightarrow> (let s = txn_store tx; s' = txn_store tx'
     in root s' = root s \<and> readers s' = readers s \<and> store_io s' = store_io s)"

lemma unpublished_trans: "unpublished a b \<Longrightarrow> unpublished b c \<Longrightarrow> unpublished a c"
  by (simp add: unpublished_def Let_def)

lemma unpublished_steps:
  "unpublished tx tx" "unpublished tx (txn_free tx i)"
  "txn_alloc tx = Some (a, tx') \<Longrightarrow> unpublished tx tx'"
  "txn_write ops tx i pg = Some tx' \<Longrightarrow> unpublished tx tx'"
  by (auto simp: unpublished_def Let_def txn_free_def txn_alloc_def set_guard_def txn_write_def bind_eq_Some_conv
      split: if_splits)

lemma absorb_child_unpublished:
  "absorb_child ops tx node idx ps res = Some (tx', r) \<Longrightarrow> unpublished tx tx'"
  by (auto simp: absorb_child_def bind_eq_Some_conv split: insert_result.splits if_splits
      dest!: unpublished_steps(3,4)) (simp_all add: unpublished_def Let_def)

lemma insert_internal_unpublished:
  "insert_internal ops tx node key val ps = Some r \<Longrightarrow> unpublished tx (fst r)"
proof (induction rule: insert_internal.raw_induct [rotated, consumes 1, case_names step])
  case (step f ops tx node key val ps r)
  have "do { idx \<leftarrow> internal_child_index node key; c \<leftarrow> internal_get_child node idx; pg \<leftarrow> txn_read ops tx c;
      r1 \<leftarrow> (case pg of Leaf l \<Rightarrow> do { res \<leftarrow> insert_leaf l key val ps; Some (tx, res) }
                       | Internal i \<Rightarrow> f ops tx i key val ps);
      absorb_child ops (txn_free (fst r1) c) node idx ps (snd r1) } = Some r"
    using step(2) by (simp only: absorb_child_def Let_def)
  then obtain idx c pg r1 where pg: "txn_read ops tx c = Some pg"
    and r1: "(case pg of Leaf l \<Rightarrow> do { res \<leftarrow> insert_leaf l key val ps; Some (tx, res) }
              | Internal i \<Rightarrow> f ops tx i key val ps) = Some r1"
    and absorb: "absorb_child ops (txn_free (fst r1) c) node idx ps (snd r1) = Some r"
    by (auto simp only: bind_eq_Some_conv)
  have "unpublished tx (fst r1)"
    using r1 step(1) unpublished_steps(1) by (cases pg) (auto simp: bind_eq_Some_conv)
  then show ?case
    using absorb_child_unpublished [of ops "txn_free (fst r1) c" node idx ps "snd r1" "fst r" "snd r"] absorb
      unpublished_steps(2) [of "fst r1" c] by (auto intro: unpublished_trans)
qed

lemma put_prepared_unpublished:
  assumes "put_prepared ops tx key val = Some (i, tx')"
  shows "unpublished tx tx'"
proof -
  obtain pg r where r: "insert_node ops tx pg key val (txn_page_size ops tx) = Some r"
    "place_root ops (txn_free (fst r) (base_root tx)) (snd r) = Some (i, tx')"
    using assms by (auto simp: put_prepared_def bind_eq_Some_conv)
  have "unpublished tx (fst r)"
    using r(1) insert_internal_unpublished [of ops tx _ key val "txn_page_size ops tx" r] unpublished_steps(1) [of tx]
    by (cases pg) (auto simp: insert_node_def bind_eq_Some_conv)
  moreover have "unpublished (txn_free (fst r) (base_root tx)) tx'"
    using r(2) by (auto simp: place_root_def bind_eq_Some_conv Let_def split: insert_result.splits
        dest!: unpublished_steps(3,4)) (simp_all add: unpublished_def Let_def)
  ultimately show ?thesis using unpublished_steps(2) [of "fst r" "base_root tx"] by (blast intro: unpublished_trans)
qed

section \<open>The system with the commit in stages\<close>

text \<open>A transaction acts on the shared store.\<close>

definition on_shared :: "'io store \<Rightarrow> 'io write_txn \<Rightarrow> 'io write_txn" where
  "on_shared st tx = tx\<lparr>txn_store := st\<rparr>"

inductive writer_step :: "'io page_io \<Rightarrow> 'io system \<Rightarrow> 'io system \<Rightarrow> bool" for ops where
  prepare: "writer s = Idle \<Longrightarrow> length k + length v \<le> max_kv_size (page_size ops (store_io (shared s))) \<Longrightarrow>
    put_prepared ops (begin_write (shared s)) k v = Some (r, tx) \<Longrightarrow>
    writer_step ops s (s\<lparr>shared := txn_store tx, writer := Prepared k v r tx\<rparr>)"
| flush: "writer s = Prepared k v r tx \<Longrightarrow> flush_writes ops (on_shared (shared s) tx) = Some tx' \<Longrightarrow>
    writer_step ops s (s\<lparr>shared := txn_store tx', writer := Flushed k v r tx'\<rparr>)"
| gate: "writer s = Flushed k v r tx \<Longrightarrow> tx' = promote_pending (on_shared (shared s) tx) \<Longrightarrow>
    writer_step ops s (s\<lparr>shared := txn_store tx', writer := Gated k v r tx'\<rparr>)"
| metadata: "writer s = Gated k v r tx \<Longrightarrow> commit_metadata ops (on_shared (shared s) tx) r = Some tx' \<Longrightarrow>
    writer_step ops s (s\<lparr>shared := txn_store tx', writer := Persisted k v r tx'\<rparr>)"
| publish: "writer s = Persisted k v r tx \<Longrightarrow>
    writer_step ops s (s\<lparr>shared := (shared s)\<lparr>root := r\<rparr>, writer := Idle, published := (published s)(k \<mapsto> v)\<rparr>)"

inductive staged_step :: "'io page_io \<Rightarrow> 'io system \<Rightarrow> 'io system \<Rightarrow> bool" for ops where
  staged_read: "read_step ops s s' \<Longrightarrow> staged_step ops s s'"
| staged_write: "writer_step ops s s' \<Longrightarrow> staged_step ops s s'"

lemma staged_trans [trans]:
  "(staged_step ops)\<^sup>*\<^sup>* a b \<Longrightarrow> (staged_step ops)\<^sup>*\<^sup>* b c \<Longrightarrow> (staged_step ops)\<^sup>*\<^sup>* a c"
  by (rule rtranclp_trans)

lemma staged_write1: "writer_step ops s s' \<Longrightarrow> (staged_step ops)\<^sup>*\<^sup>* s s'"
  by (blast intro: staged_write)

lemma staged_read1: "read_step ops s s' \<Longrightarrow> (staged_step ops)\<^sup>*\<^sup>* s s'"
  by (blast intro: staged_read)

text \<open>
  A put that succeeds passes through the stages; between the gate and the publication \<open>n\<close> readers
  may have come or gone, which changes the count and nothing else the writer uses.
\<close>

lemma put_stages:
  assumes "engine_put ops st k v = Some (Inr (), st')"
  obtains r tx tx1 tx2 where "put_prepared ops (begin_write st) k v = Some (r, tx)"
    "flush_writes ops tx = Some tx1" "commit_metadata ops (promote_pending tx1) r = Some tx2"
    "st' = (txn_store tx2)\<lparr>root := r\<rparr>" "length k + length v \<le> max_kv_size (page_size ops (store_io st))"
proof -
  have kv: "length k + length v \<le> max_kv_size (page_size ops (store_io st))"
    using put_result(1) [OF assms] by simp
  then have "check_limits (txn_page_size ops (begin_write st)) k v = Inr ()"
    by (simp add: check_limits_ok txn_page_size_def begin_write_def)
  then show ?thesis
    using assms that kv
    by (auto simp: engine_put_def tree_put_prepared commit_stages bind_eq_Some_conv)
qed

lemma staged_until_gate:
  assumes "engine_put ops (shared s) k v = Some (Inr (), st)" "writer s = Idle"
  obtains r g tx2 where "(staged_step ops)\<^sup>*\<^sup>* s (s\<lparr>shared := txn_store g, writer := Gated k v r g\<rparr>)"
    "commit_metadata ops g r = Some tx2" "st = (txn_store tx2)\<lparr>root := r\<rparr>"
    "root (txn_store g) = root (shared s)" "readers (txn_store g) = readers (shared s)"
proof -
  obtain r tx tx1 tx2 where 1: "put_prepared ops (begin_write (shared s)) k v = Some (r, tx)"
    "flush_writes ops tx = Some tx1" "commit_metadata ops (promote_pending tx1) r = Some tx2"
    "st = (txn_store tx2)\<lparr>root := r\<rparr>" "length k + length v \<le> max_kv_size (page_size ops (store_io (shared s)))"
    using put_stages [OF assms(1)] .
  let ?a = "s\<lparr>shared := txn_store tx, writer := Prepared k v r tx\<rparr>"
  let ?b = "s\<lparr>shared := txn_store tx1, writer := Flushed k v r tx1\<rparr>"
  let ?c = "s\<lparr>shared := txn_store (promote_pending tx1), writer := Gated k v r (promote_pending tx1)\<rparr>"
  have "(staged_step ops)\<^sup>*\<^sup>* s ?a" by (rule staged_write1) (rule writer_step.prepare [OF assms(2) 1(5,1)])
  also have "(staged_step ops)\<^sup>*\<^sup>* ?a ?b"
    using writer_step.flush [of ?a k v r tx ops tx1] 1(2) by (intro staged_write1) (simp add: on_shared_def)
  also have "(staged_step ops)\<^sup>*\<^sup>* ?b ?c"
    using writer_step.gate [of ?b k v r tx1 "promote_pending tx1" ops] by (intro staged_write1) (simp add: on_shared_def)
  finally have run: "(staged_step ops)\<^sup>*\<^sup>* s ?c" .
  have "unpublished (begin_write (shared s)) tx" by (rule put_prepared_unpublished [OF 1(1)])
  then have "root (txn_store tx1) = root (shared s)" "readers (txn_store tx1) = readers (shared s)"
    using 1(2) by (auto simp: unpublished_def Let_def begin_write_def flush_writes_def bind_eq_Some_conv)
  then show ?thesis using that [OF run 1(3,4)] by simp
qed

lemma staged_put:
  assumes "engine_put ops (shared s) k v = Some (Inr (), st)" "writer s = Idle"
  shows "(staged_step ops)\<^sup>*\<^sup>* s (s\<lparr>shared := st, published := (published s)(k \<mapsto> v)\<rparr>)"
proof -
  obtain r g tx2 where 1: "(staged_step ops)\<^sup>*\<^sup>* s (s\<lparr>shared := txn_store g, writer := Gated k v r g\<rparr>)"
    "commit_metadata ops g r = Some tx2" "st = (txn_store tx2)\<lparr>root := r\<rparr>"
    by (rule staged_until_gate [OF assms])
  let ?c = "s\<lparr>shared := txn_store g, writer := Gated k v r g\<rparr>" and ?d = "s\<lparr>shared := txn_store tx2, writer := Persisted k v r tx2\<rparr>"
  note 1(1)
  also have "(staged_step ops)\<^sup>*\<^sup>* ?c ?d"
    using writer_step.metadata [of ?c k v r g ops tx2] 1(2) by (intro staged_write1) (simp add: on_shared_def)
  also have "(staged_step ops)\<^sup>*\<^sup>* ?d (s\<lparr>shared := st, published := (published s)(k \<mapsto> v)\<rparr>)"
  proof -
    have "?d\<lparr>shared := (shared ?d)\<lparr>root := r\<rparr>, writer := Idle, published := (published ?d)(k \<mapsto> v)\<rparr> =
        s\<lparr>shared := st, published := (published s)(k \<mapsto> v)\<rparr>"
      using assms(2) 1(3) by (cases s) simp
    with writer_step.publish [of ?d k v r tx2 ops] show ?thesis by (intro staged_write1) simp
  qed
  finally show ?thesis .
qed

text \<open>The interleaving: reader \<open>i\<close> enters after the gate and loads the root before it is replaced.\<close>

lemma staged_put_with_reader:
  assumes "engine_put ops (shared s) k v = Some (Inr (), st)" "writer s = Idle" "pcs s i = Outside"
    and "readers (shared s) = 0"
  shows "(staged_step ops)\<^sup>*\<^sup>* s
    (s\<lparr>shared := st\<lparr>readers := 1\<rparr>, published := (published s)(k \<mapsto> v),
       pcs := (pcs s)(i := Rooted key (root (shared s))), snap := (snap s)(i := published s)\<rparr>)"
proof -
  obtain r g tx2 where 1: "(staged_step ops)\<^sup>*\<^sup>* s (s\<lparr>shared := txn_store g, writer := Gated k v r g\<rparr>)"
    "commit_metadata ops g r = Some tx2" "st = (txn_store tx2)\<lparr>root := r\<rparr>"
    "root (txn_store g) = root (shared s)" "readers (txn_store g) = readers (shared s)"
    by (rule staged_until_gate [OF assms(1,2)])
  let ?c = "s\<lparr>shared := txn_store g, writer := Gated k v r g\<rparr>"
  let ?e = "?c\<lparr>shared := (txn_store g)\<lparr>readers := 1\<rparr>, pcs := (pcs s)(i := Entered key)\<rparr>"
  let ?f = "?e\<lparr>pcs := (pcs s)(i := Rooted key (root (shared s))), snap := (snap s)(i := published s)\<rparr>"
  let ?h = "?f\<lparr>shared := (txn_store tx2)\<lparr>readers := 1\<rparr>, writer := Persisted k v r (with_readers 1 tx2)\<rparr>"
  note 1(1)
  also have "(staged_step ops)\<^sup>*\<^sup>* ?c ?e"
    using read_step.enter [of ?c i ops key] assms(3,4) 1(5) by (intro staged_read1) (simp add: enter_read_def)
  also have "(staged_step ops)\<^sup>*\<^sup>* ?e ?f"
    using read_step.load_root [of ?e i key ops] 1(4) by (intro staged_read1) simp
  also have "(staged_step ops)\<^sup>*\<^sup>* ?f ?h"
  proof -
    have "on_shared (shared ?f) g = with_readers 1 g" by (simp add: on_shared_def with_readers_def)
    then have "commit_metadata ops (on_shared (shared ?f) g) r = Some (with_readers 1 tx2)"
      by (simp add: commit_metadata_readers 1(2))
    from writer_step.metadata [of ?f k v r g, OF _ this] show ?thesis by (intro staged_write1) simp
  qed
  also have "(staged_step ops)\<^sup>*\<^sup>* ?h (s\<lparr>shared := st\<lparr>readers := 1\<rparr>, published := (published s)(k \<mapsto> v),
       pcs := (pcs s)(i := Rooted key (root (shared s))), snap := (snap s)(i := published s)\<rparr>)"
      (is "(staged_step ops)\<^sup>*\<^sup>* ?h ?z")
  proof -
    have "?h\<lparr>shared := (shared ?h)\<lparr>root := r\<rparr>, writer := Idle, published := (published ?h)(k \<mapsto> v)\<rparr> = ?z"
      using assms(2) 1(3) by (cases s; cases "txn_store tx2") simp
    with writer_step.publish [of ?h k v r "with_readers 1 tx2" ops] show ?thesis
      by (intro staged_write1) (simp del: system.simps store.simps)
  qed
  finally show ?thesis .
qed

end
