(* ===== verification/Crash.thy ===== *)
theory Crash
  imports Stages
begin

text \<open>
  What an open finds after a crash inside a commit, \<open>WriteTxn::commit\<close> of
  \<open>src/01-btree/src/storage/store.rs\<close>. A page write is taken as atomic. Of the buffered writes any may have
  reached the disk, in any order; the free list and the header are taken in the order of the code.
\<close>

section \<open>The chain as an open follows it\<close>

text \<open>
  A chain that has been loaded starts with its head, and a load of it sees only its own pages.
\<close>

lemma load_chain_loop_pages:
  "load_chain_loop ops io cur fl is = Some (fl', is') \<Longrightarrow>
   \<exists>xs. is' = is @ xs \<and> (if cur = 0 then fl' = fl \<and> xs = [] else xs \<noteq> [] \<and> hd xs = cur) \<and>
     (\<forall>io'. (\<forall>j b. j \<in> set xs \<longrightarrow> read_page ops io j = Some b \<longrightarrow> read_page ops io' j = Some b) \<longrightarrow>
        load_chain_loop ops io' cur fl is = Some (fl', is'))"
proof (induction ops io cur fl "is" "(fl', is')" rule: load_chain_loop.raw_induct [rotated, consumes 1, case_names step])
  case (step f ops io cur fl "is")
  show ?case
  proof (cases "cur = 0")
    case True
    then show ?thesis using step(2) by (simp add: load_chain_loop.simps)
  next
    case False
    with step(2) obtain bs r where r: "read_page ops io cur = Some bs" "free_list_decode cur bs = Some r"
      "f ops io (fst r) (fl @ snd r) (is @ [cur]) = Some (fl', is')"
      by (auto simp: bind_eq_Some_conv)
    from step(1) [OF r(3)] obtain xs where xs: "is' = (is @ [cur]) @ xs"
      "\<forall>io'. (\<forall>j b. j \<in> set xs \<longrightarrow> read_page ops io j = Some b \<longrightarrow> read_page ops io' j = Some b) \<longrightarrow>
        load_chain_loop ops io' (fst r) (fl @ snd r) (is @ [cur]) = Some (fl', is')"
      by blast
    have "load_chain_loop ops io' cur fl is = Some (fl', is')"
      if "\<forall>j b. j \<in> set (cur # xs) \<longrightarrow> read_page ops io j = Some b \<longrightarrow> read_page ops io' j = Some b" for io'
      using that r(1,2) xs(2) False by (subst load_chain_loop.simps) simp
    then show ?thesis using xs(1) False by (intro exI [of _ "cur # xs"]) simp
  qed
qed

lemma load_chain_head:
  assumes "load_free_list_chain ops io head = Some (payload, pids)" "payload \<noteq> []"
  shows "pids \<noteq> [] \<and> head = hd pids"
  using load_chain_loop_pages [OF assms(1) [unfolded load_free_list_chain_def]] assms(2) by (auto split: if_splits)

lemma load_chain_frame:
  assumes "load_free_list_chain ops io head = Some (payload, pids)"
    "\<And>j b. j \<in> set pids \<Longrightarrow> read_page ops io j = Some b \<Longrightarrow> read_page ops io' j = Some b"
  shows "load_free_list_chain ops io' head = Some (payload, pids)"
  using load_chain_loop_pages [OF assms(1) [unfolded load_free_list_chain_def]] assms(2)
  by (auto simp: load_free_list_chain_def)

section \<open>A crash while the buffered pages are written\<close>

text \<open>A backend that differs only in pages outside the tree, the chain and the header holds the same store.\<close>

context page_backend
begin

lemma store_ok_frame:
  assumes st: "store_ok ops inv h t st" and ev: "evolves (store_io st) io"
    and frame: "\<And>j b. j \<in> set (ids t @ free_list_page_ids (write_lock st)) \<union> {HEADER_PAGE_ID} \<Longrightarrow>
      read_page ops (store_io st) j = Some b \<Longrightarrow> read_page ops io j = Some b"
  shows "store_ok ops inv h t (st\<lparr>store_io := io\<rparr>)"
proof -
  let ?st = "st\<lparr>store_io := io\<rparr>" and ?g = "write_lock st"
  have io: "inv io" "page_size ops io = page_size ops (store_io st)" using evolves_facts [OF ev] by simp_all
  from st obtain bs hd where disk: "read_page ops (store_io st) HEADER_PAGE_ID = Some bs"
    "header_from_bytes bs = Some (Inr hd)" "hdr_page_size hd = page_size ops (store_io st)"
    "root_id hd = root st" "hdr_next_page_id hd = next_page_id ?g"
    "load_free_list_chain ops (store_io st) (free_list_head hd) =
       Some (free_list ?g @ pending_free ?g, chain_used ops st)"
    unfolding store_ok_def disk_ok_def by blast
  have "load_free_list_chain ops io (free_list_head hd) =
      Some (free_list ?g @ pending_free ?g, chain_used ops st)"
    by (rule load_chain_frame [OF disk(6)]) (auto intro!: frame dest: in_set_takeD simp: chain_used_def Let_def)
  then have "disk_ok ops ?st"
    using disk(1-5) frame io(2) unfolding disk_ok_def by (intro exI [of _ bs] exI [of _ hd]) (simp add: chain_used_def)
  moreover have "guard_read ops ?st j = Some pg" if "guard_read ops st j = Some pg" "j \<in> set (ids t)" for j pg
    using that frame [of j] by (auto simp: guard_read_def bind_eq_Some_conv)
  then have "rep (guard_read ops ?st) t" using st by (auto simp: store_ok_def tree_ok_def elim!: rep_mono)
  ultimately show ?thesis using st io by (simp add: store_ok_def tree_ok_def)
qed

lemma crash_in_flush:
  assumes st: "store_ok ops inv h t st" and prep: "prepared ops h t st A F h' t' tx"
    and reach: "put_reach (page_size ops (store_io st)) h (write_lock st) \<le> limit (store_io st)"
    and ws: "set ws \<subseteq> set (writes tx)"
  obtains io where "write_pages ops (store_io st) ws = Some io" "evolves (store_io st) io"
    "store_ok ops inv h t (st\<lparr>store_io := io\<rparr>)"
proof -
  let ?g = "write_lock st"
  have inv: "inv (store_io st)" and pool: "pool_ok (ids t @ pending_free ?g @ free_list_page_ids ?g) ?g"
    using st by (simp_all add: store_ok_def)
  note ready = prepared_ready [OF prep pool]
  have "set (writes tx) \<subseteq> {w. fst w \<in> set A \<and> length (snd w) = page_size ops (store_io st)}" using ready(12) by blast
  then have ws: "set ws \<subseteq> {w. fst w \<in> set A \<and> length (snd w) = page_size ops (store_io st)}" using ws by blast
  have A: "unat j < limit (store_io st) \<and> j \<noteq> HEADER_PAGE_ID" if "j \<in> set A" for j
    using pool_ok_less [OF ready(11), of j] ready(13,15) reach that by (auto simp: HEADER_PAGE_ID_def)
  have "\<forall>(i, bs) \<in> set ws. unat i < limit (store_io st) \<and> length bs = page_size ops (store_io st)"
    using ws A by fastforce
  then obtain io where io: "write_pages ops (store_io st) ws = Some io" "evolves (store_io st) io"
    using write_pages_ok [OF inv] by blast
  have "store_ok ops inv h t (st\<lparr>store_io := io\<rparr>)"
  proof (rule store_ok_frame [OF st io(2)])
    fix j b
    assume j: "j \<in> set (ids t @ free_list_page_ids ?g) \<union> {HEADER_PAGE_ID}" and b: "read_page ops (store_io st) j = Some b"
    have "j \<notin> set A" using j A ready(14) by fastforce
    then have "j \<notin> fst ` set ws" using ws by auto
    then show "read_page ops io j = Some b" by (rule write_pages_other [OF inv io(1) _ b])
  qed
  then show ?thesis using that io by blast
qed

section \<open>A crash between the free list and the header\<close>

lemma crash_before_header:
  assumes st: "store_ok ops inv h t st" and prep: "prepared ops h t st A F h' t' tx"
    and reach: "put_reach (page_size ops (store_io st)) h (write_lock st) < 2 ^ 64"
      "put_reach (page_size ops (store_io st)) h (write_lock st) \<le> limit (store_io st)"
    and chained: "free_list (write_lock st) @ pending_free (write_lock st) \<noteq> []"
  obtains tx1 r tx2 st' where "flush_writes ops tx = Some tx1"
    "persist_free_list ops (promote_pending tx1) = Some (fst r, snd r, tx2)"
    "open_or_create ops (store_io (txn_store tx2)) = Some (Inr st')" "root st' = root st"
    "root st \<in> set (free_list (write_lock st'))"
proof -
  let ?g = "write_lock st" and ?ps = "page_size ops (store_io st)"
  have inv: "inv (store_io st)" and pool: "pool_ok (ids t @ pending_free ?g @ free_list_page_ids ?g) ?g"
    and ps: "page_size_ok ?ps" and root: "root st = tid t"
    using st by (simp_all add: store_ok_def tree_ok_def)
  note ready = prepared_ready [OF prep pool]
  have F: "F \<noteq> []" "last F = tid t" using prep by (auto simp: prepared_def)
  let ?payload = "free_list (guard tx) @ pending_free (guard tx) @ freed tx"
  let ?need = "chain_need ?ps (length ?payload)"
  have need: "0 < ?need"
    using div_ceil_covers [of "(?ps - 19) div 8" "length ?payload"] chain_cap [OF ps refl] ready(5) F(1)
    by (cases ?need) (simp_all add: chain_need_def)
  have room: "unat (next_page_id (guard tx)) + (?need - length (free_list_page_ids (guard tx))) < 2 ^ 64"
    "unat (next_page_id (guard tx)) + (?need - length (free_list_page_ids (guard tx))) \<le> limit (store_io st)"
    using ready(15) reach by linarith+
  have writes: "\<forall>w \<in> set (writes tx). fst w \<in> set (ids t') \<and> length (snd w) = ?ps" using ready(12,13) by blast
  obtain io1 io2 n tx1 pids where io1: "write_pages ops (store_io st) (writes tx) = Some io1"
    and tx1: "tx1 = promote_pending (tx\<lparr>txn_store := (txn_store tx)\<lparr>store_io := io1\<rparr>\<rparr>)"
    and pids: "pids = free_list_page_ids (guard tx) @ fresh (next_page_id (guard tx)) n"
    and persist: "persist_free_list ops tx1 = Some (if ?need > 0 then pids ! 0 else 0, word_of_nat (length ?payload),
       tx1\<lparr>txn_store := (txn_store tx1)\<lparr>store_io := io2,
         write_lock := (guard (promote_pending tx))\<lparr>next_page_id := n, free_list_page_ids := pids\<rparr>\<rparr>\<rparr>)"
    and io2: "evolves (store_io st) io2"
    and chain: "\<And>i. i < ?need \<Longrightarrow> read_page ops io2 (pids ! i) = chain_page ?ps pids ?payload ((?ps - 19) div 8) ?need i"
    and len: "?need \<le> length pids" and zero: "HEADER_PAGE_ID \<notin> set (ids t')" "HEADER_PAGE_ID \<notin> set pids"
    and frame: "\<And>j b. j \<notin> fst ` set (writes tx) \<Longrightarrow> j \<notin> set pids \<Longrightarrow> read_page ops (store_io st) j = Some b \<Longrightarrow>
       read_page ops io2 j = Some b"
    by (rule flush_persist_ok [of tx "ids t'", unfolded ready(1,4), OF inv ps ready(11) writes room])
      (rule that; assumption)
  from st obtain bs hdr m where disk: "read_page ops (store_io st) HEADER_PAGE_ID = Some bs"
    "header_from_bytes bs = Some (Inr hdr)" "hdr_page_size hdr = ?ps" "root_id hdr = root st"
    "load_free_list_chain ops (store_io st) (free_list_head hdr) =
       Some (free_list ?g @ pending_free ?g, take m (free_list_page_ids ?g))"
    unfolding chain_used_def Let_def store_ok_def disk_ok_def by blast
  have "take m (free_list_page_ids ?g) \<noteq> [] \<and> free_list_head hdr = hd (take m (free_list_page_ids ?g))"
    by (rule load_chain_head [OF disk(5) chained])
  then have head: "free_list_head hdr = pids ! 0"
    unfolding pids ready(7) by (cases "free_list_page_ids ?g"; cases m) simp_all
  have load: "load_free_list_chain ops io2 (free_list_head hdr) = Some (?payload, take ?need pids)"
    using load_written_chain [OF ps refl len zero(2) chain] need head by simp
  have "HEADER_PAGE_ID \<notin> fst ` set (writes tx)" using writes zero(1) by auto
  then have header: "read_page ops io2 HEADER_PAGE_ID = Some bs" by (rule frame [OF _ zero(2) disk(1)])
  let ?st = "\<lparr>store_io = io2, root = root st, readers = 0,
     write_lock = \<lparr>next_page_id = hdr_next_page_id hdr, free_list = ?payload, pending_free = [],
       free_list_page_ids = take ?need pids\<rparr>\<rparr>"
  have opened: "open_or_create ops io2 = Some (Inr ?st)"
    using header disk(2-4) load evolves_facts(2) [OF io2] by (simp add: open_or_create_def store_from_header_def)
  have flush: "flush_writes ops tx = Some (tx\<lparr>txn_store := (txn_store tx)\<lparr>store_io := io1\<rparr>\<rparr>)"
    using io1 by (simp add: flush_writes_def ready(1))
  have "root st \<in> set F" using F root by (metis last_in_set)
  then have "root st \<in> set (free_list (write_lock ?st))" using ready(5) by simp
  then show ?thesis
    using that [OF flush, of "(if ?need > 0 then pids ! 0 else 0, word_of_nat (length ?payload))", OF _ _ _ ]
      persist [unfolded tx1] opened by simp
qed

end

section \<open>A crash that loses the buffered writes\<close>

text \<open>
  There is one \<open>sync\<close>, after the header. Before it the system may have written the header and the free
  list to the disk but none of the buffered pages.
\<close>

context page_backend
begin

lemma crash_without_pages:
  assumes st: "store_ok ops inv h t st" and prep: "prepared ops h t st A F h' t' tx"
    and reach: "put_reach (page_size ops (store_io st)) h (write_lock st) < 2 ^ 64"
      "put_reach (page_size ops (store_io st)) h (write_lock st) \<le> limit (store_io st)"
    and free: "free_list (write_lock st) = []"
    and blank: "\<And>j. unat (next_page_id (write_lock st)) \<le> unat j \<Longrightarrow>
      unat j < put_reach (page_size ops (store_io st)) h (write_lock st) \<Longrightarrow>
      \<exists>b. read_page ops (store_io st) j = Some b \<and> page_decode j b = None"
  obtains tx' st' where "commit ops (tx\<lparr>writes := []\<rparr>) (tid t') = Some tx'"
    "open_or_create ops (store_io (txn_store tx')) = Some (Inr st')" "root st' = tid t'"
    "guard_read ops st' (tid t') = None"
proof -
  let ?g = "write_lock st" and ?ps = "page_size ops (store_io st)" and ?tx = "tx\<lparr>writes := []\<rparr>"
  have inv: "inv (store_io st)" and pool: "pool_ok (ids t @ pending_free ?g @ free_list_page_ids ?g) ?g"
    and ps: "page_size_ok ?ps"
    using st by (simp_all add: store_ok_def)
  note ready = prepared_ready [OF prep pool]
  have tx: "guard ?tx = guard tx" "freed ?tx = freed tx" "txn_page_size ops ?tx = ?ps"
    using ready(4) by (simp_all add: guard_def txn_page_size_def)
  let ?need = "chain_need ?ps (length (free_list (guard tx) @ pending_free (guard tx) @ freed tx))"
  have room: "unat (next_page_id (guard tx)) + (?need - length (free_list_page_ids (guard tx))) < 2 ^ 64"
    "unat (next_page_id (guard tx)) + (?need - length (free_list_page_ids (guard tx))) \<le> limit (store_io st)"
    using ready(15) reach by linarith+
  obtain tx' n where commit: "commit ops ?tx (tid t') = Some tx'" and root: "root (txn_store tx') = tid t'"
    and disk: "disk_ok ops (txn_store tx')"
    and n: "unat n = unat (next_page_id (guard tx)) + (?need - length (free_list_page_ids (guard tx)))"
    and frame: "\<And>j b. j \<notin> set (free_list_page_ids (guard tx) @ fresh (next_page_id (guard tx)) n) \<Longrightarrow>
       j \<noteq> HEADER_PAGE_ID \<Longrightarrow> read_page ops (store_io st) j = Some b \<Longrightarrow>
       read_page ops (store_io (txn_store tx')) j = Some b"
  proof (rule commit_ok [of ?tx "ids t'" "tid t'", unfolded tx])
    show "inv (store_io (txn_store ?tx))" "page_size_ok ?ps" using inv ps ready(1) by simp_all
    show "pool_ok (ids t' @ pending_free (guard tx) @ freed tx @ free_list_page_ids (guard tx)) (guard tx)"
      by (rule ready(11))
    show "\<forall>w \<in> set (writes ?tx). fst w \<in> set (ids t') \<and> length (snd w) = ?ps" by simp
    show "unat (next_page_id (guard tx)) + (?need - length (free_list_page_ids (guard tx))) < 2 ^ 64"
      "unat (next_page_id (guard tx)) + (?need - length (free_list_page_ids (guard tx))) \<le> limit (store_io (txn_store ?tx))"
      using room by (simp_all add: ready(1))
  qed (use ready(1) in simp)
  have A: "tid t' \<in> set A" and ext: "txn_ext ops A F (begin_write st) tx" using prep by (simp_all add: prepared_def)
  have "guard (begin_write st) = ?g" by (simp add: begin_write_def guard_def)
  then have "mset (free_list (guard tx)) + mset A = mset (fresh (next_page_id ?g) (next_page_id (guard tx)))"
    using txn_ext_frame(11) [OF ext] free by simp
  then have "set A \<subseteq> set (fresh (next_page_id ?g) (next_page_id (guard tx)))"
    by (metis mset_subset_eq_add_right set_mset_mono set_mset_mset)
  then have new: "unat (next_page_id ?g) \<le> unat (tid t')" "unat (tid t') < unat (next_page_id (guard tx))"
    using A set_fresh [of "tid t'" "next_page_id ?g" "next_page_id (guard tx)"] by auto
  have "tid t' \<notin> set (free_list_page_ids (guard tx) @ fresh (next_page_id (guard tx)) n)"
    "tid t' \<noteq> HEADER_PAGE_ID"
    using ready(11) new(2) set_fresh [of "tid t'" "next_page_id (guard tx)" n]
    by (auto simp: pool_ok_def ids_below HEADER_PAGE_ID_def)
  moreover have "unat (tid t') < put_reach ?ps h ?g" using new(2) ready(15) by linarith
  then obtain b where b: "read_page ops (store_io st) (tid t') = Some b" "page_decode (tid t') b = None"
    using blank [OF new(1)] by blast
  ultimately have "read_page ops (store_io (txn_store tx')) (tid t') = Some b" by (intro frame)
  then have "guard_read ops (reopened ops (txn_store tx')) (tid t') = None"
    using b(2) by (simp add: guard_read_def)
  then show ?thesis using that [OF commit open_disk [OF disk]] root by simp
qed

end

section \<open>Properties\<close>

text \<open>C6. A crash while the commit writes the buffered pages loses nothing, whichever of those writes have reached
  the disk and in whichever order: an open of the backend succeeds and finds the old tree intact under
  its root, with the invariant.\<close>

theorem crash_in_flush_safe:
  assumes "page_backend ops ok lim" "store_ok ops ok h t st" "capacity ops lim st"
    and "length key + length val \<le> max_kv_size (page_size ops (store_io st))"
  shows "\<exists>r tx. put_prepared ops (begin_write st) key val = Some (r, tx) \<and>
    (\<forall>ws. set ws \<subseteq> set (writes tx) \<longrightarrow> (\<exists>io st'. write_pages ops (store_io st) ws = Some io \<and>
       open_or_create ops io = Some (Inr st') \<and> store_ok ops ok h t st' \<and> root st' = root st))"
proof -
  note reach = put_reach_of_capacity [OF assms(2,3)]
  obtain tx A F t' h' where put: "put_prepared ops (begin_write st) key val = Some (tid t', tx)"
    and prep: "prepared ops h t st A F h' t' tx"
    using store_put_prepared [OF assms(2,4) reach(1)] .
  have "\<exists>io st'. write_pages ops (store_io st) ws = Some io \<and> open_or_create ops io = Some (Inr st') \<and>
      store_ok ops ok h t st' \<and> root st' = root st" if ws: "set ws \<subseteq> set (writes tx)" for ws
  proof -
    obtain io where io: "write_pages ops (store_io st) ws = Some io" "store_ok ops ok h t (st\<lparr>store_io := io\<rparr>)"
      by (rule page_backend.crash_in_flush [OF assms(1,2) prep reach(2) ws])
    note opened = page_backend.reopen_ok [OF assms(1) io(2)]
    show ?thesis
      using io(1) opened by (intro exI [of _ io] exI [of _ "reopened ops (st\<lparr>store_io := io\<rparr>)"]) simp
  qed
  then show ?thesis using put by blast
qed

lemma crash_in_flush_safe_witness:
  "\<exists>st r tx io st'. engine_in_memory 64 = Some st \<and> put_prepared memory_ops (begin_write st) [1] [2] = Some (r, tx) \<and>
     write_pages memory_ops (store_io st) (rev (writes tx)) = Some io \<and>
     open_or_create memory_ops io = Some (Inr st') \<and> root st' = root st"
proof -
  obtain st where st: "engine_in_memory 64 = Some st" "store_ok memory_ops memory_inv 0 (CLeaf 1 []) st"
    "capacity memory_ops (\<lambda>_. 2 ^ 64) st" "page_size memory_ops (store_io st) = 64" by (rule memory_ready)
  have kv: "length ([1] :: key) + length ([2] :: val) \<le> max_kv_size (page_size memory_ops (store_io st))"
    unfolding st(4) by (simp add: max_kv_size_def INTERNAL_HEADER_def)
  obtain r tx where tx: "put_prepared memory_ops (begin_write st) [1] [2] = Some (r, tx)"
    "\<forall>ws. set ws \<subseteq> set (writes tx) \<longrightarrow> (\<exists>io st'. write_pages memory_ops (store_io st) ws = Some io \<and>
       open_or_create memory_ops io = Some (Inr st') \<and> store_ok memory_ops memory_inv 0 (CLeaf 1 []) st' \<and> root st' = root st)"
    using crash_in_flush_safe [OF mem.page_backend_axioms st(2,3) kv] by blast
  then show ?thesis using st(1) by (metis set_rev subset_refl)
qed

text \<open>C14. A crash after the free list is written and before the header is not safe: as soon as the chain on the
  disk is in use, the commit of any put passes a state of the backend that an open accepts and in which
  the root it finds is a free page, so that the next allocations hand out pages of the live tree. The
  chain is rewritten in place, and the old header refers to it.\<close>

theorem crash_before_header_frees_root:
  assumes "page_backend ops ok lim" "store_ok ops ok h t st" "capacity ops lim st"
    and "length key + length val \<le> max_kv_size (page_size ops (store_io st))"
    and "free_list (write_lock st) @ pending_free (write_lock st) \<noteq> []"
  shows "\<exists>r tx tx1 head count tx2 st'. put_prepared ops (begin_write st) key val = Some (r, tx) \<and>
    flush_writes ops tx = Some tx1 \<and> persist_free_list ops (promote_pending tx1) = Some (head, count, tx2) \<and>
    open_or_create ops (store_io (txn_store tx2)) = Some (Inr st') \<and> root st' = root st \<and>
    root st' \<in> set (free_list (write_lock st')) \<and> (\<forall>h t. \<not> store_ok ops ok h t st')"
proof -
  note reach = put_reach_of_capacity [OF assms(2,3)]
  obtain tx A F t' h' where put: "put_prepared ops (begin_write st) key val = Some (tid t', tx)"
    and prep: "prepared ops h t st A F h' t' tx"
    using store_put_prepared [OF assms(2,4) reach(1)] .
  obtain tx1 r tx2 st' where 1: "flush_writes ops tx = Some tx1"
    "persist_free_list ops (promote_pending tx1) = Some (fst r, snd r, tx2)"
    "open_or_create ops (store_io (txn_store tx2)) = Some (Inr st')" "root st' = root st"
    "root st \<in> set (free_list (write_lock st'))"
    by (rule page_backend.crash_before_header [OF assms(1,2) prep reach assms(5)])
  have "\<not> store_ok ops ok h t st'" for h t
  proof
    assume "store_ok ops ok h t st'"
    then have "root st' = tid t" "pool_ok (ids t @ pending_free (write_lock st') @ free_list_page_ids (write_lock st')) (write_lock st')"
      by (simp_all add: store_ok_def tree_ok_def)
    then show False using 1(4,5) by (auto simp: pool_ok_def ids_below)
  qed
  then show ?thesis using put 1 by metis
qed

lemma crash_before_header_frees_root_witness:
  "\<exists>st st1 r tx tx1 head count tx2 st'. engine_in_memory 64 = Some st \<and>
    engine_put memory_ops st [1] [2] = Some (Inr (), st1) \<and>
    put_prepared memory_ops (begin_write st1) [3] [4] = Some (r, tx) \<and>
    flush_writes memory_ops tx = Some tx1 \<and> persist_free_list memory_ops (promote_pending tx1) = Some (head, count, tx2) \<and>
    open_or_create memory_ops (store_io (txn_store tx2)) = Some (Inr st') \<and> root st' = root st1 \<and>
    root st' \<in> set (free_list (write_lock st'))"
proof -
  obtain st where st: "engine_in_memory 64 = Some st" "store_ok memory_ops memory_inv 0 (CLeaf 1 []) st"
    "fresh_writer (write_lock st)" "readers st = 0" "page_size memory_ops (store_io st) = 64"
    using engine_in_memory_ok [of 64] by (auto simp: page_size_ok_def)
  let ?g = "write_lock st"
  have kv: "length ([a] :: 8 word list) + length ([b] :: 8 word list) \<le> max_kv_size 64" for a b
    by (simp add: max_kv_size_def INTERNAL_HEADER_def)
  have reach: "put_reach 64 0 ?g < 2 ^ 64" "put_reach 64 0 ?g \<le> 2 ^ 64"
    using st(3) by (simp_all add: fresh_writer_def put_reach_def chain_need_def div_ceil_def)
  obtain st1 h1 t1 where 1: "engine_put memory_ops st [1] [2] = Some (Inr (), st1)"
    "store_ok memory_ops memory_inv h1 t1 st1" "mem.evolves (store_io st) (store_io st1)"
    "unat (next_page_id (write_lock st1)) + length (free_list_page_ids ?g) \<le>
       unat (next_page_id ?g) + 2 * 0 + 3 + length (free_list_page_ids (write_lock st1))"
    "length (free_list (write_lock st1) @ pending_free (write_lock st1)) \<le> length (free_list ?g @ pending_free ?g) + Suc 0"
    "length (free_list_page_ids (write_lock st1)) \<le>
       max (length (free_list_page_ids ?g)) (chain_need 64 (length (free_list ?g @ pending_free ?g) + Suc 0))"
    "readers st = 0 \<Longrightarrow> pending_free (write_lock st1) = [] \<and> free_list (write_lock st1) \<noteq> [] \<and>
       last (free_list (write_lock st1)) = root st"
    by (rule mem.put_ok [OF st(2), unfolded st(5), OF kv reach]) (rule that; assumption)
  have ps: "page_size memory_ops (store_io st1) = 64" using mem.evolves_facts(2) [OF 1(3)] st(5) by simp
  have chain: "length (free_list_page_ids (write_lock st1)) \<le> 1"
    using 1(6) st(3) by (simp add: fresh_writer_def chain_need_def div_ceil_def)
  have ids: "unat (next_page_id (write_lock st1)) \<le> 6" using 1(4) chain st(3) by (simp add: fresh_writer_def)
  have fl: "length (free_list (write_lock st1)) + length (pending_free (write_lock st1)) \<le> 1"
    using 1(5) st(3) by (simp add: fresh_writer_def)
  have "chain_need 64 (length (free_list (write_lock st1)) + length (pending_free (write_lock st1)) +
      Suc (unat (next_page_id (write_lock st1)))) \<le> chain_need 64 8"
    using ids fl by (intro chain_need_mono) linarith
  also have "chain_need 64 8 = 2" by (simp add: chain_need_def div_ceil_def)
  finally have "put_reach 64 (unat (next_page_id (write_lock st1))) (write_lock st1) \<le> 30"
    using ids unfolding put_reach_def by linarith
  then have cap: "capacity memory_ops (\<lambda>_. 2 ^ 64) st1" unfolding capacity_def Let_def ps by simp
  have "free_list (write_lock st1) @ pending_free (write_lock st1) \<noteq> []" using 1(7) st(4) by simp
  from crash_before_header_frees_root [OF mem.page_backend_axioms 1(2) cap kv [of 3 4, folded ps] this]
  show ?thesis using st(1) 1(1) by blast
qed



end
