(* ===== verification/Decoding.thy ===== *)
theory Decoding
  imports Pages
begin

text \<open>
  What the decoders of the tree pages make of arbitrary bytes, \<open>LeafNode::decode\<close> and
  \<open>InternalNode::decode\<close> of \<open>src/01-btree/src/page\<close>: a page that was never written by the store, or that
  was damaged, is either refused by a panic or becomes a node that every operation can work on.
\<close>

section \<open>Reading integers out of arbitrary bytes\<close>

lemma nat_to_le_of_le: "nat_to_le (length s) (nat_of_le s) = s"
proof (induction s)
  case (Cons b s)
  have b: "unat b < 256" using unsigned_less [of b] by simp
  then have "(unat b + 256 * nat_of_le s) mod 256 = unat b" "(unat b + 256 * nat_of_le s) div 256 = nat_of_le s"
    by (simp_all add: mod_less)
  then show ?case using Cons.IH by simp
qed simp

lemma nat_of_le_less: "nat_of_le s < 256 ^ length s"
proof (induction s)
  case (Cons b s)
  have "unat b < 256" using unsigned_less [of b] by simp
  then show ?case using Cons.IH by simp
qed simp

lemma u16_to_from_le: "length s = 2 \<Longrightarrow> u16_to_le (u16_from_le s) = s"
  using nat_of_le_less [of s] nat_to_le_of_le [of s]
  by (simp add: u16_to_le_def u16_from_le_def unat_of_nat take_bit_nat_eq_self)

lemma u64_to_from_le: "length s = 8 \<Longrightarrow> u64_to_le (u64_from_le s) = s"
  using nat_of_le_less [of s] nat_to_le_of_le [of s]
  by (simp add: u64_to_le_def u64_from_le_def unat_of_nat take_bit_nat_eq_self)

lemma read_u16_split:
  assumes "read_u16 (pre @ rest) (length pre) = Some w"
  obtains rest' where "rest = u16_to_le w @ rest'"
proof
  from assms have "u16_to_le w = take 2 rest"
    by (auto simp: read_u16_def slice_of_def u16_to_from_le split: if_splits bind_splits)
  then show "rest = u16_to_le w @ drop 2 rest" by simp
qed

lemma read_u64_split:
  assumes "read_u64 (pre @ rest) (length pre) = Some w"
  obtains rest' where "rest = u64_to_le w @ rest'"
proof
  from assms have "u64_to_le w = take 8 rest"
    by (auto simp: read_u64_def slice_of_def u64_to_from_le split: if_splits bind_splits)
  then show "rest = u64_to_le w @ drop 8 rest" by simp
qed

lemma read_u16_bound: "read_u16 bs p = Some w \<Longrightarrow> p + 2 \<le> length bs"
  by (auto simp: read_u16_def slice_of_def split: if_splits bind_splits)

lemma read_u64s_split:
  assumes "read_u64s (pre @ rest) (length pre) n = Some ws"
  shows "length ws = n \<and> (\<exists>rest'. rest = concat (map u64_to_le ws) @ rest')"
  using assms
proof (induction n arbitrary: pre rest ws)
  case (Suc n)
  then obtain w ws' where w: "read_u64 (pre @ rest) (length pre) = Some w" "ws = w # ws'"
    "read_u64s (pre @ rest) (length pre + 8) n = Some ws'"
    by (auto split: bind_splits)
  obtain r where r: "rest = u64_to_le w @ r" using w(1) by (rule read_u64_split)
  show ?case using Suc.IH [of "pre @ u64_to_le w" r ws'] w(2,3) r by simp
qed simp

lemma u16_add_unat: "u16_add a b = Some c \<Longrightarrow> unat c = unat a + unat b"
  by (auto simp: u16_add_def unat_word_ariths split: if_splits)

section \<open>Leaves\<close>

text \<open>
  A scan that does not panic has seen whole entries, but for the last one: the scan needs its two
  lengths, and not the bytes of its value. \<open>cut_entry es p\<close>: the value of the entry at \<open>p\<close> runs past the end.
\<close>

definition cut_entry :: "bytes \<Rightarrow> nat \<Rightarrow> bool" where
  "cut_entry es p \<longleftrightarrow> (\<exists>klen vlen. read_u16 es p = Some klen \<and> read_u16 es (p + 2 + unat klen) = Some vlen \<and>
     length es < p + 4 + unat klen + unat vlen)"

text \<open>One entry of the scan: its two length fields, the key between them and what is left.\<close>

lemma leaf_scan_step:
  assumes scan: "leaf_scan (enc_entries xs @ rest) (Suc n) (as_u16 (length (enc_entries xs))) (starts xs) = Some (pos, ss)"
    and small: "leaf_small xs"
  obtains klen vlen k r2 pos' where "rest = u16_to_le klen @ k @ u16_to_le vlen @ r2" "length k = unat klen"
    "unat pos' = length (enc_entries xs) + 4 + unat klen + unat vlen"
    "read_u16 (enc_entries xs @ rest) (length (enc_entries xs)) = Some klen"
    "read_u16 (enc_entries xs @ rest) (length (enc_entries xs) + 2 + unat klen) = Some vlen"
    "leaf_scan (enc_entries xs @ rest) n pos' (starts xs @ [pos']) = Some (pos, ss)"
proof -
  let ?es = "enc_entries xs @ rest" and ?off = "length (enc_entries xs)"
  have off: "?off < 65536" "unat (as_u16 ?off) = ?off"
    using small by (simp_all add: leaf_small_def unat_as_u16)
  obtain klen vlen a b pos' where step: "read_u16 ?es ?off = Some klen"
    "read_u16 ?es (?off + 2 + unat klen) = Some vlen" "u16_add 4 klen = Some a" "u16_add a vlen = Some b"
    "u16_add (as_u16 ?off) b = Some pos'" "leaf_scan ?es n pos' (starts xs @ [pos']) = Some (pos, ss)"
    using scan off(2) by (auto split: bind_splits)
  have pos': "unat pos' = ?off + 4 + unat klen + unat vlen"
    using step(3-5)[THEN u16_add_unat] off(2) by simp
  obtain r1 where r1: "rest = u16_to_le klen @ r1" using step(1) by (rule read_u16_split)
  define k where "k = take (unat klen) r1"
  have k: "length k = unat klen" using read_u16_bound [OF step(2)] by (simp add: k_def r1)
  have "?es = (enc_entries xs @ u16_to_le klen @ k) @ drop (unat klen) r1" by (simp add: k_def r1)
  then obtain r2 where r2: "drop (unat klen) r1 = u16_to_le vlen @ r2"
    using step(2) k read_u16_split [of "enc_entries xs @ u16_to_le klen @ k" "drop (unat klen) r1" vlen] by auto
  have "r1 = k @ u16_to_le vlen @ r2" unfolding r2 [symmetric] by (simp add: k_def)
  then have rest: "rest = u16_to_le klen @ k @ u16_to_le vlen @ r2" by (simp add: r1)
  show ?thesis by (rule that [OF rest k pos' step(1,2,6)])
qed

lemma leaf_scan_any:
  assumes "leaf_scan (enc_entries xs @ rest) n (as_u16 (length (enc_entries xs))) (starts xs) = Some (pos, ss)"
    and "leaf_small xs"
  shows "(\<exists>ys rest'. rest = enc_entries ys @ rest' \<and> length ys = n \<and> leaf_small (xs @ ys) \<and>
      pos = as_u16 (length (enc_entries (xs @ ys))) \<and> ss = starts (xs @ ys)) \<or>
    (\<exists>ys. Suc (length ys) = n \<and> leaf_small (xs @ ys) \<and> ss = starts (xs @ ys) @ [pos] \<and>
      length (enc_entries xs @ rest) < unat pos \<and>
      cut_entry (enc_entries xs @ rest) (length (enc_entries (xs @ ys))))"
  using assms
proof (induction n arbitrary: xs rest)
  case 0
  then show ?case by auto
next
  case (Suc n)
  let ?es = "enc_entries xs @ rest" and ?off = "length (enc_entries xs)"
  obtain klen vlen k r2 pos' where rest: "rest = u16_to_le klen @ k @ u16_to_le vlen @ r2" and k: "length k = unat klen"
    and pos': "unat pos' = ?off + 4 + unat klen + unat vlen"
    and step: "read_u16 ?es ?off = Some klen" "read_u16 ?es (?off + 2 + unat klen) = Some vlen"
      "leaf_scan ?es n pos' (starts xs @ [pos']) = Some (pos, ss)"
    by (rule leaf_scan_step [OF Suc.prems])
  show ?case
  proof (cases "unat vlen \<le> length r2")
    case True
    define v where "v = take (unat vlen) r2"
    have v: "length v = unat vlen" "r2 = v @ drop (unat vlen) r2" using True by (simp_all add: v_def)
    have lens: "as_u16 (length k) = klen" "as_u16 (length v) = vlen" by (simp_all add: k v(1) as_u16_def)
    then have entry: "enc_entry (k, v) = u16_to_le klen @ k @ u16_to_le vlen @ v"
      by (simp add: enc_entry_def)
    have snoc: "length (enc_entries (xs @ [(k, v)])) = unat pos'"
      by (simp add: length_enc_entry pos' k v(1))
    then have p: "as_u16 (length (enc_entries (xs @ [(k, v)]))) = pos'" by (simp add: as_u16_def)
    have small: "leaf_small (xs @ [(k, v)])"
      using snoc unsigned_less [of pos'] by (simp add: leaf_small_def)
    have es: "?es = enc_entries (xs @ [(k, v)]) @ drop (unat vlen) r2"
      using entry v(2) by (simp add: rest)
    from Suc.IH [of "xs @ [(k, v)]" "drop (unat vlen) r2"] step(3) small p es
    consider (ok) ys rest' where "drop (unat vlen) r2 = enc_entries ys @ rest'" "length ys = n"
        "leaf_small ((xs @ [(k, v)]) @ ys)" "pos = as_u16 (length (enc_entries ((xs @ [(k, v)]) @ ys)))"
        "ss = starts ((xs @ [(k, v)]) @ ys)"
      | (cut) ys where "Suc (length ys) = n" "leaf_small ((xs @ [(k, v)]) @ ys)"
        "ss = starts ((xs @ [(k, v)]) @ ys) @ [pos]" "length ?es < unat pos"
        "cut_entry ?es (length (enc_entries ((xs @ [(k, v)]) @ ys)))"
      by (auto simp: offsets_snoc)
    then show ?thesis
    proof cases
      case ok
      then have "rest = enc_entries ((k, v) # ys) @ rest'"
        using v(2) entry by (simp add: rest)
      with ok show ?thesis by (intro disjI1 exI [of _ "(k, v) # ys"] exI [of _ rest']) simp
    next
      case cut
      then show ?thesis by (intro disjI2 exI [of _ "(k, v) # ys"]) simp
    qed
  next
    case False
    then have long: "length ?es < unat pos'" by (simp add: rest pos' k)
    then have "n = 0" using step(3) by (cases n) (auto split: bind_splits dest: read_u16_bound)
    moreover have "cut_entry ?es ?off" using step(1,2) long by (auto simp: cut_entry_def pos')
    ultimately show ?thesis
      using step(3) long Suc.prems(2) by (intro disjI2 exI [of _ "[]"]) auto
  qed
qed

lemma header_split:
  assumes "elem_at bs 0 = Some tag" "read_u64 bs 1 = Some i" "read_u16 bs 9 = Some n"
  obtains rest where "bs = tag # u64_to_le i @ u16_to_le n @ rest"
proof -
  obtain bs1 where bs1: "bs = [tag] @ bs1" using assms(1) by (cases bs) (auto simp: elem_at_def)
  then obtain bs2 where bs2: "bs1 = u64_to_le i @ bs2"
    using assms(2) read_u64_split [of "[tag]" bs1 i] by auto
  then obtain bs3 where "bs2 = u16_to_le n @ bs3"
    using assms(3) bs1 read_u16_split [of "tag # u64_to_le i" bs2 n] by auto
  then show thesis using that bs1 bs2 by simp
qed

lemma leaf_decode_any:
  assumes "leaf_decode i bs = Some l"
  shows "(\<exists>kvs rest. l = mk_leaf i kvs \<and> leaf_small kvs \<and> bs = leaf_image i kvs @ rest) \<or>
    (\<exists>n. leaf_nkeys l = Some n \<and> 0 < n \<and> leaf_get_val l (n - 1) = None)"
proof -
  obtain n es pos ss where d: "elem_at bs 0 = Some PAGE_TYPE_LEAF" "read_u64 bs 1 = Some i" "read_u16 bs 9 = Some n"
    "slice_of bs 11 (length bs) = Some es" "leaf_scan es (unat n) 0 [0] = Some (pos, ss)"
    "l = \<lparr>leaf_id = i, entries = take (unat pos) es, entry_start = ss\<rparr>"
    using assms by (auto simp: leaf_decode_def LEAF_HEADER_def assert_that_def split: bind_splits if_splits)
  obtain rest where bs: "bs = PAGE_TYPE_LEAF # u64_to_le i @ u16_to_le n @ rest"
    by (rule header_split [OF d(1-3)])
  then have "es = rest" using d(4) by (simp add: slice_of_def drop_Cons')
  then have "leaf_scan (enc_entries [] @ rest) (unat n) (as_u16 (length (enc_entries []))) (starts []) = Some (pos, ss)"
    using d(5) by simp
  from leaf_scan_any [OF this]
  consider (ok) kvs rest' where "rest = enc_entries kvs @ rest'" "length kvs = unat n" "leaf_small kvs"
      "pos = as_u16 (length (enc_entries kvs))" "ss = starts kvs"
    | (cut) kvs where "Suc (length kvs) = unat n" "leaf_small kvs" "ss = starts kvs @ [pos]" "length rest < unat pos"
      "cut_entry rest (length (enc_entries kvs))"
    by (auto simp: leaf_small_def)
  then show ?thesis
  proof cases
    case ok
    have "as_u16 (length kvs) = n" by (simp add: ok(2) as_u16_def)
    moreover have "unat pos = length (enc_entries kvs)" using ok(3) by (simp add: ok(4) leaf_small_def unat_as_u16)
    ultimately have "l = mk_leaf i kvs" "bs = leaf_image i kvs @ rest'"
      using d(6) ok by (simp_all add: mk_leaf_def bs leaf_image_def \<open>es = rest\<close>)
    with ok(3) show ?thesis by blast
  next
    case cut
    let ?p = "length (enc_entries kvs)"
    have l: "entries l = rest" "entry_start l = ss" using d(6) cut(4) by (simp_all add: \<open>es = rest\<close>)
    have n: "as_u16 (Suc (length kvs)) = n" by (simp add: cut(1) as_u16_def)
    then have "0 < n" "unat (n - 1) = length kvs"
      using cut(1) by (auto simp: word_greater_zero_iff unat_gt_0 unat_minus_one simp flip: unat_gt_0)
    moreover have "leaf_nkeys l = Some n" by (simp add: leaf_nkeys_def l(2) cut(3) usize_sub_def n)
    moreover have "elem_at ss (length kvs) = Some (as_u16 ?p)"
      by (simp add: elem_at_def cut(3) nth_append offsets_nth)
    moreover have "unat (as_u16 ?p) = ?p" using cut(2) by (simp add: leaf_small_def unat_as_u16)
    ultimately have "leaf_get_val l (n - 1) = None"
      using cut(5) by (auto simp: leaf_get_val_def l cut_entry_def slice_of_def Let_def)
    with \<open>0 < n\<close> \<open>leaf_nkeys l = Some n\<close> show ?thesis by blast
  qed
qed

section \<open>Internal nodes\<close>

lemma internal_scan_any:
  assumes "internal_scan (pre @ enc_keys xs @ rest) n (11 + length (enc_keys xs)) (offsets enc_key xs) = Some (kend, ss)"
    and "length pre = 11"
  shows "(\<exists>ys rest'. rest = enc_keys ys @ rest' \<and> length ys = n \<and>
      kend = 11 + length (enc_keys (xs @ ys)) \<and> ss = offsets enc_key (xs @ ys)) \<or>
    length (pre @ enc_keys xs @ rest) < kend"
  using assms(1)
proof (induction n arbitrary: xs rest)
  case 0
  then show ?case by auto
next
  case (Suc n)
  let ?bs = "pre @ enc_keys xs @ rest" and ?off = "length (enc_keys xs)"
  obtain klen where step: "read_u16 ?bs (11 + ?off) = Some klen"
    "internal_scan ?bs n (11 + ?off + (2 + unat klen)) (offsets enc_key xs @ [as_u16 (?off + 2 + unat klen)]) =
      Some (kend, ss)"
    using Suc.prems by (auto simp: Let_def usize_sub_def INTERNAL_HEADER_def split: bind_splits if_splits)
  obtain r1 where r1: "rest = u16_to_le klen @ r1"
    using step(1) assms(2) read_u16_split [of "pre @ enc_keys xs" rest klen] by auto
  show ?case
  proof (cases "unat klen \<le> length r1")
    case True
    define k where "k = take (unat klen) r1"
    have k: "length k = unat klen" "r1 = k @ drop (unat klen) r1" using True by (simp_all add: k_def)
    then have "as_u16 (length k) = klen" by (simp add: as_u16_def)
    then have rest: "rest = enc_key k @ drop (unat klen) r1" using k(2) by (simp add: enc_key_def r1)
    have end_: "length (enc_keys (xs @ [k])) = ?off + 2 + unat klen" by (simp add: length_enc_key k(1))
    have bs: "?bs = pre @ enc_keys (xs @ [k]) @ drop (unat klen) r1" by (simp add: rest)
    from Suc.IH [of "xs @ [k]" "drop (unat klen) r1"] step(2)
    consider (ok) ys rest' where "drop (unat klen) r1 = enc_keys ys @ rest'" "length ys = n"
        "kend = 11 + length (enc_keys ((xs @ [k]) @ ys))" "ss = offsets enc_key ((xs @ [k]) @ ys)"
      | (cut) "length ?bs < kend"
      unfolding offsets_snoc end_ bs [symmetric] by (auto simp: add.assoc)
    then show ?thesis
    proof cases
      case ok
      then show ?thesis using rest by (intro disjI1 exI [of _ "k # ys"] exI [of _ rest']) simp
    qed simp
  next
    case False
    then have long: "length ?bs < 11 + ?off + (2 + unat klen)" using assms(2) by (simp add: r1)
    then have "n = 0" using step(2) by (cases n) (auto split: bind_splits dest: read_u16_bound)
    then show ?thesis using step(2) long by simp
  qed
qed

lemma internal_decode_any:
  assumes "internal_decode i bs = Some nd"
  shows "\<exists>ks cs rest. nd = mk_internal i ks cs \<and> length cs = Suc (length ks) \<and> bs = internal_image i ks cs @ rest"
proof -
  obtain n kend ss ks cs where d: "elem_at bs 0 = Some PAGE_TYPE_INTERNAL" "read_u64 bs 1 = Some i"
    "read_u16 bs 9 = Some n" "internal_scan bs (unat n) 11 [0] = Some (kend, ss)" "slice_of bs 11 kend = Some ks"
    "read_u64s bs kend (unat n + 1) = Some cs" "nd = \<lparr>internal_id = i, keys = ks, key_start = ss, children = cs\<rparr>"
    using assms by (auto simp: internal_decode_def INTERNAL_HEADER_def assert_that_def simp del: read_u64s.simps
        split: bind_splits if_splits)
  obtain rest where bs: "bs = PAGE_TYPE_INTERNAL # u64_to_le i @ u16_to_le n @ rest"
    by (rule header_split [OF d(1-3)])
  let ?pre = "PAGE_TYPE_INTERNAL # u64_to_le i @ u16_to_le n"
  have "\<not> length bs < kend" using d(5) by (simp add: slice_of_eq_Some)
  then obtain ys rest' where ys: "rest = enc_keys ys @ rest'" "length ys = unat n"
    "kend = 11 + length (enc_keys ys)" "ss = offsets enc_key ys"
    using internal_scan_any [of ?pre "[]" rest "unat n" kend ss] d(4) bs by auto
  have n: "as_u16 (length ys) = n" by (simp add: ys(2) as_u16_def)
  have split: "bs = (?pre @ enc_keys ys) @ rest'" by (simp add: bs ys(1))
  have "ks = enc_keys ys"
    using d(5) slice_of_mid [of 11 ?pre kend "enc_keys ys" rest'] by (simp add: split ys(3))
  moreover obtain rest'' where "rest' = concat (map u64_to_le cs) @ rest''" "length cs = Suc (length ys)"
    using read_u64s_split [of "?pre @ enc_keys ys" rest' "unat n + 1" cs] d(6) split ys(2,3)
    by (auto simp del: read_u64s.simps)
  ultimately have "nd = mk_internal i ys cs" "bs = internal_image i ys cs @ rest''" "length cs = Suc (length ys)"
    using d(7) n split ys(4) by (simp_all add: mk_internal_def internal_image_def)
  then show ?thesis by blast
qed

section \<open>Tree pages\<close>

lemma page_decode_Leaf: "page_decode i bs = Some (Leaf l) \<Longrightarrow> leaf_decode i bs = Some l"
  by (auto simp: page_decode_def split: bind_splits if_splits)

lemma page_decode_Internal: "page_decode i bs = Some (Internal nd) \<Longrightarrow> internal_decode i bs = Some nd"
  by (auto simp: page_decode_def split: bind_splits if_splits)

text \<open>
  The page below says that its only entry has a key of one byte and a value of 9 bytes, of which it holds
  two. It is decoded, its key can be read, and reading the value panics.
\<close>

lemma cut_leaf_decoded:
  "case page_decode 5 (PAGE_TYPE_LEAF # [5, 0, 0, 0, 0, 0, 0, 0] @ [1, 0] @ [1, 0, 7, 9, 0, 8, 8]) of
     Some (Leaf l) \<Rightarrow> leaf_get_key l 0 = Some [7] \<and> leaf_get_val l 0 = None \<and>
       length (entries l) < unat (last (entry_start l))
   | _ \<Rightarrow> False"
  by (simp add: page_decode_def leaf_decode_def elem_at_def read_u64_def read_u16_def slice_of_def u64_from_le_def
      u16_from_le_def LEAF_HEADER_def u16_add_def leaf_get_key_def leaf_get_val_def)

section \<open>Property\<close>

text \<open>C32. Whatever the bytes of a page, the decoder panics, or gives a node under the id it was asked for that is
  well-formed: it is built from a list of entries, or from separators and one more child than separators,
  and fits a page of that length; so it can be serialised again, and that page gives the same node. The one
  exception is a leaf whose last value runs past the page: it is accepted, and reading that value panics.\<close>

theorem decoded_page_well_formed:
  assumes "page_decode i bs = Some pg" "length bs \<le> 65535"
  shows "(\<exists>nd bs'. pg = mk_page i nd \<and> node_fits (length bs) nd \<and>
      page_to_bytes pg i (length bs) = Some bs' \<and> length bs' = length bs \<and> page_decode i bs' = Some pg) \<or>
    (\<exists>l n. pg = Leaf l \<and> leaf_nkeys l = Some n \<and> 0 < n \<and> leaf_get_val l (n - 1) = None)"
proof (cases pg)
  case (Leaf l)
  then have "leaf_decode i bs = Some l" using assms(1) by (simp add: page_decode_Leaf)
  from leaf_decode_any [OF this] consider
    (ok) kvs rest where "l = mk_leaf i kvs" "leaf_small kvs" "bs = leaf_image i kvs @ rest"
    | (cut) n where "leaf_nkeys l = Some n" "0 < n" "leaf_get_val l (n - 1) = None"
    by blast
  then show ?thesis
  proof cases
    case ok
    then have "node_fits (length bs) (LeafN kvs)" "pg = mk_page i (LeafN kvs)" using Leaf by simp_all
    then show ?thesis using page_to_bytes_decode [of "length bs" "LeafN kvs" i i] by blast
  qed (use Leaf in blast)
next
  case (Internal n)
  then have "internal_decode i bs = Some n" using assms(1) by (simp add: page_decode_Internal)
  from internal_decode_any [OF this] obtain ks cs rest where
    n: "n = mk_internal i ks cs" "length cs = Suc (length ks)" "bs = internal_image i ks cs @ rest"
    by blast
  then have "node_fits (length bs) (InternalN ks cs)" "pg = mk_page i (InternalN ks cs)"
    using assms(2) Internal by (simp_all add: keys_small_def)
  then show ?thesis using page_to_bytes_decode [of "length bs" "InternalN ks cs" i i] by blast
qed

lemma decoded_page_well_formed_witness:
  "\<exists>pg. page_decode 5 (leaf_image 5 [([1], [2, 3])] @ [9, 9]) = Some pg \<and>
    ((\<exists>nd bs'. pg = mk_page 5 nd \<and> node_fits 20 nd \<and>
      page_to_bytes pg 5 20 = Some bs' \<and> length bs' = 20 \<and> page_decode 5 bs' = Some pg) \<or>
    (\<exists>l n. pg = Leaf l \<and> leaf_nkeys l = Some n \<and> 0 < n \<and> leaf_get_val l (n - 1) = None))"
proof -
  have small: "leaf_small [([1], [2, 3])]" by (simp add: leaf_small_def length_enc_entry)
  have d: "page_decode 5 (leaf_image 5 [([1], [2, 3])] @ [9, 9]) = Some (mk_page 5 (LeafN [([1], [2, 3])]))"
    by (simp add: page_decode_leaf_image leaf_decode_image [OF small])
  have len: "length (leaf_image 5 [([1], [2, 3])] @ [9, 9 :: byte]) = 20" by (simp add: length_enc_entry)
  show ?thesis using decoded_page_well_formed [OF d] d unfolding len by simp
qed

end
