(* ===== verification/Discipline.thy ===== *)
theory Discipline
  imports Stages
begin

text \<open>
  The commit in stages again, under the discipline that its comment needs: between the gate and the
  publication of the new root no reader loads the root. Readers may still enter, read pages, answer
  and leave in every stage of the commit. Under the discipline the store is linearizable; without it,
  it is not.
\<close>

section \<open>The discipline\<close>

fun committing :: "'io writer_pc \<Rightarrow> bool" where
  "committing (Gated k v r tx) \<longleftrightarrow> True"
| "committing (Persisted k v r tx) \<longleftrightarrow> True"
| "committing _ \<longleftrightarrow> False"

definition loads_root :: "'io system \<Rightarrow> 'io system \<Rightarrow> bool" where
  "loads_root s s' \<longleftrightarrow> (\<exists>i k r. pcs s i = Entered k \<and> pcs s' i = Rooted k r)"

inductive disciplined_step :: "'io page_io \<Rightarrow> ('io \<Rightarrow> nat) \<Rightarrow> 'io system \<Rightarrow> 'io system \<Rightarrow> bool" for ops lim where
  disciplined_read: "read_step ops s s' \<Longrightarrow> \<not> (committing (writer s) \<and> loads_root s s') \<Longrightarrow> disciplined_step ops lim s s'"
| disciplined_write: "writer_step ops s s' \<Longrightarrow> writer s \<noteq> Idle \<or> capacity ops lim (shared s) \<Longrightarrow>
    disciplined_step ops lim s s'"

section \<open>The transaction and the count of readers\<close>

definition same_store :: "'io store \<Rightarrow> 'io store \<Rightarrow> bool" where
  "same_store a b \<longleftrightarrow> (\<exists>n. a = b\<lparr>readers := n\<rparr>)"

lemma same_store_facts:
  assumes "same_store a b"
  shows "store_io a = store_io b" "root a = root b" "write_lock a = write_lock b"
    "guard_read ops a = guard_read ops b" "a = b\<lparr>readers := readers a\<rparr>"
  using assms by (auto simp: same_store_def)

lemma same_store_refl: "same_store a a"
  unfolding same_store_def by (rule exI [of _ "readers a"]) simp

lemma same_store_trans: "same_store a b \<Longrightarrow> same_store b c \<Longrightarrow> same_store a c"
  by (auto simp: same_store_def)

lemma on_shared_same: "same_store st (txn_store tx) \<Longrightarrow> on_shared st tx = with_readers (readers st) tx"
  using same_store_facts(5) [of st "txn_store tx"] by (simp add: on_shared_def with_readers_def)

lemma with_readers_twice [simp]: "with_readers m (with_readers n tx) = with_readers m tx"
  by (simp add: with_readers_def)

lemma flush_writes_readers:
  "flush_writes ops (with_readers n tx) = map_option (with_readers n) (flush_writes ops tx)"
  by (simp add: flush_writes_def with_readers_def map_option_bind comp_def readers_last)

lemma prepared_readers:
  assumes "prepared ops h t st A F h' t' tx"
  shows "prepared ops h t (st\<lparr>readers := n\<rparr>) A F h' t' (with_readers n tx)"
proof -
  have "begin_write (st\<lparr>readers := n\<rparr>) = with_readers n (begin_write st)"
    by (simp add: begin_write_def with_readers_def)
  moreover have "txn_read ops (with_readers n tx) = txn_read ops tx"
    by (rule ext) (simp add: txn_read_def with_readers_def split: option.split)
  moreover have "txn_ext ops A F (with_readers n (begin_write st)) (with_readers n tx)"
    using assms by (simp add: prepared_def txn_ext_def) (simp add: with_readers_def)
  ultimately show ?thesis using assms by (simp add: prepared_def)
qed

lemma commit_metadata_root: "commit_metadata ops tx r = Some tx' \<Longrightarrow> root (txn_store tx') = root (txn_store tx)"
  by (auto simp: commit_metadata_def persist_free_list_def Let_def bind_eq_Some_conv)

section \<open>The invariant\<close>

text \<open>
  A transaction that will put \<open>k\<close> and \<open>v\<close> into the tree \<open>t\<close> of the store \<open>st\<close>, on which it began.
\<close>

definition to_commit ::
    "'io page_io \<Rightarrow> ('io \<Rightarrow> nat) \<Rightarrow> nat \<Rightarrow> ctree \<Rightarrow> 'io store \<Rightarrow> key \<Rightarrow> val \<Rightarrow> page_id \<Rightarrow> 'io write_txn \<Rightarrow> bool"
where
  "to_commit ops lim h t st k v r tx \<longleftrightarrow>
     put_reach (page_size ops (store_io st)) h (write_lock st) < 2 ^ 64 \<and>
     put_reach (page_size ops (store_io st)) h (write_lock st) \<le> lim (store_io st) \<and>
     (\<exists>A F h' t'. prepared ops h t st A F h' t' tx \<and> r = tid t' \<and> contents t' = upsert k v (contents t))"

definition unrooted :: "(nat \<Rightarrow> reader_pc) \<Rightarrow> bool" where
  "unrooted f \<longleftrightarrow> (\<forall>i. f i = Outside \<or> (\<exists>k. f i = Entered k))"

text \<open>
  What the writer has done since it began on \<open>st\<close>. If the gate has seen no reader, none has loaded the
  root since.
\<close>

fun writer_ok ::
    "'io page_io \<Rightarrow> ('io \<Rightarrow> nat) \<Rightarrow> nat \<Rightarrow> ctree \<Rightarrow> 'io store \<Rightarrow> 'io store \<Rightarrow> (nat \<Rightarrow> reader_pc) \<Rightarrow> 'io writer_pc \<Rightarrow> bool"
where
  "writer_ok ops lim h t st sh f Idle \<longleftrightarrow> same_store sh st"
| "writer_ok ops lim h t st sh f (Prepared k v r tx) \<longleftrightarrow>
     to_commit ops lim h t st k v r tx \<and> same_store sh (txn_store tx)"
| "writer_ok ops lim h t st sh f (Flushed k v r tx) \<longleftrightarrow>
     (\<exists>tx0 n. to_commit ops lim h t st k v r tx0 \<and> flush_writes ops (with_readers n tx0) = Some tx) \<and>
     same_store sh (txn_store tx)"
| "writer_ok ops lim h t st sh f (Gated k v r tx) \<longleftrightarrow>
     (\<exists>tx0 tx1 n. to_commit ops lim h t st k v r tx0 \<and> flush_writes ops (with_readers n tx0) = Some tx1 \<and>
        tx = promote_pending tx1 \<and> (n = 0 \<longrightarrow> unrooted f)) \<and>
     same_store sh (txn_store tx)"
| "writer_ok ops lim h t st sh f (Persisted k v r tx) \<longleftrightarrow>
     (\<exists>tx0 tx1 tx2 n. to_commit ops lim h t st k v r tx0 \<and> flush_writes ops (with_readers n tx0) = Some tx1 \<and>
        commit_metadata ops (promote_pending tx1) r = Some tx2 \<and> same_store (txn_store tx) (txn_store tx2) \<and>
        (n = 0 \<longrightarrow> unrooted f)) \<and>
     same_store sh (txn_store tx)"

definition staged_ok :: "'io page_io \<Rightarrow> ('io \<Rightarrow> bool) \<Rightarrow> ('io \<Rightarrow> nat) \<Rightarrow> 'io system \<Rightarrow> bool" where
  "staged_ok ops io_ok lim s \<longleftrightarrow>
     finite (active (pcs s)) \<and> readers (shared s) = card (active (pcs s)) \<and>
     (\<exists>h t st. store_ok ops io_ok h t st \<and> map_of (contents t) = published s \<and>
       (\<forall>i. reader_ok ops (live_pages t st) st (snap s i) (pcs s i)) \<and> root (shared s) = root st \<and>
       (\<forall>j pg. j \<in> live_pages t st \<longrightarrow> guard_read ops st j = Some pg \<longrightarrow> guard_read ops (shared s) j = Some pg) \<and>
       writer_ok ops lim h t st (shared s) (pcs s) (writer s))"

lemma staged_okE:
  assumes "staged_ok ops io_ok lim s"
  obtains h t st where "store_ok ops io_ok h t st" "map_of (contents t) = published s"
    "\<And>i. reader_ok ops (live_pages t st) st (snap s i) (pcs s i)" "root (shared s) = root st"
    "\<And>j pg. j \<in> live_pages t st \<Longrightarrow> guard_read ops st j = Some pg \<Longrightarrow> guard_read ops (shared s) j = Some pg"
    "writer_ok ops lim h t st (shared s) (pcs s) (writer s)"
  using assms unfolding staged_ok_def by (elim conjE exE) (rule that; blast)

lemma staged_idle: "writer s = Idle \<Longrightarrow> staged_ok ops io_ok lim s \<longleftrightarrow> system_ok ops io_ok s"
proof
  assume idle: "writer s = Idle" and s: "staged_ok ops io_ok lim s"
  then obtain h t st where st: "store_ok ops io_ok h t st" "map_of (contents t) = published s"
    "\<forall>i. reader_ok ops (live_pages t st) st (snap s i) (pcs s i)" "same_store (shared s) st"
    by (auto simp: staged_ok_def)
  obtain n where sh: "shared s = st\<lparr>readers := n\<rparr>" using st(4) by (auto simp: same_store_def)
  then show "system_ok ops io_ok s"
    using s st unfolding system_ok_def staged_ok_def by (intro conjI exI [of _ h] exI [of _ t]) simp_all
next
  assume "writer s = Idle" "system_ok ops io_ok s"
  then show "staged_ok ops io_ok lim s"
    unfolding system_ok_def staged_ok_def by (force simp: same_store_refl)
qed

section \<open>Readers\<close>

lemma unrooted_not: "unrooted f \<Longrightarrow> f i \<noteq> Rooted k r \<and> f i \<noteq> At k pg \<and> f i \<noteq> Answered k v"
  unfolding unrooted_def by (drule spec [of _ i]) auto

lemma unrooted_step:
  assumes "read_step ops s s'" "\<not> loads_root s s'" "unrooted (pcs s)"
  shows "unrooted (pcs s')"
  using assms
proof cases
  case (enter i k)
  then show ?thesis using assms(3) by (simp add: unrooted_def)
next
  case (load_root i k)
  then have "loads_root s s'" by (auto simp: loads_root_def intro!: exI [of _ i])
  then show ?thesis using assms(2) by simp
qed (use unrooted_not [OF assms(3)] in simp_all)

lemma read_step_writer_ok:
  assumes "read_step ops s s'" "\<not> (committing (writer s) \<and> loads_root s s')"
    and "writer_ok ops lim h t st (shared s) (pcs s) (writer s)"
  shows "writer_ok ops lim h t st (shared s') (pcs s') (writer s')"
proof -
  have "same_store (shared s') (shared s)" using read_step_frame(1) [OF assms(1)] by (simp add: same_store_def)
  then have sh: "same_store (shared s) x \<Longrightarrow> same_store (shared s') x" for x by (rule same_store_trans)
  have "unrooted (pcs s) \<Longrightarrow> unrooted (pcs s')" if "committing (writer s)"
    using unrooted_step [OF assms(1)] assms(2) that by blast
  then show ?thesis
    using assms(3) sh unfolding read_step_frame(2) [OF assms(1)] by (cases "writer s") (simp, simp, simp, fastforce, fastforce)
qed

lemma read_step_staged:
  assumes step: "read_step ops s s'" "\<not> (committing (writer s) \<and> loads_root s s')" and s: "staged_ok ops io_ok lim s"
  shows "staged_ok ops io_ok lim s'" "abs_system s' = abs_system s \<or> spec_step (abs_system s) (abs_system s')"
proof -
  obtain h t st where st: "store_ok ops io_ok h t st" "map_of (contents t) = published s"
    and rd: "\<And>i. reader_ok ops (live_pages t st) st (snap s i) (pcs s i)" and root: "root (shared s) = root st"
    and kept: "\<And>j pg. j \<in> live_pages t st \<Longrightarrow> guard_read ops st j = Some pg \<Longrightarrow> guard_read ops (shared s) j = Some pg"
    and w: "writer_ok ops lim h t st (shared s) (pcs s) (writer s)"
    by (rule staged_okE [OF s]) (rule that; assumption)
  have "reader_ok ops (live_pages t st) st (snap s' i) (pcs s' i)" for i
    using store_visible [OF st(1)] root st(2) kept by (intro read_step_readers [OF step(1) rd]) auto
  moreover have "finite (active (pcs s')) \<and> readers (shared s') = card (active (pcs s'))"
    using s by (intro read_step_count [OF step(1)]) (simp_all add: staged_ok_def)
  moreover have "writer_ok ops lim h t st (shared s') (pcs s') (writer s')" by (rule read_step_writer_ok [OF step w])
  moreover obtain n where "shared s' = (shared s)\<lparr>readers := n\<rparr>" "published s' = published s"
    using read_step_frame [OF step(1)] by blast
  ultimately show "staged_ok ops io_ok lim s'"
    using st root kept unfolding staged_ok_def by (intro conjI exI [of _ h] exI [of _ t] exI [of _ st]) simp_all
  show "abs_system s' = abs_system s \<or> spec_step (abs_system s) (abs_system s')"
    by (rule read_step_refines [OF step(1) rd])
qed

section \<open>The writer\<close>

context page_backend
begin

text \<open>
  The stages of a commit that began on \<open>st\<close> and found \<open>n\<close> readers at its gate: they all succeed, the
  pages of the old tree and those that wait stay readable, and the last store is that of the new tree.
\<close>

lemma stages_ok:
  assumes st: "store_ok ops inv h t st" and tc: "to_commit ops limit h t st k v r tx0"
  obtains tx1 tx2 h' t' where "flush_writes ops (with_readers n tx0) = Some tx1"
    "commit_metadata ops (promote_pending tx1) r = Some tx2"
    "root (txn_store tx0) = root st" "root (txn_store tx1) = root st" "root (txn_store tx2) = root st"
    "\<And>j pg. j \<in> live_pages t st \<Longrightarrow> guard_read ops st j = Some pg \<Longrightarrow>
       guard_read ops (txn_store tx0) j = Some pg \<and> guard_read ops (txn_store tx1) j = Some pg \<and>
       guard_read ops (txn_store tx2) j = Some pg"
    "store_ok ops inv h' t' ((txn_store tx2)\<lparr>root := r\<rparr>)" "contents t' = upsert k v (contents t)"
    "page_size ops (store_io (txn_store tx2)) = page_size ops (store_io st)"
    "n \<noteq> 0 \<Longrightarrow> live_pages t st \<subseteq> live_pages t' ((txn_store tx2)\<lparr>root := r\<rparr>)"
proof -
  obtain A F h' t' where prep: "prepared ops h t st A F h' t' tx0" and r: "r = tid t'"
    and contents: "contents t' = upsert k v (contents t)"
    and reach: "put_reach (page_size ops (store_io st)) h (write_lock st) < 2 ^ 64"
      "put_reach (page_size ops (store_io st)) h (write_lock st) \<le> limit (store_io st)"
    using tc by (auto simp: to_commit_def)
  let ?st = "st\<lparr>readers := n\<rparr>" and ?g = "write_lock st"
  have st': "store_ok ops inv h t ?st" using st by simp
  have prep': "prepared ops h t ?st A F h' t' (with_readers n tx0)" by (rule prepared_readers [OF prep])
  have pool: "pool_ok (ids t @ pending_free ?g @ free_list_page_ids ?g) ?g" and inv: "inv (store_io st)"
    using st by (simp_all add: store_ok_def)
  note ready = prepared_ready [OF prep pool]
  have reach': "put_reach (page_size ops (store_io ?st)) h (write_lock ?st) < 2 ^ 64"
    "put_reach (page_size ops (store_io ?st)) h (write_lock ?st) \<le> limit (store_io ?st)"
    using reach by simp_all
  obtain tx' st2 where 1: "commit ops (with_readers n tx0) r = Some tx'" "txn_store tx' = st2" "store_ok ops inv h' t' st2"
    "evolves (store_io ?st) (store_io st2)"
    "readers ?st \<noteq> 0 \<Longrightarrow> set (ids t) \<union> set (pending_free (write_lock ?st)) \<subseteq> set (ids t') \<union> set (pending_free (write_lock st2))"
    "\<And>j pg. j \<in> set (ids t) \<union> set (pending_free (write_lock ?st)) \<Longrightarrow> guard_read ops ?st j = Some pg \<Longrightarrow>
       guard_read ops st2 j = Some pg"
    by (rule commit_prepared [OF st' reach' prep', folded r]) (rule that; assumption)
  from 1(1) obtain tx1 tx2 where 2: "flush_writes ops (with_readers n tx0) = Some tx1"
    "commit_metadata ops (promote_pending tx1) r = Some tx2" "tx' = tx2\<lparr>txn_store := (txn_store tx2)\<lparr>root := r\<rparr>\<rparr>"
    by (auto simp: commit_stages bind_eq_Some_conv)
  then have st2: "st2 = (txn_store tx2)\<lparr>root := r\<rparr>" using 1(2) by simp
  have roots: "root (txn_store tx0) = root st" "root (txn_store tx1) = root st" "root (txn_store tx2) = root st"
    using ready(1,3) 2(1) commit_metadata_root [OF 2(2)] by (auto simp: flush_writes_def with_readers_def bind_eq_Some_conv)
  have kept: "guard_read ops (txn_store tx0) j = Some pg \<and> guard_read ops (txn_store tx1) j = Some pg \<and>
       guard_read ops (txn_store tx2) j = Some pg"
    if j: "j \<in> live_pages t st" and rd: "guard_read ops st j = Some pg" for j pg
  proof (intro conjI)
    show "guard_read ops (txn_store tx0) j = Some pg" using rd ready(1) by (simp add: guard_read_def)
    show "guard_read ops (txn_store tx2) j = Some pg"
      using 1(6) [of j pg] j rd st2 by (simp add: live_pages_def guard_read_def)
    obtain io where io: "write_pages ops (store_io st) (writes tx0) = Some io" "store_io (txn_store tx1) = io"
      using 2(1) ready(1) by (auto simp: flush_writes_def with_readers_def bind_eq_Some_conv)
    have "j \<notin> set A" using ready(14) [of j] j by (auto simp: live_pages_def)
    then have "j \<notin> fst ` set (writes tx0)" using ready(12) by auto
    then show "guard_read ops (txn_store tx1) j = Some pg"
      using rd write_pages_other [OF inv io(1)] io(2) by (auto simp: guard_read_def bind_eq_Some_conv)
  qed
  have "page_size ops (store_io (txn_store tx2)) = page_size ops (store_io st)"
    using evolves_facts(2) [OF 1(4)] st2 by simp
  moreover have "live_pages t st \<subseteq> live_pages t' ((txn_store tx2)\<lparr>root := r\<rparr>)" if "n \<noteq> 0"
    using 1(5) that st2 by (simp add: live_pages_def)
  ultimately show ?thesis
    using that [OF 2(1,2) roots kept _ contents] 1(3) unfolding st2 by blast
qed

text \<open>A step of the writer that leaves the published root alone keeps the invariant.\<close>

lemma staged_okI:
  assumes s: "staged_ok ops inv limit s" and st: "store_ok ops inv h t st" "map_of (contents t) = published s"
    and rd: "\<And>i. reader_ok ops (live_pages t st) st (snap s i) (pcs s i)"
    and sh: "readers sh = readers (shared s)" "root sh = root st"
    and kept: "\<And>j pg. j \<in> live_pages t st \<Longrightarrow> guard_read ops st j = Some pg \<Longrightarrow> guard_read ops sh j = Some pg"
    and w: "writer_ok ops limit h t st sh (pcs s) w"
  shows "staged_ok ops inv limit (s\<lparr>shared := sh, writer := w\<rparr>)"
  using assms unfolding staged_ok_def by (intro conjI exI [of _ h] exI [of _ t] exI [of _ st]) simp_all

lemma to_commit_prepared:
  assumes st: "store_ok ops inv h t st" and cap: "capacity ops limit st"
    and kv: "length k + length v \<le> max_kv_size (page_size ops (store_io st))"
    and put: "put_prepared ops (begin_write st) k v = Some (r, tx)"
  shows "to_commit ops limit h t st k v r tx" "readers (txn_store tx) = readers st"
proof -
  note reach = put_reach_of_capacity [OF st cap]
  obtain tx' A F t' h' where 1: "put_prepared ops (begin_write st) k v = Some (tid t', tx')"
    "prepared ops h t st A F h' t' tx'" "contents t' = upsert k v (contents t)"
    by (rule store_put_prepared [OF st kv reach(1)]) (rule that; assumption)
  then have "tx' = tx" "r = tid t'" using put by simp_all
  then show "to_commit ops limit h t st k v r tx" using 1(2,3) reach by (auto simp: to_commit_def)
  have "pool_ok (ids t @ pending_free (write_lock st) @ free_list_page_ids (write_lock st)) (write_lock st)"
    using st by (simp add: store_ok_def)
  then show "readers (txn_store tx) = readers st"
    using prepared_ready(2) [OF 1(2)] \<open>tx' = tx\<close> by simp
qed

text \<open>The five steps of the writer.\<close>

lemma prepare_staged:
  assumes s: "staged_ok ops inv limit s" and idle: "writer s = Idle" and cap: "capacity ops limit (shared s)"
    and put: "length k + length v \<le> max_kv_size (page_size ops (store_io (shared s)))"
      "put_prepared ops (begin_write (shared s)) k v = Some (r, tx)"
  shows "staged_ok ops inv limit (s\<lparr>shared := txn_store tx, writer := Prepared k v r tx\<rparr>)"
proof -
  have "system_ok ops inv s" using s idle staged_idle by blast
  then obtain h t where 1: "store_ok ops inv h t (shared s)" "map_of (contents t) = published s"
    "\<And>i. reader_ok ops (live_pages t (shared s)) (shared s) (snap s i) (pcs s i)"
    by (auto simp: system_ok_def)
  note tc = to_commit_prepared [OF 1(1) cap put]
  obtain tx1 where 2: "root (txn_store tx) = root (shared s)"
    "\<And>j pg. j \<in> live_pages t (shared s) \<Longrightarrow> guard_read ops (shared s) j = Some pg \<Longrightarrow> guard_read ops (txn_store tx) j = Some pg"
    by (rule stages_ok [OF 1(1) tc(1), of 0]) blast
  show ?thesis by (rule staged_okI [OF s 1 tc(2) 2]) (simp_all add: tc(1) same_store_refl)
qed

lemma flush_staged:
  assumes s: "staged_ok ops inv limit s" and pc: "writer s = Prepared k v r tx"
    and flush: "flush_writes ops (on_shared (shared s) tx) = Some tx'"
  shows "staged_ok ops inv limit (s\<lparr>shared := txn_store tx', writer := Flushed k v r tx'\<rparr>)"
proof -
  obtain h t st where st: "store_ok ops inv h t st" "map_of (contents t) = published s"
    "\<And>i. reader_ok ops (live_pages t st) st (snap s i) (pcs s i)" and "writer_ok ops limit h t st (shared s) (pcs s) (writer s)"
    by (rule staged_okE [OF s]) (rule that; assumption)
  then have w: "to_commit ops limit h t st k v r tx" "same_store (shared s) (txn_store tx)" using pc by simp_all
  let ?m = "readers (shared s)"
  have f: "flush_writes ops (with_readers ?m tx) = Some tx'" using flush on_shared_same [OF w(2)] by simp
  obtain tx1 where 1: "flush_writes ops (with_readers ?m tx) = Some tx1" "root (txn_store tx1) = root st"
    "\<And>j pg. j \<in> live_pages t st \<Longrightarrow> guard_read ops st j = Some pg \<Longrightarrow> guard_read ops (txn_store tx1) j = Some pg"
    by (rule stages_ok [OF st(1) w(1), of ?m]) blast
  have tx': "tx' = tx1" using f 1(1) by simp
  have "readers (txn_store tx') = ?m" using f by (auto simp: flush_writes_def with_readers_def bind_eq_Some_conv)
  then show ?thesis unfolding tx' using 1 w(1) by (intro staged_okI [OF s st]) (auto simp: same_store_refl)
qed

lemma gate_staged:
  assumes s: "staged_ok ops inv limit s" and pc: "writer s = Flushed k v r tx"
    and gate: "tx' = promote_pending (on_shared (shared s) tx)"
  shows "staged_ok ops inv limit (s\<lparr>shared := txn_store tx', writer := Gated k v r tx'\<rparr>)"
proof -
  obtain h t st where st: "store_ok ops inv h t st" "map_of (contents t) = published s"
      "\<And>i. reader_ok ops (live_pages t st) st (snap s i) (pcs s i)" and root: "root (shared s) = root st"
    and kept: "\<And>j pg. j \<in> live_pages t st \<Longrightarrow> guard_read ops st j = Some pg \<Longrightarrow> guard_read ops (shared s) j = Some pg"
    and "writer_ok ops limit h t st (shared s) (pcs s) (writer s)"
    by (rule staged_okE [OF s]) (rule that; assumption)
  then obtain tx0 n where w: "to_commit ops limit h t st k v r tx0" "flush_writes ops (with_readers n tx0) = Some tx"
    "same_store (shared s) (txn_store tx)" using pc by auto
  let ?m = "readers (shared s)"
  have tx': "tx' = promote_pending (with_readers ?m tx)" using gate on_shared_same [OF w(3)] by simp
  have "flush_writes ops (with_readers ?m tx0) = Some (with_readers ?m tx)"
    using flush_writes_readers [of ops ?m "with_readers n tx0"] w(2) by simp
  moreover have "unrooted (pcs s)" if "?m = 0"
    using that s by (auto simp: staged_ok_def active_def unrooted_def)
  ultimately have "writer_ok ops limit h t st (txn_store tx') (pcs s) (Gated k v r tx')"
    unfolding writer_ok.simps tx' using w(1)
    by (intro conjI exI [of _ tx0] exI [of _ "with_readers ?m tx"] exI [of _ ?m] impI) (simp_all add: same_store_refl)
  moreover have sh: "readers (txn_store tx') = ?m" "root (txn_store tx') = root st"
    "store_io (txn_store tx') = store_io (shared s)"
    using tx' root same_store_facts(1,2) [OF w(3)] by simp_all
  moreover have "guard_read ops (txn_store tx') = guard_read ops (shared s)" by (rule guard_read_cong [OF sh(3)])
  ultimately show ?thesis using kept by (intro staged_okI [OF s st]) simp_all
qed

lemma metadata_staged:
  assumes s: "staged_ok ops inv limit s" and pc: "writer s = Gated k v r tx"
    and metadata: "commit_metadata ops (on_shared (shared s) tx) r = Some tx'"
  shows "staged_ok ops inv limit (s\<lparr>shared := txn_store tx', writer := Persisted k v r tx'\<rparr>)"
proof -
  obtain h t st where st: "store_ok ops inv h t st" "map_of (contents t) = published s"
    "\<And>i. reader_ok ops (live_pages t st) st (snap s i) (pcs s i)" and "writer_ok ops limit h t st (shared s) (pcs s) (writer s)"
    by (rule staged_okE [OF s]) (rule that; assumption)
  then obtain tx0 tx1 n where w: "to_commit ops limit h t st k v r tx0" "flush_writes ops (with_readers n tx0) = Some tx1"
    "tx = promote_pending tx1" "n = 0 \<longrightarrow> unrooted (pcs s)" "same_store (shared s) (txn_store tx)" using pc by auto
  let ?m = "readers (shared s)"
  obtain tx1' tx2 where 1: "flush_writes ops (with_readers n tx0) = Some tx1'"
    "commit_metadata ops (promote_pending tx1') r = Some tx2" "root (txn_store tx2) = root st"
    "\<And>j pg. j \<in> live_pages t st \<Longrightarrow> guard_read ops st j = Some pg \<Longrightarrow> guard_read ops (txn_store tx2) j = Some pg"
    by (rule stages_ok [OF st(1) w(1), of n]) blast
  have tx2: "commit_metadata ops (promote_pending tx1) r = Some tx2" using 1(1,2) w(2) by simp
  have tx': "tx' = with_readers ?m tx2"
    using metadata tx2 commit_metadata_readers [of ops ?m "promote_pending tx1" r] on_shared_same [OF w(5)] w(3) by simp
  have "same_store (txn_store tx') (txn_store tx2)" unfolding tx' by (auto simp: same_store_def)
  then have "writer_ok ops limit h t st (txn_store tx') (pcs s) (Persisted k v r tx')"
    using w(1,2,4) tx2 by (auto simp: same_store_refl)
  moreover have "guard_read ops (txn_store tx') = guard_read ops (txn_store tx2)" unfolding tx' by simp
  ultimately show ?thesis using 1(3,4) tx' by (intro staged_okI [OF s st]) simp_all
qed

lemma publish_staged:
  assumes s: "staged_ok ops inv limit s" and pc: "writer s = Persisted k v r tx"
  shows "staged_ok ops inv limit (s\<lparr>shared := (shared s)\<lparr>root := r\<rparr>, writer := Idle, published := (published s)(k \<mapsto> v)\<rparr>)"
proof -
  obtain h t st where st: "store_ok ops inv h t st" "map_of (contents t) = published s"
    and rd: "\<And>i. reader_ok ops (live_pages t st) st (snap s i) (pcs s i)"
    and "writer_ok ops limit h t st (shared s) (pcs s) (writer s)"
    by (rule staged_okE [OF s]) (rule that; assumption)
  then obtain tx0 tx1 tx2 n where w: "to_commit ops limit h t st k v r tx0" "flush_writes ops (with_readers n tx0) = Some tx1"
    "commit_metadata ops (promote_pending tx1) r = Some tx2" "same_store (txn_store tx) (txn_store tx2)"
    "n = 0 \<longrightarrow> unrooted (pcs s)" "same_store (shared s) (txn_store tx)" using pc by auto
  let ?new = "(txn_store tx2)\<lparr>root := r\<rparr>"
  obtain tx1' tx2' h' t' where same: "flush_writes ops (with_readers n tx0) = Some tx1'"
      "commit_metadata ops (promote_pending tx1') r = Some tx2'"
    and 0: "store_ok ops inv h' t' ((txn_store tx2')\<lparr>root := r\<rparr>)" "contents t' = upsert k v (contents t)"
      "page_size ops (store_io (txn_store tx2')) = page_size ops (store_io st)"
      "n \<noteq> 0 \<Longrightarrow> live_pages t st \<subseteq> live_pages t' ((txn_store tx2')\<lparr>root := r\<rparr>)"
      "\<And>j pg. j \<in> live_pages t st \<Longrightarrow> guard_read ops st j = Some pg \<Longrightarrow> guard_read ops (txn_store tx2') j = Some pg"
    by (rule stages_ok [OF st(1) w(1), of n]) blast
  have "tx2' = tx2" using same w(2,3) by simp
  note 1 = 0 [unfolded this]
  obtain m where sh: "shared s = (txn_store tx2)\<lparr>readers := m\<rparr>"
    using same_store_trans [OF w(6,4)] by (auto simp: same_store_def)
  then have sh': "(shared s)\<lparr>root := r\<rparr> = ?new\<lparr>readers := m\<rparr>" by simp
  have "reader_ok ops (live_pages t' ?new) ?new (snap s i) (pcs s i)" for i
  proof (cases "n = 0")
    case True
    then have "pcs s i = Outside \<or> (\<exists>k. pcs s i = Entered k)" using w(5) by (auto simp: unrooted_def)
    then show ?thesis by auto
  next
    case False
    have new: "guard_read ops ?new = guard_read ops (txn_store tx2)" by (rule guard_read_cong) simp
    have "visible ops (live_pages t' ?new) ?new u" if "visible ops (live_pages t st) st u" for u
      using that 1(4) [OF False] by (rule visible_mono) (use 1(3,5) new in simp_all)
    then show ?thesis using rd [of i] by (cases "pcs s i") auto
  qed
  moreover have "map_of (contents t') = (published s)(k \<mapsto> v)" using 1(2) st(2) by (simp add: map_of_upsert)
  ultimately have "system_ok ops inv (s\<lparr>shared := (shared s)\<lparr>root := r\<rparr>, writer := Idle, published := (published s)(k \<mapsto> v)\<rparr>)"
    using s 1(1) unfolding system_ok_def staged_ok_def sh'
    by (intro conjI exI [of _ h'] exI [of _ t']) (simp_all add: sh)
  then show ?thesis by (subst staged_idle) simp_all
qed

lemma writer_step_staged:
  assumes "writer_step ops s s'" "writer s \<noteq> Idle \<or> capacity ops limit (shared s)" "staged_ok ops inv limit s"
  shows "staged_ok ops inv limit s'"
  using assms(1)
proof cases
  case (prepare k v r tx)
  then show ?thesis using prepare_staged [OF assms(3)] assms(2) by simp
next
  case (flush k v r tx tx')
  then show ?thesis using flush_staged [OF assms(3)] by simp
next
  case (gate k v r tx tx')
  then show ?thesis using gate_staged [OF assms(3)] by simp
next
  case (metadata k v r tx tx')
  then show ?thesis using metadata_staged [OF assms(3)] by simp
next
  case (publish k v r tx)
  then show ?thesis using publish_staged [OF assms(3)] by simp
qed

section \<open>Runs\<close>

lemma disciplined_step_ok:
  assumes "disciplined_step ops limit s s'" "staged_ok ops inv limit s"
  shows "staged_ok ops inv limit s' \<and> (abs_system s' = abs_system s \<or> spec_step (abs_system s) (abs_system s'))"
  using assms(1)
proof cases
  case disciplined_read
  then show ?thesis using read_step_staged [OF disciplined_read assms(2)] by blast
next
  case disciplined_write
  have "abs_system s' = abs_system s \<or> (\<exists>k v. abs_system s' = (abs_system s)\<lparr>kv := (kv (abs_system s))(k \<mapsto> v)\<rparr>)"
    using disciplined_write(1) by cases (auto simp: abs_system_def)
  then show ?thesis using writer_step_staged [OF disciplined_write assms(2)] spec_put [of "abs_system s"] by auto
qed

lemma disciplined_run_refines:
  assumes "(disciplined_step ops limit)\<^sup>*\<^sup>* s s'" "staged_ok ops inv limit s"
  shows "spec_step\<^sup>*\<^sup>* (abs_system s) (abs_system s') \<and> staged_ok ops inv limit s'"
  using assms
proof (induction rule: rtranclp_induct)
  case base
  then show ?case by simp
next
  case (step s' s'')
  then have IH: "spec_step\<^sup>*\<^sup>* (abs_system s) (abs_system s')" "staged_ok ops inv limit s'" by simp_all
  from disciplined_step_ok [OF step.hyps(2) IH(2)] IH(1) show ?case
    by (metis rtranclp.rtrancl_into_rtrancl)
qed

text \<open>The writer is never stuck: in the middle of a commit its own steps lead to the publication.\<close>

lemma writer_step_exists:
  assumes s: "staged_ok ops inv limit s" and busy: "writer s \<noteq> Idle"
  shows "\<exists>s'. writer_step ops s s'"
proof -
  obtain h t st where st: "store_ok ops inv h t st" and w: "writer_ok ops limit h t st (shared s) (pcs s) (writer s)"
    by (rule staged_okE [OF s]) (rule that; assumption)
  show ?thesis
  proof (cases "writer s")
    case (Prepared k v r tx)
    then have tx: "to_commit ops limit h t st k v r tx" "same_store (shared s) (txn_store tx)" using w by simp_all
    obtain tx1 where "flush_writes ops (with_readers (readers (shared s)) tx) = Some tx1"
      by (rule stages_ok [OF st tx(1)])
    then show ?thesis using writer_step.flush [OF Prepared] on_shared_same [OF tx(2)] by metis
  next
    case (Gated k v r tx)
    then obtain tx0 tx1 n where tx: "to_commit ops limit h t st k v r tx0" "flush_writes ops (with_readers n tx0) = Some tx1"
      "tx = promote_pending tx1" "same_store (shared s) (txn_store tx)" using w by auto
    obtain tx2 where "commit_metadata ops tx r = Some tx2"
      by (rule stages_ok [OF st tx(1), of n]) (use tx(2,3) in simp)
    then have "commit_metadata ops (on_shared (shared s) tx) r = Some (with_readers (readers (shared s)) tx2)"
      by (simp add: on_shared_same [OF tx(4)] commit_metadata_readers)
    then show ?thesis using writer_step.metadata [OF Gated] by blast
  qed (use busy writer_step.gate [OF _ refl] writer_step.publish in blast)+
qed

end

text \<open>An in-memory engine with a put under way.\<close>

lemma memory_writer_inside:
  obtains st s where "engine_in_memory 64 = Some st" "staged_ok memory_ops memory_inv (\<lambda>_. 2 ^ 64) (start st)"
    "disciplined_step memory_ops (\<lambda>_. 2 ^ 64) (start st) s" "\<exists>k v r tx. writer s = Prepared k v r tx"
proof -
  obtain st where st: "engine_in_memory 64 = Some st" "store_ok memory_ops memory_inv 0 (CLeaf 1 []) st"
    "capacity memory_ops (\<lambda>_. 2 ^ 64) st" "page_size memory_ops (store_io st) = 64" "readers st = 0"
    by (rule memory_ready)
  have kv: "length ([1] :: key) + length ([2] :: val) \<le> max_kv_size (page_size memory_ops (store_io st))"
    unfolding st(4) by (simp add: max_kv_size_def INTERNAL_HEADER_def)
  obtain tx t' where put: "put_prepared memory_ops (begin_write st) [1] [2] = Some (tid t', tx)"
    by (rule store_put_prepared [OF st(2) kv put_reach_of_capacity(1) [OF st(2,3)]])
  have idle: "writer (start st) = Idle" "shared (start st) = st" by (simp_all add: start_def)
  have "writer_step memory_ops (start st)
      ((start st)\<lparr>shared := txn_store tx, writer := Prepared [1] [2] (tid t') tx\<rparr>)"
    using idle kv put by (intro writer_step.prepare) simp_all
  then have "disciplined_step memory_ops (\<lambda>_. 2 ^ 64) (start st)
      ((start st)\<lparr>shared := txn_store tx, writer := Prepared [1] [2] (tid t') tx\<rparr>)"
    using st(3) idle by (intro disciplined_step.disciplined_write) simp_all
  moreover have "staged_ok memory_ops memory_inv (\<lambda>_. 2 ^ 64) (start st)"
    using start_ok [OF st(2,5)] staged_idle [OF idle(1)] by blast
  ultimately show ?thesis using that [OF st(1)] by simp
qed

section \<open>Properties\<close>

text \<open>C5. Linearizability with the commit in stages: if no reader loads the root between the gate of a commit and
  the publication of the new root, then whatever else the readers do between the stages, the run is a
  run of the abstract store, and the invariant of the system holds in every state reached.\<close>

theorem disciplined_linearizable:
  assumes "page_backend ops ok lim" "staged_ok ops ok lim s" "(disciplined_step ops lim)\<^sup>*\<^sup>* s s'"
  shows "spec_step\<^sup>*\<^sup>* (abs_system s) (abs_system s') \<and> staged_ok ops ok lim s'"
  by (rule page_backend.disciplined_run_refines [OF assms(1,3,2)])

lemma disciplined_linearizable_witness:
  "\<exists>st s'. engine_in_memory 64 = Some st \<and> (disciplined_step memory_ops (\<lambda>_. 2 ^ 64))\<^sup>*\<^sup>* (start st) s' \<and>
     (\<exists>k v r tx. writer s' = Prepared k v r tx) \<and> spec_step\<^sup>*\<^sup>* (abs_system (start st)) (abs_system s')"
proof -
  obtain st s' where s: "engine_in_memory 64 = Some st" "staged_ok memory_ops memory_inv (\<lambda>_. 2 ^ 64) (start st)"
    "disciplined_step memory_ops (\<lambda>_. 2 ^ 64) (start st) s'" "\<exists>k v r tx. writer s' = Prepared k v r tx"
    by (rule memory_writer_inside)
  then have run: "(disciplined_step memory_ops (\<lambda>_. 2 ^ 64))\<^sup>*\<^sup>* (start st) s'" by blast
  show ?thesis using disciplined_linearizable [OF mem.page_backend_axioms s(2) run] s run by blast
qed

text \<open>A commit ends: in every state of the system with the commit in stages in which the writer is inside a
  commit, its next step is possible; no write, no page of the free list and no header can fail.\<close>

lemma commit_never_stuck:
  assumes "page_backend ops ok lim" "staged_ok ops ok lim s" "writer s \<noteq> Idle"
  shows "\<exists>s'. writer_step ops s s'"
  by (rule page_backend.writer_step_exists [OF assms])

lemma commit_never_stuck_witness:
  "\<exists>st s s'. engine_in_memory 64 = Some st \<and> disciplined_step memory_ops (\<lambda>_. 2 ^ 64) (start st) s \<and>
     writer s \<noteq> Idle \<and> writer_step memory_ops s s'"
proof -
  obtain st s where s: "engine_in_memory 64 = Some st" "staged_ok memory_ops memory_inv (\<lambda>_. 2 ^ 64) (start st)"
    "disciplined_step memory_ops (\<lambda>_. 2 ^ 64) (start st) s" "\<exists>k v r tx. writer s = Prepared k v r tx"
    by (rule memory_writer_inside)
  have ok: "staged_ok memory_ops memory_inv (\<lambda>_. 2 ^ 64) s" using mem.disciplined_step_ok [OF s(3,2)] by simp
  have busy: "writer s \<noteq> Idle" using s(4) by auto
  show ?thesis using commit_never_stuck [OF mem.page_backend_axioms ok busy] s(1,3) busy by blast
qed

end
