(* ===== verification/Racing.thy ===== *)
theory Racing
  imports Discipline
begin

text \<open>
  Every interleaving of readers with the stages of a commit, those included in which a reader loads the
  root between the gate and the publication: what the race can harm and what it cannot. It can harm the
  reader (\<open>Race\<close>); the store and the writer it cannot.
\<close>

section \<open>The runs\<close>

inductive racing_step :: "'io page_io \<Rightarrow> ('io \<Rightarrow> nat) \<Rightarrow> 'io system \<Rightarrow> 'io system \<Rightarrow> bool" for ops lim where
  racing_read: "read_step ops s s' \<Longrightarrow> racing_step ops lim s s'"
| racing_write: "writer_step ops s s' \<Longrightarrow> writer s \<noteq> Idle \<or> capacity ops lim (shared s) \<Longrightarrow> racing_step ops lim s s'"

text \<open>
  What the writer can see of the readers is their number. The system with readers that have entered
  and not gone on is the same to it.
\<close>

definition at_door :: "'io system \<Rightarrow> 'io system" where
  "at_door s = s\<lparr>pcs := \<lambda>i. if pcs s i = Outside then Outside else Entered []\<rparr>"

lemma at_door_simps [simp]:
  "shared (at_door s) = shared s" "writer (at_door s) = writer s" "published (at_door s) = published s"
  "snap (at_door s) = snap s" "active (pcs (at_door s)) = active (pcs s)"
  by (auto simp: at_door_def active_def)

lemma at_door_pc: "pcs (at_door s) i = Outside \<or> pcs (at_door s) i = Entered []"
  by (simp add: at_door_def)

lemma unrooted_at_door [simp]: "unrooted (pcs (at_door s))"
  using at_door_pc by (auto simp: unrooted_def)

lemma at_door_start [simp]: "at_door (start st) = start st"
  by (simp add: at_door_def start_def)

lemma reader_ok_at_door [simp]: "reader_ok ops P st m (pcs (at_door s) i)"
  using at_door_pc [of s i] by auto

text \<open>The readers cannot tell the writer's invariant apart.\<close>

lemma writer_ok_unrooted:
  "unrooted f \<Longrightarrow> unrooted f' \<Longrightarrow> writer_ok ops lim h t st sh f w = writer_ok ops lim h t st sh f' w"
  by (cases w) simp_all

lemma writer_step_at_door: "writer_step ops s s' \<Longrightarrow> writer_step ops (at_door s) (at_door s')"
proof (induction rule: writer_step.induct)
  case (prepare s k v r tx)
  with writer_step.prepare [of "at_door s" k v ops r tx] show ?case by (cases s) (simp add: at_door_def)
next
  case (flush s k v r tx tx')
  with writer_step.flush [of "at_door s" k v r tx ops tx'] show ?case by (cases s) (simp add: at_door_def)
next
  case (gate s k v r tx tx')
  with writer_step.gate [of "at_door s" k v r tx tx' ops] show ?case by (cases s) (simp add: at_door_def)
next
  case (metadata s k v r tx tx')
  with writer_step.metadata [of "at_door s" k v r tx ops tx'] show ?case by (cases s) (simp add: at_door_def)
next
  case (publish s k v r tx)
  with writer_step.publish [of "at_door s" k v r tx ops] show ?case by (cases s) (simp add: at_door_def)
qed

lemma staged_at_door:
  assumes "staged_ok ops io_ok lim s"
  shows "staged_ok ops io_ok lim (at_door s)"
proof -
  obtain h t st where st: "store_ok ops io_ok h t st" "map_of (contents t) = published s" "root (shared s) = root st"
    "\<And>j pg. j \<in> live_pages t st \<Longrightarrow> guard_read ops st j = Some pg \<Longrightarrow> guard_read ops (shared s) j = Some pg"
    "writer_ok ops lim h t st (shared s) (pcs s) (writer s)"
    by (rule staged_okE [OF assms]) (rule that; assumption)
  have "writer_ok ops lim h t st (shared s) (pcs (at_door s)) (writer s)"
    using st(5) by (cases "writer s") (simp, simp, simp, fastforce, fastforce)
  then show ?thesis
    using assms st unfolding staged_ok_def by (intro conjI exI [of _ h] exI [of _ t] exI [of _ st]) simp_all
qed

lemma read_step_at_door:
  assumes step: "read_step ops s s'" and s: "staged_ok ops io_ok lim (at_door s)"
  shows "staged_ok ops io_ok lim (at_door s')"
proof -
  obtain h t st where st: "store_ok ops io_ok h t st" "map_of (contents t) = published (at_door s)"
    "root (shared (at_door s)) = root st"
    "\<And>j pg. j \<in> live_pages t st \<Longrightarrow> guard_read ops st j = Some pg \<Longrightarrow> guard_read ops (shared (at_door s)) j = Some pg"
    "writer_ok ops lim h t st (shared (at_door s)) (pcs (at_door s)) (writer (at_door s))"
    by (rule staged_okE [OF s]) (rule that; assumption)
  obtain n where sh: "shared s' = (shared s)\<lparr>readers := n\<rparr>" "published s' = published s" "writer s' = writer s"
    using read_step_frame [OF step] by blast
  have "same_store (shared s') (shared s)" using sh(1) by (auto simp: same_store_def)
  then have "same_store (shared s) x \<Longrightarrow> same_store (shared s') x" for x by (rule same_store_trans)
  then have "writer_ok ops lim h t st (shared s') (pcs (at_door s')) (writer s')"
    using st(5) sh(3) by (cases "writer s") (simp, simp, simp, fastforce, fastforce)
  moreover have "finite (active (pcs s')) \<and> readers (shared s') = card (active (pcs s'))"
    using s by (intro read_step_count [OF step]) (simp_all add: staged_ok_def)
  ultimately show ?thesis
    using st(1-4) sh unfolding staged_ok_def by (intro conjI exI [of _ h] exI [of _ t] exI [of _ st]) simp_all
qed

context page_backend
begin

lemma racing_step_ok:
  assumes "racing_step ops limit s s'" "staged_ok ops inv limit (at_door s)"
  shows "staged_ok ops inv limit (at_door s')"
  using assms(1)
proof cases
  case racing_read
  then show ?thesis using read_step_at_door assms(2) by blast
next
  case racing_write
  then show ?thesis using writer_step_staged [OF writer_step_at_door [OF racing_write(1)] _ assms(2)] by simp
qed

lemma racing_run_ok:
  assumes "(racing_step ops limit)\<^sup>*\<^sup>* s s'" "staged_ok ops inv limit (at_door s)"
  shows "staged_ok ops inv limit (at_door s')"
  using assms by (induction rule: rtranclp_induct) (auto intro: racing_step_ok)

text \<open>A step of the writer is there for the readers inside as for those at the door.\<close>

lemma racing_writer_step:
  assumes "staged_ok ops inv limit (at_door s)" "writer s \<noteq> Idle"
  shows "\<exists>s'. writer_step ops s s'"
proof -
  obtain s1 where "writer_step ops (at_door s) s1" using writer_step_exists [OF assms(1)] assms(2) by auto
  then show ?thesis by cases (auto intro: writer_step.intros)
qed

end
text \<open>The steps a writer takes, one after the other, and what they leave to the readers.\<close>

lemma writer_step_pcs: "writer_step ops s s' \<Longrightarrow> pcs s' = pcs s"
  by (induction rule: writer_step.induct) simp_all

lemma writer_step_next:
  assumes "writer_step ops s s'"
  shows "writer s = Prepared k v r tx \<Longrightarrow> \<exists>tx'. writer s' = Flushed k v r tx'"
    "writer s = Flushed k v r tx \<Longrightarrow> \<exists>tx'. writer s' = Gated k v r tx'"
  using assms by (auto elim: writer_step.cases)

text \<open>An in-memory engine on which a reader has loaded the root inside a commit, after the gate.\<close>

lemma memory_race:
  obtains st s k where "engine_in_memory 64 = Some st" "staged_ok memory_ops memory_inv (\<lambda>_. 2 ^ 64) (start st)"
    "(racing_step memory_ops (\<lambda>_. 2 ^ 64))\<^sup>*\<^sup>* (start st) s" "committing (writer s)" "pcs s 0 = Rooted k (root (shared s))"
proof -
  let ?run = "(racing_step memory_ops (\<lambda>_. 2 ^ 64))\<^sup>*\<^sup>*"
  obtain st s1 where 1: "engine_in_memory 64 = Some st" "staged_ok memory_ops memory_inv (\<lambda>_. 2 ^ 64) (start st)"
    "disciplined_step memory_ops (\<lambda>_. 2 ^ 64) (start st) s1" "\<exists>k v r tx. writer s1 = Prepared k v r tx"
    by (rule memory_writer_inside)
  have w1: "writer_step memory_ops (start st) s1" and c: "writer (start st) \<noteq> Idle \<or> capacity memory_ops (\<lambda>_. 2 ^ 64) st"
    using 1(3,4) by (cases; auto simp: start_def dest: read_step_frame)+
  then have r1: "?run (start st) s1" by (intro r_into_rtranclp racing_write) (simp_all add: start_def)
  have ok: "staged_ok memory_ops memory_inv (\<lambda>_. 2 ^ 64) (at_door s)" if "?run (start st) s" for s
    using mem.racing_run_ok [OF that] 1(2) by simp
  obtain s2 where s2: "writer_step memory_ops s1 s2" "\<exists>k v r tx. writer s2 = Flushed k v r tx"
    using mem.racing_writer_step [OF ok [OF r1]] 1(4) writer_step_next(1) by (metis writer_pc.distinct(1))
  have r2: "?run (start st) s2" using r1 racing_write [OF s2(1)] 1(4) by (metis rtranclp.rtrancl_into_rtrancl writer_pc.distinct(1))
  obtain s3 where s3: "writer_step memory_ops s2 s3" "\<exists>k v r tx. writer s3 = Gated k v r tx"
    using mem.racing_writer_step [OF ok [OF r2]] s2(2) writer_step_next(2) by (metis writer_pc.distinct(3))
  have r3: "?run (start st) s3" using r2 racing_write [OF s3(1)] s2(2) by (metis rtranclp.rtrancl_into_rtrancl writer_pc.distinct(3))
  have "pcs s3 0 = Outside"
    using writer_step_pcs [OF w1] writer_step_pcs [OF s2(1)] writer_step_pcs [OF s3(1)] by (simp add: start_def)
  let ?s4 = "s3\<lparr>shared := enter_read (shared s3), pcs := (pcs s3)(0 := Entered [1])\<rparr>"
  let ?s5 = "?s4\<lparr>pcs := (pcs ?s4)(0 := Rooted [1] (root (shared ?s4))), snap := (snap ?s4)(0 := published ?s4)\<rparr>"
  have "racing_step memory_ops (\<lambda>_. 2 ^ 64) s3 ?s4"
    by (intro racing_read read_step.enter) fact
  moreover have "racing_step memory_ops (\<lambda>_. 2 ^ 64) ?s4 ?s5"
    by (intro racing_read read_step.load_root) simp
  ultimately have "?run (start st) ?s5" using r3 by (meson rtranclp.rtrancl_into_rtrancl)
  moreover have "committing (writer ?s5)" using s3(2) by auto
  ultimately show ?thesis by (intro that [OF 1(1,2), of ?s5 "[1]"]) simp_all
qed

section \<open>Properties\<close>

text \<open>C13. The race spares the data: in every interleaving of readers with the stages of commits, those included in
  which a reader loads the root between the gate and the publication, a commit under way can always take
  its next step; and whenever none is, the store satisfies its invariant, and a lookup of any key that is
  not overtaken gives what the finished puts have put for it.\<close>

theorem race_spares_store:
  assumes "page_backend ops ok lim" "staged_ok ops ok lim s" "(racing_step ops lim)\<^sup>*\<^sup>* s s'"
  shows "(writer s' = Idle \<longrightarrow> (\<exists>h t. store_ok ops ok h t (shared s') \<and> map_of (contents t) = published s') \<and>
      (\<forall>k. engine_get ops (shared s') k = Some (published s' k, shared s'))) \<and>
    (writer s' \<noteq> Idle \<longrightarrow> (\<exists>s''. writer_step ops s' s''))"
proof -
  have ok: "staged_ok ops ok lim (at_door s')"
    by (rule page_backend.racing_run_ok [OF assms(1,3) staged_at_door [OF assms(2)]])
  have "(\<exists>h t. store_ok ops ok h t (shared s') \<and> map_of (contents t) = published s') \<and>
      (\<forall>k. engine_get ops (shared s') k = Some (published s' k, shared s'))" if idle: "writer s' = Idle"
  proof -
    obtain h t where t: "store_ok ops ok h t (shared s')" "map_of (contents t) = published s'"
      using staged_idle [of "at_door s'" ops ok lim] ok idle unfolding system_ok_def at_door_simps by blast
    have "tree_ok ops h t (shared s')" using t(1) by (simp add: store_ok_def)
    then show ?thesis using t engine_get_ok by metis
  qed
  moreover have "\<exists>s''. writer_step ops s' s''" if "writer s' \<noteq> Idle"
    using page_backend.racing_writer_step [OF assms(1) ok that] .
  ultimately show ?thesis by blast
qed


lemma race_spares_store_witness:
  "\<exists>st s k. engine_in_memory 64 = Some st \<and> (racing_step memory_ops (\<lambda>_. 2 ^ 64))\<^sup>*\<^sup>* (start st) s \<and>
     pcs s 0 = Rooted k (root (shared s)) \<and> committing (writer s) \<and> (\<exists>s'. writer_step memory_ops s s')"
proof -
  obtain st s k where s: "engine_in_memory 64 = Some st" "staged_ok memory_ops memory_inv (\<lambda>_. 2 ^ 64) (start st)"
    "(racing_step memory_ops (\<lambda>_. 2 ^ 64))\<^sup>*\<^sup>* (start st) s" "committing (writer s)" "pcs s 0 = Rooted k (root (shared s))"
    by (rule memory_race)
  have busy: "writer s \<noteq> Idle" using s(4) by auto
  show ?thesis using race_spares_store [OF mem.page_backend_axioms s(2,3)] busy s by blast
qed

end
