(* ===== verification/Debug.thy ===== *)
theory Debug
  imports Engine_Correct
begin

text \<open>
  What the crate prints: the views of the tree of \<open>src/01-btree/src/debug/mod.rs\<close> with \<open>print_pretty\<close> of
  both nodes and the two print methods of the engine, the texts of the errors, and the demo
  program \<open>main.rs\<close>. A function that prints returns the lines it prints, as lists
  of Unicode code points; a panic is \<^term>\<open>None\<close>, whatever was printed before it.
\<close>

section \<open>Formatting\<close>

type_synonym line = "nat list"

definition str :: "string \<Rightarrow> line" where
  "str s = map of_char s"

text \<open>The formats \<open>{}\<close> and \<open>{:x}\<close> of an unsigned integer, with padding on the left to a width.\<close>

definition digit :: "nat \<Rightarrow> nat" where
  "digit d = (if d < 10 then 48 + d else 87 + d)"

fun in_base :: "nat \<Rightarrow> nat \<Rightarrow> line" where
  "in_base b n = (if n < b \<or> b < 2 then [digit n] else in_base b (n div b) @ [digit (n mod b)])"

declare in_base.simps [simp del]

definition dec :: "nat \<Rightarrow> line" where
  "dec n = in_base 10 n"

definition hex :: "nat \<Rightarrow> nat \<Rightarrow> line" where
  "hex w n = replicate (w - length (in_base 16 n)) 48 @ in_base 16 n"

text \<open>
  \<open>String::from_utf8_lossy\<close>: the bytes are decoded as UTF-8, and each maximal prefix of a well-formed
  sequence that does not go on becomes one replacement character.
\<close>

fun utf8_width :: "nat \<Rightarrow> nat" where
  "utf8_width b = (if 0xC2 \<le> b \<and> b \<le> 0xDF then 2 else if 0xE0 \<le> b \<and> b \<le> 0xEF then 3
     else if 0xF0 \<le> b \<and> b \<le> 0xF4 then 4 else 0)"

definition continuation :: "nat \<Rightarrow> bool" where
  "continuation c \<longleftrightarrow> 0x80 \<le> c \<and> c \<le> 0xBF"

definition second_ok :: "nat \<Rightarrow> nat \<Rightarrow> bool" where
  "second_ok b c \<longleftrightarrow> continuation c \<and> (b = 0xE0 \<longrightarrow> 0xA0 \<le> c) \<and> (b = 0xED \<longrightarrow> c \<le> 0x9F) \<and>
     (b = 0xF0 \<longrightarrow> 0x90 \<le> c) \<and> (b = 0xF4 \<longrightarrow> c \<le> 0x8F)"

text \<open>How many of the bytes after a leading byte continue its sequence.\<close>

definition utf8_tail :: "nat \<Rightarrow> nat list \<Rightarrow> nat" where
  "utf8_tail b cs =
     (case take (utf8_width b - 1) cs of
        [] \<Rightarrow> 0
      | c # ds \<Rightarrow> if second_ok b c then 1 + length (takeWhile continuation ds) else 0)"

definition utf8_char :: "nat \<Rightarrow> nat list \<Rightarrow> nat" where
  "utf8_char b cs = fold (\<lambda>c n. n * 64 + c mod 64) cs (b mod 2 ^ (7 - utf8_width b))"

function from_utf8_lossy :: "nat list \<Rightarrow> line" where
  "from_utf8_lossy [] = []"
| "from_utf8_lossy (b # bs) =
     (if b < 0x80 then b # from_utf8_lossy bs
      else let n = utf8_tail b bs
           in (if 0 < utf8_width b \<and> n = utf8_width b - 1 then utf8_char b (take n bs) else 0xFFFD)
              # from_utf8_lossy (drop n bs))"
  by pat_completeness auto
termination by (relation "measure length") auto

text \<open>
  The format \<open>{:?}\<close> of a string. \<open>printable\<close> says which characters beyond ASCII the Unicode tables of
  the standard library let through unescaped.
\<close>

definition escape_char :: "(nat \<Rightarrow> bool) \<Rightarrow> nat \<Rightarrow> line" where
  "escape_char printable c =
     (if c = 0 then 92 # str ''0'' else if c = 9 then 92 # str ''t'' else if c = 13 then 92 # str ''r''
      else if c = 10 then 92 # str ''n'' else if c = 34 then [92, 34] else if c = 92 then [92, 92]
      else if 0x20 \<le> c \<and> c < 0x7F \<or> 0x80 \<le> c \<and> printable c then [c]
      else 92 # str ''u{'' @ in_base 16 c @ str ''}'')"

definition lossy :: "(nat \<Rightarrow> bool) \<Rightarrow> bytes \<Rightarrow> line" where
  "lossy printable bs = [34] @ concat (map (escape_char printable) (from_utf8_lossy (map unat bs))) @ [34]"

fun separated :: "line \<Rightarrow> line list \<Rightarrow> line" where
  "separated sep [] = []"
| "separated sep [x] = x"
| "separated sep (x # xs) = x @ sep @ separated sep xs"

section \<open>The nodes\<close>

text \<open>A line \<open>name: [a..b)  nB\<close> of the layout.\<close>

definition span :: "string \<Rightarrow> nat \<Rightarrow> nat \<Rightarrow> line option" where
  "span name a b =
     do { n \<leftarrow> usize_sub b a;
          Some (str name @ str ''['' @ dec a @ str ''..'' @ dec b @ str '')  '' @ dec n @ str ''B'') }"

fun leaf_print_entries :: "(nat \<Rightarrow> bool) \<Rightarrow> leaf_node \<Rightarrow> u16 list \<Rightarrow> line list option" where
  "leaf_print_entries printable l [] = Some []"
| "leaf_print_entries printable l (i # is) =
     do { k \<leftarrow> leaf_get_key l i;
          v \<leftarrow> leaf_get_val l i;
          rest \<leftarrow> leaf_print_entries printable l is;
          Some ((str ''  |  ['' @ dec (unat i) @ str ''] key='' @ lossy printable k @ str '' -> val='' @
                 lossy printable v) # rest) }"

definition leaf_print_pretty :: "(nat \<Rightarrow> bool) \<Rightarrow> leaf_node \<Rightarrow> nat \<Rightarrow> line list option" where
  "leaf_print_pretty printable l ps =
     do { let header_end = unat LEAF_HEADER;
          let entries_end = header_end + length (entries l);
          nk \<leftarrow> leaf_nkeys l;
          a \<leftarrow> span ''    header:  '' 0 header_end;
          b \<leftarrow> span ''    entries: '' header_end entries_end;
          c \<leftarrow> span ''    unused:  '' entries_end ps;
          es \<leftarrow> leaf_print_entries printable l (u16_range 0 nk);
          Some ((str ''  type=LEAF id='' @ dec (unat (leaf_id l)) @ str '' nkeys='' @ dec (unat nk) @
                 str '' used='' @ dec (leaf_nbytes l) @ str ''B/'' @ dec ps @ str ''B'') # a # b # c # es) }"

fun internal_print_keys :: "(nat \<Rightarrow> bool) \<Rightarrow> internal_node \<Rightarrow> u16 list \<Rightarrow> line list option" where
  "internal_print_keys printable n [] = Some []"
| "internal_print_keys printable n (i # is) =
     do { k \<leftarrow> internal_get_key n i;
          rest \<leftarrow> internal_print_keys printable n is;
          Some ((str ''  |  ['' @ dec (unat i) @ str ''] key='' @ lossy printable k) # rest) }"

fun internal_collect_children :: "internal_node \<Rightarrow> u16 list \<Rightarrow> page_id list option" where
  "internal_collect_children n [] = Some []"
| "internal_collect_children n (i # is) =
     do { c \<leftarrow> internal_get_child n i; cs \<leftarrow> internal_collect_children n is; Some (c # cs) }"

definition internal_print_pretty :: "(nat \<Rightarrow> bool) \<Rightarrow> internal_node \<Rightarrow> nat \<Rightarrow> line list option" where
  "internal_print_pretty printable n ps =
     do { let header_end = unat INTERNAL_HEADER;
          let keys_end = header_end + length (keys n);
          let children_end = keys_end + 8 * length (children n);
          nk \<leftarrow> internal_nkeys n;
          nc \<leftarrow> internal_nchildren n;
          a \<leftarrow> span ''    header:   '' 0 header_end;
          b \<leftarrow> span ''    keys:     '' header_end keys_end;
          c \<leftarrow> span ''    children: '' keys_end children_end;
          d \<leftarrow> span ''    unused:   '' children_end ps;
          ks \<leftarrow> internal_print_keys printable n (u16_range 0 nk);
          cs \<leftarrow> internal_collect_children n (u16_range 0 nc);
          Some ((str ''  type=INTERNAL id='' @ dec (unat (internal_id n)) @ str '' nkeys='' @ dec (unat nk) @
                 str '' nchildren='' @ dec (unat nc) @ str '' used='' @ dec (internal_nbytes n) @ str ''B/'' @
                 dec ps @ str ''B'') # a # b # c # d # ks @
                [str ''  `- children: ['' @ separated (str '', '') (map (\<lambda>c. dec (unat c)) cs) @ str '']'']) }"

section \<open>The raw dump\<close>

fun chunks :: "nat \<Rightarrow> 'a list \<Rightarrow> 'a list list" where
  "chunks n xs = (if xs = [] \<or> n = 0 then [] else take n xs # chunks n (drop n xs))"

declare chunks.simps [simp del]

definition raw_line :: "nat \<Rightarrow> bytes \<Rightarrow> line" where
  "raw_line i part =
     (let hx = concat (map (\<lambda>b. hex 2 (unat b) @ str '' '') part);
          ascii = map (\<lambda>b. if 0x20 \<le> unat b \<and> unat b \<le> 0x7E then unat b else 46) part
      in str ''  '' @ hex 6 (i * 16) @ str ''  '' @ hx @ replicate (48 - length hx) 32 @ str ''|'' @ ascii @ str ''|'')"

definition print_raw :: "bytes \<Rightarrow> line list" where
  "print_raw bs = map (\<lambda>(i, part). raw_line i part) (enumerate 0 (chunks 16 bs))"

section \<open>The walk\<close>

text \<open>A loop whose body prints.\<close>

fun for_each :: "('a \<Rightarrow> line list option) \<Rightarrow> 'a list \<Rightarrow> line list option" where
  "for_each f [] = Some []"
| "for_each f (x # xs) = do { a \<leftarrow> f x; b \<leftarrow> for_each f xs; Some (a @ b) }"

lemma for_each_cong [fundef_cong]:
  "xs = ys \<Longrightarrow> (\<And>x. x \<in> set ys \<Longrightarrow> f x = g x) \<Longrightarrow> for_each f xs = for_each g ys"
  by (induction ys arbitrary: xs) auto

lemma for_each_mono [partial_function_mono]:
  assumes "\<And>x. mono_option (\<lambda>f. B x f)"
  shows "mono_option (\<lambda>f. for_each (\<lambda>x. B x f) xs)"
proof (induction xs)
  case Nil
  show ?case by (simp add: option.const_mono)
next
  case (Cons x xs)
  show ?case by (simp add: bind_mono assms Cons.IH option.const_mono)
qed

definition print_page :: "(nat \<Rightarrow> bool) \<Rightarrow> page \<Rightarrow> page_id \<Rightarrow> nat \<Rightarrow> bool \<Rightarrow> line list option" where
  "print_page printable pg i ps raw =
     (if raw then map_option print_raw (page_to_bytes pg i ps)
      else case pg of Leaf l \<Rightarrow> leaf_print_pretty printable l ps
                    | Internal n \<Rightarrow> internal_print_pretty printable n ps)"

definition banner :: "page_id \<Rightarrow> nat \<Rightarrow> line" where
  "banner i depth = concat (replicate depth (str ''  '')) @ str ''================ page '' @ dec (unat i) @
     str '' (depth '' @ dec depth @ str '') ================''"

partial_function (option) walk ::
    "(nat \<Rightarrow> bool) \<Rightarrow> 'io page_io \<Rightarrow> 'io store \<Rightarrow> page_id \<Rightarrow> nat \<Rightarrow> bool \<Rightarrow> line list option" where
  "walk printable ops st i depth raw =
     do { pg \<leftarrow> guard_read ops st i;
          body \<leftarrow> print_page printable pg i (page_size ops (store_io st)) raw;
          below \<leftarrow> (case pg of
                      Leaf l \<Rightarrow> Some []
                    | Internal n \<Rightarrow>
                        do { nk \<leftarrow> internal_nkeys n;
                             for_each (\<lambda>idx. do { c \<leftarrow> internal_get_child n idx;
                                                  walk printable ops st c (depth + 1) raw })
                               (u16_range_incl 0 nk) });
          Some (banner i depth # body @ below) }"

definition print_tree :: "(nat \<Rightarrow> bool) \<Rightarrow> 'io page_io \<Rightarrow> 'io store \<Rightarrow> line list option" where
  "print_tree printable ops st =
     do { ls \<leftarrow> walk printable ops st (root st) 0 False;
          Some ((str ''========== TREE (root='' @ dec (unat (root st)) @ str '') =========='') # ls @ [[]]) }"

definition print_bytes :: "(nat \<Rightarrow> bool) \<Rightarrow> 'io page_io \<Rightarrow> 'io store \<Rightarrow> line list option" where
  "print_bytes printable ops st =
     do { ls \<leftarrow> walk printable ops st (root st) 0 True;
          Some ((str ''========== TREE BYTES (root='' @ dec (unat (root st)) @ str '') =========='') # ls) }"

definition engine_print_tree ::
    "(nat \<Rightarrow> bool) \<Rightarrow> 'io page_io \<Rightarrow> 'io store \<Rightarrow> (line list \<times> 'io store) option" where
  "engine_print_tree printable ops st =
     do { let view = enter_read st; ls \<leftarrow> print_tree printable ops view; Some (ls, drop_read view) }"

definition engine_print_bytes ::
    "(nat \<Rightarrow> bool) \<Rightarrow> 'io page_io \<Rightarrow> 'io store \<Rightarrow> (line list \<times> 'io store) option" where
  "engine_print_bytes printable ops st =
     do { let view = enter_read st; ls \<leftarrow> print_bytes printable ops view; Some (ls, drop_read view) }"


section \<open>The texts of the errors\<close>

text \<open>The \<open>Display\<close> of the three error types, and the conversions that \<open>?\<close> uses in \<open>open\<close>.\<close>

fun page_error_text :: "page_error \<Rightarrow> line" where
  "page_error_text (EntryTooLarge len mx) =
     str ''key+value size '' @ dec len @ str '' exceeds the per-entry maximum of '' @ dec mx @ str '' for this page size''"

fun store_open_error_text :: "store_open_error \<Rightarrow> line" where
  "store_open_error_text (PageSizeMismatch requested persisted) =
     str ''requested page size '' @ dec requested @ str '' doesn'' @ [39] @ str ''t match this store'' @ [39] @
     str ''s page size '' @ dec persisted"
| "store_open_error_text (StoreVersionMismatch found expected) =
     str ''file format version '' @ dec (unat found) @ str '' is incompatible with this build'' @ [39] @
     str ''s version '' @ dec (unat expected)"

fun engine_open_error_text :: "('e \<Rightarrow> line) \<Rightarrow> 'e engine_open_error \<Rightarrow> line" where
  "engine_open_error_text io_text (Io e) = io_text e"
| "engine_open_error_text io_text (StoreError e) = store_open_error_text e"

section \<open>The demo program\<close>

definition bytes_of :: "string \<Rightarrow> bytes" where
  "bytes_of s = map of_char s"

definition option_text :: "('a \<Rightarrow> line) \<Rightarrow> 'a option \<Rightarrow> line" where
  "option_text f v = (case v of None \<Rightarrow> str ''None'' | Some x \<Rightarrow> str ''Some('' @ f x @ str '')'')"

definition bytes_text :: "bytes \<Rightarrow> line" where
  "bytes_text bs = str ''['' @ separated (str '', '') (map (\<lambda>b. dec (unat b)) bs) @ str '']''"

text \<open>\<open>file\<close> is what the file of the demo holds before, \<open>path\<close> its displayed name.\<close>

definition demo ::
    "(nat \<Rightarrow> bool) \<Rightarrow> (os_call \<Rightarrow> 'e option) \<Rightarrow> nat \<Rightarrow> bytes \<Rightarrow> line \<Rightarrow> (line list \<times> mmap_page_io store) option"
where
  "demo printable os disk file path =
     do { r \<leftarrow> engine_open os disk file 4096;
          case r of
            Inl e \<Rightarrow> None
          | Inr st0 \<Rightarrow>
              do { p1 \<leftarrow> engine_put mmap_ops st0 (bytes_of ''hello'') (bytes_of ''world'');
                   assert_that (fst p1 = Inr ());
                   p2 \<leftarrow> engine_put mmap_ops (snd p1) (bytes_of ''foo'') (bytes_of ''bar'');
                   assert_that (fst p2 = Inr ());
                   g1 \<leftarrow> engine_get mmap_ops (snd p2) (bytes_of ''hello'');
                   g2 \<leftarrow> engine_get mmap_ops (snd g1) (bytes_of ''foo'');
                   g3 \<leftarrow> engine_get mmap_ops (snd g2) (bytes_of ''missing'');
                   Some ([str ''hello -> '' @ option_text (lossy printable) (fst g1),
                          str ''foo -> '' @ option_text (lossy printable) (fst g2),
                          str ''missing -> '' @ option_text bytes_text (fst g3),
                          str ''(persisted at '' @ path @ str '')''], snd g3) } }"

section \<open>What is printed for a tree\<close>

text \<open>The same lines from the abstract nodes and the abstract tree.\<close>

definition layout :: "string \<Rightarrow> nat \<Rightarrow> nat \<Rightarrow> line" where
  "layout name a b = str name @ str ''['' @ dec a @ str ''..'' @ dec b @ str '')  '' @ dec (b - a) @ str ''B''"

lemma span_layout: "a \<le> b \<Longrightarrow> span name a b = Some (layout name a b)"
  by (simp add: span_def layout_def)

definition entry_line :: "(nat \<Rightarrow> bool) \<Rightarrow> nat \<times> key \<times> val \<Rightarrow> line" where
  "entry_line printable e = str ''  |  ['' @ dec (fst e) @ str ''] key='' @ lossy printable (fst (snd e)) @
     str '' -> val='' @ lossy printable (snd (snd e))"

definition key_line :: "(nat \<Rightarrow> bool) \<Rightarrow> nat \<times> key \<Rightarrow> line" where
  "key_line printable e = str ''  |  ['' @ dec (fst e) @ str ''] key='' @ lossy printable (snd e)"

fun node_lines :: "(nat \<Rightarrow> bool) \<Rightarrow> nat \<Rightarrow> page_id \<Rightarrow> node \<Rightarrow> line list" where
  "node_lines printable ps i (LeafN kvs) =
     (let used = 11 + length (enc_entries kvs)
      in [str ''  type=LEAF id='' @ dec (unat i) @ str '' nkeys='' @ dec (length kvs) @ str '' used='' @ dec used @
            str ''B/'' @ dec ps @ str ''B'',
          layout ''    header:  '' 0 11, layout ''    entries: '' 11 used, layout ''    unused:  '' used ps]
         @ map (entry_line printable) (enumerate 0 kvs))"
| "node_lines printable ps i (InternalN ks cs) =
     (let keys_end = 11 + length (enc_keys ks); used = keys_end + 8 * length cs
      in [str ''  type=INTERNAL id='' @ dec (unat i) @ str '' nkeys='' @ dec (length ks) @ str '' nchildren='' @
            dec (length cs) @ str '' used='' @ dec used @ str ''B/'' @ dec ps @ str ''B'',
          layout ''    header:   '' 0 11, layout ''    keys:     '' 11 keys_end,
          layout ''    children: '' keys_end used, layout ''    unused:   '' used ps]
         @ map (key_line printable) (enumerate 0 ks)
         @ [str ''  `- children: ['' @ separated (str '', '') (map (\<lambda>c. dec (unat c)) cs) @ str '']''])"

fun node_image :: "nat \<Rightarrow> page_id \<Rightarrow> node \<Rightarrow> bytes" where
  "node_image ps i (LeafN kvs) = leaf_image i kvs @ replicate (ps - 11 - length (enc_entries kvs)) 0"
| "node_image ps i (InternalN ks cs) =
     internal_image i ks cs @ replicate (ps - (11 + length (enc_keys ks) + 8 * length cs)) 0"

definition page_lines :: "(nat \<Rightarrow> bool) \<Rightarrow> nat \<Rightarrow> bool \<Rightarrow> page_id \<Rightarrow> node \<Rightarrow> line list" where
  "page_lines printable ps raw i nd = (if raw then print_raw (node_image ps i nd) else node_lines printable ps i nd)"

fun listing :: "(nat \<Rightarrow> bool) \<Rightarrow> nat \<Rightarrow> bool \<Rightarrow> nat \<Rightarrow> ctree \<Rightarrow> line list" where
  "listing printable ps raw depth (CLeaf i kvs) =
     banner i depth # page_lines printable ps raw i (LeafN kvs)"
| "listing printable ps raw depth (CNode i ks ts) =
     banner i depth # page_lines printable ps raw i (InternalN ks (map tid ts)) @
       concat (map (listing printable ps raw (depth + 1)) ts)"

lemma leaf_print_entries_mk:
  assumes "leaf_small kvs"
  shows "a \<le> length kvs \<Longrightarrow> leaf_print_entries printable (mk_leaf i kvs) (map as_u16 [a..<length kvs]) =
    Some (map (entry_line printable) (enumerate a (drop a kvs)))"
proof (induction "length kvs - a" arbitrary: a)
  case 0
  then show ?case by simp
next
  case (Suc n)
  then have a: "a < length kvs" by simp
  then have "a < 65536" using leaf_small_length [OF assms] by simp
  moreover have "drop a kvs = kvs ! a # drop (Suc a) kvs" using a by (simp add: Cons_nth_drop_Suc)
  ultimately show ?case
    using Suc a assms
    by (simp add: upt_conv_Cons leaf_get_key_mk leaf_get_val_mk entry_line_def unat_as_u16 del: upt_Suc)
qed

lemma internal_print_keys_mk:
  assumes "keys_small ks"
  shows "a \<le> length ks \<Longrightarrow> internal_print_keys printable (mk_internal i ks cs) (map as_u16 [a..<length ks]) =
    Some (map (key_line printable) (enumerate a (drop a ks)))"
proof (induction "length ks - a" arbitrary: a)
  case 0
  then show ?case by simp
next
  case (Suc n)
  then have a: "a < length ks" by simp
  then have "a < 65536" using keys_small_length [OF assms] by simp
  moreover have "drop a ks = ks ! a # drop (Suc a) ks" using a by (simp add: Cons_nth_drop_Suc)
  ultimately show ?case
    using Suc a assms
    by (simp add: upt_conv_Cons internal_get_key_mk key_line_def unat_as_u16 del: upt_Suc)
qed

lemma internal_collect_children_mk:
  assumes "length cs < 65536"
  shows "a \<le> length cs \<Longrightarrow> internal_collect_children (mk_internal i ks cs) (map as_u16 [a..<length cs]) = Some (drop a cs)"
proof (induction "length cs - a" arbitrary: a)
  case 0
  then show ?case by simp
next
  case (Suc n)
  then have a: "a < length cs" by simp
  then have "drop a cs = cs ! a # drop (Suc a) cs" by (simp add: Cons_nth_drop_Suc)
  then show ?case
    using Suc a assms by (simp add: upt_conv_Cons internal_get_child_mk del: upt_Suc)
qed

lemma u16_range_0: "n < 65536 \<Longrightarrow> u16_range 0 (as_u16 n) = map as_u16 [0..<n]"
  using u16_range_as [of 0 n] by simp

lemma print_page_mk:
  assumes "node_fits ps nd"
  shows "print_page printable (mk_page i nd) i ps raw = Some (page_lines printable ps raw i nd)"
proof (cases nd)
  case (LeafN kvs)
  then have fits: "leaf_small kvs" "11 + length (enc_entries kvs) \<le> ps" using assms by simp_all
  have n: "length kvs < 65536" by (rule leaf_small_length [OF fits(1)])
  show ?thesis
    using fits n leaf_print_entries_mk [OF fits(1), of 0 printable i]
    by (simp add: print_page_def page_lines_def LeafN leaf_to_bytes_image leaf_print_pretty_def leaf_nkeys_mk Let_def
        span_layout LEAF_HEADER_def u16_range_0 unat_as_u16 leaf_nbytes_mk)
next
  case (InternalN ks cs)
  then have fits: "keys_small ks" "length cs = Suc (length ks)" "11 + length (enc_keys ks) + 8 * length cs \<le> ps"
    using assms by simp_all
  have n: "length ks < 65536" "length cs < 65536" using keys_small_length [OF fits(1)] fits(2) by simp_all
  show ?thesis
    using fits n internal_print_keys_mk [OF fits(1), of 0 printable i cs] internal_collect_children_mk [OF n(2), of 0 i ks]
    by (simp add: print_page_def page_lines_def InternalN internal_to_bytes_image internal_print_pretty_def
        internal_nkeys_mk internal_nchildren_mk Let_def span_layout INTERNAL_HEADER_def u16_range_0 unat_as_u16
        internal_nbytes_mk del: upt_Suc)
qed

lemma for_each_Some:
  "(\<And>x. x \<in> set xs \<Longrightarrow> f x = Some (g x)) \<Longrightarrow> for_each f xs = Some (concat (map g xs))"
  by (induction xs) simp_all

lemma for_each_map: "for_each f (map h xs) = for_each (\<lambda>x. f (h x)) xs"
  by (induction xs) simp_all

lemma walk_listing:
  "rep (guard_read ops st) t \<Longrightarrow> sized (page_size ops (store_io st)) t \<Longrightarrow>
    walk printable ops st (tid t) depth raw = Some (listing printable (page_size ops (store_io st)) raw depth t)"
proof (induction t arbitrary: depth)
  case (CLeaf i kvs)
  then have "print_page printable (Leaf (mk_leaf i kvs)) i (page_size ops (store_io st)) raw =
      Some (page_lines printable (page_size ops (store_io st)) raw i (LeafN kvs))"
    using print_page_mk [of "page_size ops (store_io st)" "LeafN kvs" printable i raw] by simp
  then show ?case using CLeaf by (subst walk.simps) simp
next
  case (CNode i ks ts)
  let ?ps = "page_size ops (store_io st)"
  have fits: "keys_small ks" "length ts = Suc (length ks)" using CNode.prems by simp_all
  have n: "length ts < 65536" using keys_small_length [OF fits(1)] fits(2) by simp
  have body: "print_page printable (Internal (mk_internal i ks (map tid ts))) i ?ps raw =
      Some (page_lines printable ?ps raw i (InternalN ks (map tid ts)))"
    using CNode.prems print_page_mk [of ?ps "InternalN ks (map tid ts)" printable i raw] by simp
  have idx: "u16_range_incl 0 (as_u16 (length ks)) = map as_u16 [0..<length ts]"
    using n fits(2) by (simp add: u16_range_incl_def unat_as_u16)
  have kid: "internal_get_child (mk_internal i ks (map tid ts)) (as_u16 j) = Some (tid (ts ! j))" if "j < length ts" for j
    using that n internal_get_child_mk [of j "map tid ts" i ks] by simp
  have rec: "walk printable ops st (tid (ts ! j)) (depth + 1) raw = Some (listing printable ?ps raw (depth + 1) (ts ! j))"
    if "j < length ts" for j
    using that CNode by (intro CNode.IH) simp_all
  have "for_each (\<lambda>idx. do { c \<leftarrow> internal_get_child (mk_internal i ks (map tid ts)) idx;
                             walk printable ops st c (depth + 1) raw }) (map as_u16 [0..<length ts]) =
      Some (concat (map (\<lambda>j. listing printable ?ps raw (depth + 1) (ts ! j)) [0..<length ts]))"
    unfolding for_each_map
    using kid rec by (intro for_each_Some) simp
  also have "map (\<lambda>j. listing printable ?ps raw (depth + 1) (ts ! j)) [0..<length ts] =
      map (listing printable ?ps raw (depth + 1)) ts"
    by (rule nth_equalityI) simp_all
  finally have loop: "for_each (\<lambda>idx. do { c \<leftarrow> internal_get_child (mk_internal i ks (map tid ts)) idx;
                             walk printable ops st c (depth + 1) raw }) (map as_u16 [0..<length ts]) =
      Some (concat (map (listing printable ?ps raw (depth + 1)) ts))" .
  have "guard_read ops st i = Some (Internal (mk_internal i ks (map tid ts)))" using CNode.prems by simp
  then show ?case
    by (subst walk.simps) (simp only: tid.simps body bind.bind_lunit page.case internal_nkeys_mk idx loop listing.simps)
qed

lemma guard_read_enter: "guard_read ops (enter_read st) = guard_read ops st"
  by (rule guard_read_cong) (simp add: enter_read_def)

lemma walk_root:
  assumes "tree_ok ops h t st"
  shows "walk printable ops (enter_read st) (root st) 0 raw =
    Some (listing printable (page_size ops (store_io st)) raw 0 t)"
  using walk_listing [of ops "enter_read st" t printable 0 raw] assms
  by (simp add: tree_ok_def guard_read_enter) (simp add: enter_read_def)

lemma engine_print_tree_ok:
  assumes "tree_ok ops h t st"
  shows "engine_print_tree printable ops st =
    Some ((str ''========== TREE (root='' @ dec (unat (root st)) @ str '') =========='')
          # listing printable (page_size ops (store_io st)) False 0 t @ [[]], st)"
  using walk_root [OF assms]
  by (simp add: engine_print_tree_def print_tree_def Let_def) (simp add: enter_read_def drop_read_def)

lemma engine_print_bytes_ok:
  assumes "tree_ok ops h t st"
  shows "engine_print_bytes printable ops st =
    Some ((str ''========== TREE BYTES (root='' @ dec (unat (root st)) @ str '') =========='')
          # listing printable (page_size ops (store_io st)) True 0 t, st)"
  using walk_root [OF assms]
  by (simp add: engine_print_bytes_def print_bytes_def Let_def) (simp add: enter_read_def drop_read_def)


lemma chunks_eq: "0 < n \<Longrightarrow> chunks n xs = map (\<lambda>i. take n (drop (n * i) xs)) [0..<(length xs + n - 1) div n]"
proof (induction n xs rule: chunks.induct)
  case (1 n xs)
  show ?case
  proof (cases "xs = []")
    case True
    then show ?thesis using 1(2) by (simp add: chunks.simps)
  next
    case False
    let ?m = "(length (drop n xs) + n - 1) div n"
    have m: "(length xs + n - 1) div n = Suc ?m"
    proof -
      have "n \<le> length xs + n - 1" using False by (cases xs) simp_all
      then have "(length xs + n - 1) div n = Suc ((length xs + n - 1 - n) div n)" using 1(2) by (simp add: le_div_geq)
      moreover have "(length xs + n - 1 - n) div n = ?m"
      proof (cases "length xs < n")
        case True
        then have "length xs + n - 1 - n < n" "length (drop n xs) + n - 1 < n" using 1(2) by simp_all
        then show ?thesis by simp
      next
        case ge: False
        then have "length xs + n - 1 - n = length (drop n xs) + n - 1" by simp
        then show ?thesis by (rule arg_cong)
      qed
      ultimately show ?thesis by simp
    qed
    have "chunks n xs = take n xs # chunks n (drop n xs)" using False 1(2) by (simp add: chunks.simps)
    also have "chunks n (drop n xs) = map (\<lambda>i. take n (drop (n * i) (drop n xs))) [0..<?m]"
      using False 1 by simp
    also have "\<dots> = map (\<lambda>i. take n (drop (n * Suc i) xs)) [0..<?m]" by (simp add: ac_simps)
    finally show ?thesis
      unfolding m by (subst upt_conv_Cons) (simp_all add: map_Suc_upt [symmetric] comp_def del: upt_Suc)
  qed
qed

section \<open>Properties\<close>

text \<open>C39. Printing the tree of a store that satisfies the invariant ends without a panic, prints the title and
  the pages of the tree, each with its depth and its layout and before its children, as the abstract
  tree lists them, and leaves the store as it was; in the raw form the pages are dumped as they are
  serialised.\<close>

theorem print_tree_correct:
  assumes "store_ok ops ok h t st"
  shows "engine_print_tree printable ops st =
      Some ((str ''========== TREE (root='' @ dec (unat (root st)) @ str '') =========='')
            # listing printable (page_size ops (store_io st)) False 0 t @ [[]], st) \<and>
    engine_print_bytes printable ops st =
      Some ((str ''========== TREE BYTES (root='' @ dec (unat (root st)) @ str '') =========='')
            # listing printable (page_size ops (store_io st)) True 0 t, st)"
proof -
  have "tree_ok ops h t st" using assms by (simp add: store_ok_def)
  then show ?thesis by (simp add: engine_print_tree_ok engine_print_bytes_ok)
qed

lemma print_tree_correct_witness:
  "\<exists>st lines. engine_in_memory 64 = Some st \<and> engine_print_tree (\<lambda>_. True) memory_ops st = Some (lines, st) \<and>
     lines ! 1 = str ''================ page 1 (depth 0) ================'' \<and>
     lines ! 2 = str ''  type=LEAF id=1 nkeys=0 used=11B/64B''"
proof -
  obtain st where st: "engine_in_memory 64 = Some st" "store_ok memory_ops memory_inv 0 (CLeaf 1 []) st"
    "page_size memory_ops (store_io st) = 64"
    using engine_in_memory_ok [of 64] by (auto simp: page_size_ok_def)
  have "engine_print_tree (\<lambda>_. True) memory_ops st =
      Some ((str ''========== TREE (root='' @ dec (unat (root st)) @ str '') =========='')
        # listing (\<lambda>_. True) 64 False 0 (CLeaf 1 []) @ [[]], st)"
    using print_tree_correct [OF st(2)] unfolding st(3) by blast
  then show ?thesis
    using st(1) by (simp add: page_lines_def Let_def banner_def str_def dec_def in_base.simps digit_def)
qed

text \<open>The raw dump has one line per 16 bytes of the page, in order, each with its offset; no byte is left out.\<close>

lemma print_raw_lines:
  "print_raw bs = map (\<lambda>i. raw_line i (take 16 (drop (16 * i) bs))) [0..<(length bs + 15) div 16]"
proof (rule nth_equalityI)
  show "length (print_raw bs) = length (map (\<lambda>i. raw_line i (take 16 (drop (16 * i) bs))) [0..<(length bs + 15) div 16])"
    by (simp add: print_raw_def chunks_eq)
next
  fix i assume "i < length (print_raw bs)"
  then show "print_raw bs ! i = map (\<lambda>i. raw_line i (take 16 (drop (16 * i) bs))) [0..<(length bs + 15) div 16] ! i"
    by (simp add: print_raw_def chunks_eq nth_enumerate_eq add.commute [of 15])
qed

text \<open>C40. The demo on a new file prints the two values it has put, that the third key is missing, and the path.\<close>

theorem demo_prints:
  assumes "\<And>c. os c = None" "49152 \<le> disk"
  shows "\<exists>st. demo printable os disk [] path =
    Some ([str ''hello -> Some('' @ [34] @ str ''world'' @ [34] @ str '')'',
           str ''foo -> Some('' @ [34] @ str ''bar'' @ [34] @ str '')'',
           str ''missing -> None'', str ''(persisted at '' @ path @ str '')''], st)"
proof -
  let ?kvs = "[(bytes_of ''hello'', bytes_of ''world''), (bytes_of ''foo'', bytes_of ''bar'')]"
  have 1: "page_size_ok 4096" "\<forall>(k, v) \<in> set ?kvs. length k + length v \<le> max_kv_size 4096"
    by (simp_all add: page_size_ok_def max_kv_size_def INTERNAL_HEADER_def bytes_of_def)
  have "12 \<le> disk div 4096" using assms(2) by (simp add: less_eq_div_iff_mult_less_eq)
  then have 2: "keys_reach 4096 (card (fst ` set ?kvs)) \<le> min (max DEFAULT_MAX_SIZE 4096) disk div 4096"
    by (simp add: keys_reach_def bits.simps bytes_of_def chain_need_def div_ceil_def DEFAULT_MAX_SIZE_def min_def)
  obtain st0 st where st: "engine_open os disk [] 4096 = Some (Inr st0)" "put_all mmap_ops st0 ?kvs = Some st"
    "\<And>key. engine_get mmap_ops st key = Some (map_of (rev ?kvs) key, st)"
    by (rule mmap_run [OF assms(1) 1 2]) (rule that; assumption)
  obtain st1 where puts: "engine_put mmap_ops st0 (bytes_of ''hello'') (bytes_of ''world'') = Some (Inr (), st1)"
    "engine_put mmap_ops st1 (bytes_of ''foo'') (bytes_of ''bar'') = Some (Inr (), st)"
    using st(2) by (auto simp: put_all_Cons simp del: put_all.simps(2))
  have gets: "engine_get mmap_ops st (bytes_of ''hello'') = Some (Some (bytes_of ''world''), st)"
    "engine_get mmap_ops st (bytes_of ''foo'') = Some (Some (bytes_of ''bar''), st)"
    "engine_get mmap_ops st (bytes_of ''missing'') = Some (None, st)"
    by (simp_all add: st(3) bytes_of_def)
  have texts: "lossy printable (bytes_of ''world'') = [34] @ str ''world'' @ [34]"
    "lossy printable (bytes_of ''bar'') = [34] @ str ''bar'' @ [34]"
    by (simp_all add: lossy_def bytes_of_def str_def escape_char_def)
  show ?thesis
    by (simp add: demo_def st(1) puts gets option_text_def texts) (simp add: str_def)
qed

lemma demo_prints_witness:
  "\<exists>st. demo (\<lambda>_. False) (\<lambda>_. None :: unit option) (2 ^ 20) [] (str ''/tmp/hw_btree_demo.db'') =
    Some ([str ''hello -> Some('' @ [34] @ str ''world'' @ [34] @ str '')'',
           str ''foo -> Some('' @ [34] @ str ''bar'' @ [34] @ str '')'',
           str ''missing -> None'', str ''(persisted at /tmp/hw_btree_demo.db)''], st)"
  using demo_prints [of "\<lambda>_. None :: unit option" "2 ^ 20" "\<lambda>_. False" "str ''/tmp/hw_btree_demo.db''"]
  by (simp add: str_def)

end
