(* ===== verification/Page_Tests.thy ===== *)
theory Page_Tests
  imports Debug
begin

text \<open>
  The unit tests of the pages, the \<open>mod tests\<close> of \<open>free_list.rs\<close>, \<open>leaf.rs\<close>, \<open>internal.rs\<close> and \<open>mod.rs\<close>
  under \<open>src/01-btree/src/page\<close>, run on the model. A test is a computation that panics, \<^term>\<open>None\<close>, when an
  assertion fails; it passes if it returns, and a test marked \<open>should_panic\<close> passes if it panics. What
  a test prints when it fails is left out.
\<close>

section \<open>What the tests use\<close>

text \<open>\<open>format!("key{i:03}")\<close> and the like: a prefix and the number, padded with zeros to \<open>w\<close> digits.\<close>

definition key_format :: "string \<Rightarrow> nat \<Rightarrow> nat \<Rightarrow> bytes" where
  "key_format prefix w i = bytes_of prefix @ map of_nat (replicate (w - length (dec i)) 48 @ dec i)"

text \<open>A loop whose body asserts, and the collection of the values of a function that may panic.\<close>

fun check_each :: "('a \<Rightarrow> unit option) \<Rightarrow> 'a list \<Rightarrow> unit option" where
  "check_each f [] = Some ()"
| "check_each f (x # xs) = do { f x; check_each f xs }"

definition collect :: "('a \<Rightarrow> 'b option) \<Rightarrow> 'a list \<Rightarrow> 'b list option" where
  "collect f xs = those (map f xs)"

lemma check_each_ok: "check_each f xs = Some () \<longleftrightarrow> (\<forall>x \<in> set xs. f x = Some ())"
  by (induction xs) (auto simp: bind_eq_Some_conv)

lemma collect_Some: "(\<And>x. x \<in> set xs \<Longrightarrow> f x = Some (g x)) \<Longrightarrow> collect f xs = Some (map g xs)"
  unfolding collect_def by (induction xs) simp_all

lemma bytes_of_simps: "bytes_of [] = []" "bytes_of (c # cs) = of_char c # bytes_of cs"
  by (simp_all add: bytes_of_def)

lemma length_bytes_of [simp]: "length (bytes_of s) = length s"
  by (simp add: bytes_of_def)

lemma dec_small: "n < 10 \<Longrightarrow> dec n = [48 + n]"
  unfolding dec_def by (subst in_base.simps) (simp add: digit_def)

lemma dec_large: "10 \<le> n \<Longrightarrow> dec n = dec (n div 10) @ [48 + n mod 10]"
  unfolding dec_def by (subst in_base.simps) (simp add: digit_def)

lemma key_format_simps:
  "key_format ''key'' 3 0 = [107, 101, 121, 48, 48, 48]" "key_format ''key'' 3 (Suc 0) = [107, 101, 121, 48, 48, 49]"
  "key_format ''key'' 3 2 = [107, 101, 121, 48, 48, 50]" "key_format ''key'' 3 3 = [107, 101, 121, 48, 48, 51]"
  "key_format ''key'' 3 4 = [107, 101, 121, 48, 48, 52]" "key_format ''key'' 3 5 = [107, 101, 121, 48, 48, 53]"
  "key_format ''key'' 3 6 = [107, 101, 121, 48, 48, 54]" "key_format ''key'' 3 7 = [107, 101, 121, 48, 48, 55]"
  "key_format ''key'' 3 8 = [107, 101, 121, 48, 48, 56]" "key_format ''key'' 3 9 = [107, 101, 121, 48, 48, 57]"
  "key_format ''key'' 3 10 = [107, 101, 121, 48, 49, 48]" "key_format ''key'' 3 11 = [107, 101, 121, 48, 49, 49]"
  by (simp_all add: key_format_def dec_small dec_large bytes_of_simps numeral_2_eq_2)

section \<open>Sizes\<close>

definition limits_test :: "unit option" where
  "limits_test =
     do { assert_that (max_kv_size 4096 = (4096 - 11 - 28) div 2);
          assert_that (max_kv_size 4096 = 2028);
          assert_that (max_kv_size 256 = (256 - 11 - 28) div 2);
          assert_that (max_kv_size 256 = 108) }"

lemma limits_test_passes: "limits_test = Some ()"
  by (simp add: limits_test_def max_kv_size_def INTERNAL_HEADER_def assert_that_def)

section \<open>Free-list pages\<close>

definition free_list_test_round_trip :: "unit option" where
  "free_list_test_round_trip =
     do { bs \<leftarrow> free_list_encode 7 42 [100, 200, 300] 256;
          (next, ids) \<leftarrow> free_list_decode 7 bs;
          assert_that (next = 42);
          assert_that (ids = [100, 200, 300]) }"

definition free_list_test_end_of_chain :: "unit option" where
  "free_list_test_end_of_chain =
     do { bs \<leftarrow> free_list_encode 7 0 [] 256;
          (next, ids) \<leftarrow> free_list_decode 7 bs;
          assert_that (next = 0);
          assert_that (ids = []) }"

definition free_list_test_capacity :: "unit option" where
  "free_list_test_capacity =
     do { let ps = 256;
          cap \<leftarrow> free_list_capacity ps;
          let ids = map of_nat [0..<cap];
          bs \<leftarrow> free_list_encode 1 0 ids ps;
          (_, decoded) \<leftarrow> free_list_decode 1 bs;
          assert_that (decoded = ids) }"

lemma free_list_write_read:
  assumes "19 \<le> ps" "length xs \<le> (ps - 19) div 8" "length xs < 65536"
  shows "do { bs \<leftarrow> free_list_encode i next xs ps; r \<leftarrow> free_list_decode i bs; f r } = f (next, xs)"
  using assms by (simp add: free_list_encode_image free_list_decode_image free_list_fits_def)

lemma free_list_tests_pass:
  "free_list_test_round_trip = Some ()" "free_list_test_end_of_chain = Some ()" "free_list_test_capacity = Some ()"
  unfolding free_list_test_round_trip_def free_list_test_end_of_chain_def free_list_test_capacity_def Let_def
  by (simp_all add: free_list_write_read free_list_capacity_def FREE_LIST_HEADER_def assert_that_def)

section \<open>Leaf pages\<close>

definition leaf_test_build :: "(bytes \<times> bytes) list \<Rightarrow> leaf_node option" where
  "leaf_test_build es = fold (\<lambda>e r. do { node \<leftarrow> r; leaf_push node (fst e) (snd e) }) es (Some leaf_empty)"

definition leaf_test_round_trip_populated :: "unit option" where
  "leaf_test_round_trip_populated =
     do { node \<leftarrow> leaf_test_build
            [(bytes_of ''a'', bytes_of ''1''), (bytes_of ''b'', bytes_of ''2''), (bytes_of ''c'', bytes_of ''3'')];
          bs \<leftarrow> leaf_to_bytes node 7 4096;
          decoded \<leftarrow> leaf_decode 7 bs;
          assert_that (leaf_id decoded = 7);
          n \<leftarrow> leaf_nkeys decoded; assert_that (n = 3);
          k \<leftarrow> leaf_get_key decoded 0; assert_that (k = bytes_of ''a'');
          v \<leftarrow> leaf_get_val decoded 0; assert_that (v = bytes_of ''1'');
          k \<leftarrow> leaf_get_key decoded 2; assert_that (k = bytes_of ''c'');
          v \<leftarrow> leaf_get_val decoded 2; assert_that (v = bytes_of ''3'') }"

definition leaf_test_round_trip_empty :: "unit option" where
  "leaf_test_round_trip_empty =
     do { bs \<leftarrow> leaf_to_bytes leaf_empty 3 256;
          decoded \<leftarrow> leaf_decode 3 bs;
          n \<leftarrow> leaf_nkeys decoded; assert_that (n = 0) }"

text \<open>Marked \<open>should_panic\<close>.\<close>

definition leaf_test_mismatched_id :: "unit option" where
  "leaf_test_mismatched_id =
     do { node \<leftarrow> leaf_test_build [(bytes_of ''a'', bytes_of ''1'')];
          bs \<leftarrow> leaf_to_bytes node 5 256;
          leaf_decode 6 bs;
          Some () }"

definition leaf_test_search :: "unit option" where
  "leaf_test_search =
     do { node \<leftarrow> leaf_test_build
            [(bytes_of ''b'', bytes_of ''1''), (bytes_of ''d'', bytes_of ''2''), (bytes_of ''f'', bytes_of ''3'')];
          r \<leftarrow> leaf_search node (bytes_of ''d''); assert_that (r = Inr 1);
          r \<leftarrow> leaf_search node (bytes_of ''a''); assert_that (r = Inl 0);
          r \<leftarrow> leaf_search node (bytes_of ''c''); assert_that (r = Inl 1);
          r \<leftarrow> leaf_search node (bytes_of ''z''); assert_that (r = Inl 3) }"

text \<open>The loop that grows a leaf until it is just over the page.\<close>

partial_function (option) leaf_test_grow :: "nat \<Rightarrow> leaf_node \<Rightarrow> nat \<Rightarrow> leaf_node option" where
  "leaf_test_grow ps node n =
     (if leaf_nbytes node \<le> ps
      then do { node' \<leftarrow> leaf_push node (key_format ''key'' 3 n) (bytes_of ''value'');
                leaf_test_grow ps node' (n + 1) }
      else Some node)"

declare leaf_test_grow.simps [code]

definition leaf_test_split :: "unit option" where
  "leaf_test_split =
     do { let ps = 128;
          node \<leftarrow> leaf_test_grow ps leaf_empty 0;
          total_keys \<leftarrow> leaf_nkeys node;
          assert_that (2 \<le> total_keys);
          (left, right) \<leftarrow> leaf_split_by_size node ps;
          assert_that (leaf_nbytes left \<le> ps);
          assert_that (leaf_nbytes right \<le> ps);
          ln \<leftarrow> leaf_nkeys left;
          rn \<leftarrow> leaf_nkeys right;
          s \<leftarrow> u16_add ln rn;
          assert_that (s = total_keys);
          check_each (\<lambda>i. do { k \<leftarrow> leaf_get_key left i; assert_that (k = key_format ''key'' 3 (unat i)) })
            (u16_range 0 ln);
          check_each (\<lambda>i. do { ln \<leftarrow> leaf_nkeys left; orig \<leftarrow> u16_add i ln; k \<leftarrow> leaf_get_key right i;
                               assert_that (k = key_format ''key'' 3 (unat orig)) })
            (u16_range 0 rn) }"

lemma leaf_test_build_mk:
  assumes "leaf_small kvs" "sorted_keys (map fst kvs)"
  shows "leaf_test_build kvs = Some (mk_leaf 0 kvs)"
  using assms
proof (induction kvs rule: rev_induct)
  case Nil
  show ?case by (simp add: leaf_test_build_def mk_leaf_Nil)
next
  case (snoc p kvs)
  have IH: "leaf_test_build kvs = Some (mk_leaf 0 kvs)"
    using snoc leaf_small_append(1) [OF snoc.prems(1)] by (simp add: sorted_wrt_append)
  have "kvs = [] \<or> fst (last kvs) < fst p"
    using snoc.prems(2) by (cases kvs rule: rev_cases) (auto simp: sorted_wrt_append)
  then have "leaf_push (mk_leaf 0 kvs) (fst p) (snd p) = Some (mk_leaf 0 (kvs @ [p]))"
    using leaf_push_mk [of kvs "fst p" "snd p" 0] snoc.prems(1) by simp
  then show ?case using IH by (simp add: leaf_test_build_def)
qed

lemma leaf_get_at:
  assumes "leaf_small kvs" "unat w < length kvs"
  shows "leaf_get_key (mk_leaf i kvs) w = Some (fst (kvs ! unat w))"
    "leaf_get_val (mk_leaf i kvs) w = Some (snd (kvs ! unat w))"
  using leaf_get_key_mk [OF assms, of i] leaf_get_val_mk [OF assms, of i] by simp_all

lemma leaf_tests_pass:
  "leaf_test_round_trip_populated = Some ()" "leaf_test_round_trip_empty = Some ()"
  "leaf_test_mismatched_id = None" "leaf_test_search = Some ()"
proof -
  show "leaf_test_round_trip_populated = Some ()"
    by (simp add: leaf_test_round_trip_populated_def leaf_test_build_mk leaf_to_bytes_image leaf_decode_image
        leaf_small_def length_enc_entry bytes_of_simps leaf_nkeys_mk leaf_get_at assert_that_def as_u16_def)
  show "leaf_test_round_trip_empty = Some ()"
    by (simp add: leaf_test_round_trip_empty_def mk_leaf_Nil [symmetric] leaf_to_bytes_image leaf_decode_image
        leaf_small_def leaf_nkeys_mk assert_that_def)
  show "leaf_test_mismatched_id = None"
    by (simp add: leaf_test_mismatched_id_def leaf_test_build_mk leaf_to_bytes_image leaf_decode_wrong_id
        leaf_small_def length_enc_entry bytes_of_simps)
  show "leaf_test_search = Some ()"
    by (simp add: leaf_test_search_def leaf_test_build_mk leaf_search_mk search_result_def lower_bound_def
        leaf_small_def length_enc_entry bytes_of_simps assert_that_def as_u16_def)
qed

text \<open>The leaf of the split test has eight entries of 15 bytes.\<close>

abbreviation numbered :: "nat \<Rightarrow> (key \<times> val) list" where
  "numbered n \<equiv> map (\<lambda>i. (key_format ''key'' 3 i, bytes_of ''value'')) [0..<n]"

lemma key_format_length: "i < 8 \<Longrightarrow> length (key_format ''key'' 3 i) = 6"
  by (simp add: key_format_def dec_small)

lemma digit_less: "i < j \<Longrightarrow> j < 10 \<Longrightarrow> (48 + of_nat i :: 8 word) < 48 + of_nat j"
  by (simp add: word_less_nat_alt unat_word_ariths unat_of_nat)

lemma key_format_less: "i < j \<Longrightarrow> j < 8 \<Longrightarrow> key_format ''key'' 3 i < key_format ''key'' 3 j"
  by (simp add: key_format_def dec_small bytes_of_simps numeral_2_eq_2 digit_less)

lemma numbered_facts:
  assumes "n \<le> 8"
  shows "length (enc_entries (numbered n)) = 15 * n" "sorted_keys (map fst (numbered n))"
    "\<forall>p \<in> set (numbered n). length (enc_entry p) = 15"
proof -
  show "length (enc_entries (numbered n)) = 15 * n"
    using assms by (induction n) (simp_all add: length_enc_entry key_format_length)
  show "sorted_keys (map fst (numbered n))"
    using assms by (auto simp: sorted_wrt_iff_nth_less key_format_less)
  show "\<forall>p \<in> set (numbered n). length (enc_entry p) = 15"
    using assms by (auto simp: length_enc_entry key_format_length)
qed

lemma leaf_test_grow_ok: "leaf_test_grow 128 leaf_empty 0 = Some (mk_leaf 0 (numbered 8))"
proof -
  have step: "leaf_test_grow 128 (mk_leaf 0 (numbered n)) n = leaf_test_grow 128 (mk_leaf 0 (numbered (Suc n))) (Suc n)"
    if "n < 8" for n
  proof -
    have small: "leaf_small (numbered n @ [(key_format ''key'' 3 n, bytes_of ''value'')])"
      using numbered_facts(1) [of "Suc n"] that by (simp add: leaf_small_def)
    have last: "numbered n = [] \<or> fst (last (numbered n)) < key_format ''key'' 3 n"
      using that by (cases n) (simp_all add: last_map key_format_less)
    have "leaf_nbytes (mk_leaf 0 (numbered n)) \<le> 128"
      using numbered_facts(1) [of n] that by (simp add: leaf_nbytes_mk)
    then show ?thesis using leaf_push_mk [OF small last, of 0] by (subst leaf_test_grow.simps) simp
  qed
  have "leaf_test_grow 128 (mk_leaf 0 (numbered 0)) 0 = leaf_test_grow 128 (mk_leaf 0 (numbered n)) n" if "n \<le> 8" for n
    using that by (induction n) (simp_all add: step del: upt_Suc)
  from this [of 8] have "leaf_test_grow 128 leaf_empty 0 = leaf_test_grow 128 (mk_leaf 0 (numbered 8)) 8"
    by (simp add: mk_leaf_Nil)
  also have "\<dots> = Some (mk_leaf 0 (numbered 8))"
    using numbered_facts(1) [of 8] by (subst leaf_test_grow.simps) (simp add: leaf_nbytes_mk)
  finally show ?thesis .
qed

lemma leaf_test_split_passes: "leaf_test_split = Some ()"
proof -
  note facts = numbered_facts [of 8, simplified]
  obtain m where m: "1 \<le> m" "m < length (numbered 8)"
    "leaf_split_by_size (mk_leaf 0 (numbered 8)) 128 = Some (mk_leaf 0 (take m (numbered 8)), mk_leaf 0 (drop m (numbered 8)))"
    "11 + length (enc_entries (take m (numbered 8))) \<le> 128" "11 + length (enc_entries (drop m (numbered 8))) \<le> 128"
    by (rule leaf_split_mk [of "numbered 8" 128 15 0]) (use facts in \<open>simp_all add: leaf_splittable_def\<close>)
  have small: "leaf_small (take m (numbered 8))" "leaf_small (drop m (numbered 8))"
    using facts(1) by (intro leaf_small_take leaf_small_drop, simp add: leaf_small_def)+
  have m8: "m < 8" using m(2) by simp
  have left: "leaf_get_key (mk_leaf 0 (take m (numbered 8))) (as_u16 i) = Some (key_format ''key'' 3 i)" if "i < m" for i
    using leaf_get_key_mk [OF small(1), of i 0] that m8 by simp
  have right: "leaf_get_key (mk_leaf 0 (drop m (numbered 8))) (as_u16 i) = Some (key_format ''key'' 3 (m + i))"
    if "i < 8 - m" for i
    using leaf_get_key_mk [OF small(2), of i 0] that m8 by simp
  have add: "u16_add (as_u16 i) (as_u16 m) = Some (as_u16 (i + m))" if "i \<le> 8 - m" for i
    using that m8 by (intro u16_add_as) simp
  have "u16_add (as_u16 m) (as_u16 (8 - m)) = Some 8"
    using u16_add_as [of m "8 - m"] m8 by simp
  moreover have "check_each (\<lambda>i. do { k \<leftarrow> leaf_get_key (mk_leaf 0 (take m (numbered 8))) i;
      assert_that (k = key_format ''key'' 3 (unat i)) }) (u16_range 0 (as_u16 m)) = Some ()"
    using left m8 by (auto simp: check_each_ok u16_range_0 assert_that_def unat_as_u16)
  moreover have "check_each (\<lambda>i. do { ln \<leftarrow> leaf_nkeys (mk_leaf 0 (take m (numbered 8))); orig \<leftarrow> u16_add i ln;
      k \<leftarrow> leaf_get_key (mk_leaf 0 (drop m (numbered 8))) i;
      assert_that (k = key_format ''key'' 3 (unat orig)) }) (u16_range 0 (as_u16 (8 - m))) = Some ()"
    using right m8 by (auto simp: check_each_ok u16_range_0 assert_that_def unat_as_u16 leaf_nkeys_mk add add.commute)
  ultimately show ?thesis
    using m(3-5) m8 unfolding leaf_test_split_def Let_def leaf_test_grow_ok
    by (simp add: leaf_nkeys_mk leaf_nbytes_mk assert_that_def del: upt_Suc)
qed

section \<open>Internal pages\<close>

definition internal_test_build :: "bytes list \<Rightarrow> page_id list \<Rightarrow> internal_node option" where
  "internal_test_build ks cs =
     do { node \<leftarrow> fold (\<lambda>k r. do { node \<leftarrow> r; internal_push_key node k }) ks (Some internal_empty);
          Some (fold (\<lambda>c node. internal_push_child node c) cs node) }"

definition internal_test_round_trip :: "unit option" where
  "internal_test_round_trip =
     do { node \<leftarrow> internal_test_build [bytes_of ''b'', bytes_of ''d'', bytes_of ''f''] [10, 20, 30, 40];
          bs \<leftarrow> internal_to_bytes node 9 4096;
          decoded \<leftarrow> internal_decode 9 bs;
          assert_that (internal_id decoded = 9);
          n \<leftarrow> internal_nkeys decoded; assert_that (n = 3);
          n \<leftarrow> internal_nchildren decoded; assert_that (n = 4);
          k \<leftarrow> internal_get_key decoded 0; assert_that (k = bytes_of ''b'');
          k \<leftarrow> internal_get_key decoded 2; assert_that (k = bytes_of ''f'');
          c \<leftarrow> internal_get_child decoded 0; assert_that (c = 10);
          c \<leftarrow> internal_get_child decoded 3; assert_that (c = 40) }"

text \<open>Marked \<open>should_panic\<close>.\<close>

definition internal_test_mismatched_id :: "unit option" where
  "internal_test_mismatched_id =
     do { node \<leftarrow> internal_test_build [bytes_of ''a''] [1, 2];
          bs \<leftarrow> internal_to_bytes node 5 256;
          internal_decode 6 bs;
          Some () }"

definition internal_test_child_index :: "unit option" where
  "internal_test_child_index =
     do { node \<leftarrow> internal_test_build [bytes_of ''b'', bytes_of ''d'', bytes_of ''f''] [0, 1, 2, 3];
          check_each (\<lambda>(key, expected). do { i \<leftarrow> internal_child_index node (bytes_of key); assert_that (i = expected) })
            [(''a'', 0), (''b'', 1), (''c'', 1), (''d'', 2), (''e'', 2), (''f'', 3), (''z'', 3)] }"

text \<open>The keys and the children of a node, as the tests collect them.\<close>

definition keys_of :: "internal_node \<Rightarrow> bytes list option" where
  "keys_of node = do { n \<leftarrow> internal_nkeys node; collect (internal_get_key node) (u16_range 0 n) }"

definition children_of :: "internal_node \<Rightarrow> page_id list option" where
  "children_of node = do { n \<leftarrow> internal_nchildren node; collect (internal_get_child node) (u16_range 0 n) }"

definition internal_test_insert_example :: "unit option" where
  "internal_test_insert_example =
     do { node \<leftarrow> internal_test_build [bytes_of ''d'', bytes_of ''f''] [100, 101, 102];
          grown \<leftarrow> internal_insert_split_child node 1 (bytes_of ''e'') 200 201;
          n \<leftarrow> internal_nkeys grown; assert_that (n = 3);
          k \<leftarrow> internal_get_key grown 0; assert_that (k = bytes_of ''d'');
          k \<leftarrow> internal_get_key grown 1; assert_that (k = bytes_of ''e'');
          k \<leftarrow> internal_get_key grown 2; assert_that (k = bytes_of ''f'');
          cs \<leftarrow> children_of grown; assert_that (cs = [100, 200, 201, 102]) }"

definition internal_test_insert_zero :: "unit option" where
  "internal_test_insert_zero =
     do { node \<leftarrow> internal_test_build [bytes_of ''d'', bytes_of ''f''] [100, 101, 102];
          grown \<leftarrow> internal_insert_split_child node 0 (bytes_of ''b'') 200 201;
          ks \<leftarrow> keys_of grown; assert_that (ks = [bytes_of ''b'', bytes_of ''d'', bytes_of ''f'']);
          cs \<leftarrow> children_of grown; assert_that (cs = [200, 201, 101, 102]) }"

definition internal_test_insert_end :: "unit option" where
  "internal_test_insert_end =
     do { node \<leftarrow> internal_test_build [bytes_of ''d'', bytes_of ''f''] [100, 101, 102];
          grown \<leftarrow> internal_insert_split_child node 2 (bytes_of ''h'') 200 201;
          ks \<leftarrow> keys_of grown; assert_that (ks = [bytes_of ''d'', bytes_of ''f'', bytes_of ''h'']);
          cs \<leftarrow> children_of grown; assert_that (cs = [100, 101, 200, 201]) }"

definition internal_test_split :: "unit option" where
  "internal_test_split =
     do { let ps = 128;
          let ks = map (key_format ''key'' 3) [0..<12];
          node \<leftarrow> fold (\<lambda>k r. do { node \<leftarrow> r; internal_push_key node k }) ks (Some internal_empty);
          let node = fold (\<lambda>i node. internal_push_child node (of_nat i + 100)) [0..<Suc (length ks)] node;
          total_children_before \<leftarrow> internal_nchildren node;
          (left, promoted, right) \<leftarrow> internal_split_with_promotion node ps;
          assert_that (internal_nbytes left \<le> ps);
          assert_that (internal_nbytes right \<le> ps);
          lks \<leftarrow> keys_of left;
          rks \<leftarrow> keys_of right;
          assert_that (lks @ [promoted] @ rks = ks);
          n \<leftarrow> internal_nkeys left;
          i \<leftarrow> u16_sub n 1;
          k \<leftarrow> internal_get_key left i;
          assert_that (k \<noteq> promoted);
          rks' \<leftarrow> keys_of right;
          assert_that (promoted \<notin> set rks');
          lc \<leftarrow> internal_nchildren left;
          rc \<leftarrow> internal_nchildren right;
          s \<leftarrow> u16_add lc rc;
          assert_that (s = total_children_before) }"

definition internal_test_two_max_separators :: "unit option" where
  "internal_test_two_max_separators =
     do { let ps = 256;
          let mx = max_kv_size ps;
          node \<leftarrow> internal_push_key internal_empty (replicate mx 97);
          node \<leftarrow> internal_push_key node (replicate mx 122);
          let node = internal_push_child node 1;
          let node = internal_push_child node 2;
          let node = internal_push_child node 3;
          assert_that (internal_nbytes node \<le> ps) }"

lemma push_children_fold: "fold (\<lambda>c node. internal_push_child node c) ds (mk_internal i ks cs) = mk_internal i ks (cs @ ds)"
  by (induction ds arbitrary: cs) simp_all

lemma push_keys_fold:
  assumes "keys_small ks" "sorted_keys ks"
  shows "fold (\<lambda>k r. do { node \<leftarrow> r; internal_push_key node k }) ks (Some internal_empty) = Some (mk_internal 0 ks [])"
  using assms
proof (induction ks rule: rev_induct)
  case Nil
  show ?case by (simp add: mk_internal_Nil)
next
  case (snoc k ks)
  have small: "keys_small ks" using snoc.prems(1) by (simp add: keys_small_def)
  have "ks = [] \<or> last ks < k" using snoc.prems(2) by (cases ks rule: rev_cases) (auto simp: sorted_wrt_append)
  then show ?case
    using snoc small internal_push_key_mk [of ks k 0 "[]"] by (simp add: sorted_wrt_append)
qed

lemma internal_test_build_mk:
  "keys_small ks \<Longrightarrow> sorted_keys ks \<Longrightarrow> internal_test_build ks cs = Some (mk_internal 0 ks cs)"
  by (simp add: internal_test_build_def push_keys_fold push_children_fold)

lemma internal_get_at:
  assumes "keys_small ks"
  shows "unat w < length ks \<Longrightarrow> internal_get_key (mk_internal i ks cs) w = Some (ks ! unat w)"
    "unat w < length cs \<Longrightarrow> internal_get_child (mk_internal i ks cs) w = Some (cs ! unat w)"
  using internal_get_key_mk [OF assms, of "unat w" i cs] internal_get_child_mk [of "unat w" cs i ks] by simp_all

lemma collect_nth:
  assumes "\<And>j. j < length xs \<Longrightarrow> f (as_u16 j) = Some (xs ! j)" "length xs < 65536"
  shows "collect f (u16_range 0 (as_u16 (length xs))) = Some xs"
proof -
  have "collect f (map as_u16 [0..<length xs]) = Some (map (\<lambda>w. xs ! unat w) (map as_u16 [0..<length xs]))"
    using assms by (intro collect_Some) (auto simp: unat_as_u16)
  also have "map (\<lambda>w. xs ! unat w) (map as_u16 [0..<length xs]) = xs"
    using assms(2) by (intro nth_equalityI) (simp_all add: unat_as_u16)
  finally show ?thesis using assms(2) by (simp add: u16_range_0)
qed

lemma collect_mk:
  assumes "keys_small ks"
  shows "keys_of (mk_internal i ks cs) = Some ks"
    "length cs = Suc (length ks) \<Longrightarrow> children_of (mk_internal i ks cs) = Some cs"
proof -
  have n: "length ks < 32768" by (rule keys_small_length [OF assms])
  show "keys_of (mk_internal i ks cs) = Some ks"
    using assms n by (simp add: keys_of_def internal_nkeys_mk collect_nth internal_get_key_mk)
  show "children_of (mk_internal i ks cs) = Some cs" if "length cs = Suc (length ks)"
    using assms n that collect_nth [of cs "internal_get_child (mk_internal i ks cs)"]
    by (simp add: children_of_def internal_nchildren_mk internal_get_child_mk)
qed

lemma replicate_less: "0 < n \<Longrightarrow> a < b \<Longrightarrow> replicate n a < replicate n (b :: 'a::linorder)"
  by (cases n) simp_all

lemma internal_tests_pass:
  "internal_test_round_trip = Some ()" "internal_test_mismatched_id = None" "internal_test_child_index = Some ()"
  "internal_test_insert_example = Some ()" "internal_test_insert_zero = Some ()" "internal_test_insert_end = Some ()"
  "internal_test_two_max_separators = Some ()"
proof -
  show "internal_test_round_trip = Some ()"
    by (simp add: internal_test_round_trip_def internal_test_build_mk internal_to_bytes_image internal_decode_image
        keys_small_def length_enc_key bytes_of_simps internal_nkeys_mk internal_nchildren_mk internal_get_at assert_that_def as_u16_def)
  show "internal_test_mismatched_id = None"
    by (simp add: internal_test_mismatched_id_def internal_test_build_mk internal_to_bytes_image internal_decode_wrong_id
        keys_small_def length_enc_key bytes_of_simps)
  show "internal_test_child_index = Some ()"
    by (simp add: internal_test_child_index_def internal_test_build_mk internal_child_index_mk upper_bound_def
        keys_small_def length_enc_key bytes_of_simps assert_that_def as_u16_def)
  have small: "keys_small [[100], [102]]" "sorted_keys [[100 :: 8 word], [102]]"
    by (simp_all add: keys_small_def length_enc_key)
  have insert: "internal_insert_split_child (mk_internal 0 [[100], [102]] [100, 101, 102]) 1 [101] 200 201 =
      Some (mk_internal 0 [[100], [101], [102]] [100, 200, 201, 102])"
    "internal_insert_split_child (mk_internal 0 [[100], [102]] [100, 101, 102]) 0 [98] 200 201 =
      Some (mk_internal 0 [[98], [100], [102]] [200, 201, 101, 102])"
    "internal_insert_split_child (mk_internal 0 [[100], [102]] [100, 101, 102]) 2 [104] 200 201 =
      Some (mk_internal 0 [[100], [102], [104]] [100, 101, 200, 201])"
    using internal_insert_split_child_mk [OF small, of "[100, 101, 102]" 1 "[101]" 0 200 201]
      internal_insert_split_child_mk [OF small, of "[100, 101, 102]" 0 "[98]" 0 200 201]
      internal_insert_split_child_mk [OF small, of "[100, 101, 102]" 2 "[104]" 0 200 201]
    by (simp_all add: keys_small_def length_enc_key)
  show "internal_test_insert_example = Some ()"
    by (simp add: internal_test_insert_example_def internal_test_build_mk bytes_of_simps small insert collect_mk
        keys_small_def length_enc_key internal_nkeys_mk internal_get_at assert_that_def as_u16_def)
  show "internal_test_insert_zero = Some ()"
    by (simp add: internal_test_insert_zero_def internal_test_build_mk bytes_of_simps small insert collect_mk
        keys_small_def length_enc_key assert_that_def)
  show "internal_test_insert_end = Some ()"
    by (simp add: internal_test_insert_end_def internal_test_build_mk bytes_of_simps small insert collect_mk
        keys_small_def length_enc_key assert_that_def)
  have less: "replicate 108 (97 :: 8 word) < replicate 108 122" by (rule replicate_less) simp_all
  show "internal_test_two_max_separators = Some ()"
    using internal_push_key_mk [of "[]" "replicate 108 97" 0 "[]"]
      internal_push_key_mk [of "[replicate 108 97]" "replicate 108 122" 0 "[]"] less
    by (simp add: internal_test_two_max_separators_def mk_internal_Nil max_kv_size_def INTERNAL_HEADER_def Let_def
        keys_small_def length_enc_key internal_nbytes_mk assert_that_def)
qed

text \<open>The node of the split test has twelve keys of six bytes; the split point in the middle is right at once.\<close>

lemma twelve_keys:
  fixes ks :: "key list"
  defines "ks \<equiv> map (key_format ''key'' 3) [0..<12]"
  shows "length ks = 12" "sorted_keys ks" "m \<le> 12 \<Longrightarrow> length (enc_keys (take m ks)) = 8 * m"
proof -
  have ks: "ks = [key_format ''key'' 3 0, key_format ''key'' 3 1, key_format ''key'' 3 2, key_format ''key'' 3 3,
      key_format ''key'' 3 4, key_format ''key'' 3 5, key_format ''key'' 3 6, key_format ''key'' 3 7,
      key_format ''key'' 3 8, key_format ''key'' 3 9, key_format ''key'' 3 10, key_format ''key'' 3 11]"
    unfolding ks_def by (simp add: upt_rec numeral_eq_Suc)
  show len: "length ks = 12" by (simp add: ks_def)
  show "sorted_keys ks" unfolding ks by (simp add: key_format_simps)
  have six: "\<forall>k \<in> set ks. length k = 6" unfolding ks by (simp add: key_format_simps)
  have "length (enc_keys xs) = 8 * length xs" if "set xs \<subseteq> set ks" for xs
    using that six by (induction xs) (simp_all add: length_enc_key)
  from this [of "take m ks"] show "m \<le> 12 \<Longrightarrow> length (enc_keys (take m ks)) = 8 * m"
    using len by (simp add: set_take_subset)
qed

lemma internal_test_split_passes: "internal_test_split = Some ()"
proof -
  let ?ks = "map (key_format ''key'' 3) [0..<12]" and ?cs = "map (\<lambda>i. of_nat i + 100) [0..<13] :: page_id list"
  let ?node = "mk_internal 0 ?ks ?cs"
  note keys = twelve_keys
  have all: "length (enc_keys ?ks) = 96" using keys(1) keys(3) [of 12] by simp
  have splittable: "internal_splittable ?ks" using all by (simp add: internal_splittable_def del: upt_Suc)
  note small = internal_splittable_small [OF splittable]
  have "fold (\<lambda>i node. internal_push_child node (of_nat i + 100)) [0..<13] n = fold (\<lambda>c node. internal_push_child node c) ?cs n" for n
    by (simp add: fold_map comp_def)
  then have node: "fold (\<lambda>i node. internal_push_child node (of_nat i + 100)) [0..<13] (mk_internal 0 ?ks []) = ?node"
    by (simp only: push_children_fold append_Nil)
  have bytes: "internal_left_bytes ?node 6 = Some 115" "internal_right_bytes ?node 12 6 = Some 99"
    using internal_left_bytes_mk(1) [OF splittable, of 6 0 ?cs] internal_right_bytes_mk(1) [OF splittable, of 6 0 ?cs]
      keys(3) [of 6] keys(3) [of 7] all by simp_all
  have split: "internal_split_with_promotion ?node 128 = Some (mk_internal 0 (take 6 ?ks) (take (Suc 6) ?cs), ?ks ! 6,
      mk_internal 0 (drop (Suc 6) ?ks) (drop (Suc 6) ?cs))"
  proof (rule internal_cut_mk [OF splittable keys(2)])
    show "split_down (internal_left_bytes ?node) (as_u16 128) (as_u16 (length ?ks div 2)) = Some (as_u16 6)"
      using bytes(1) by (subst split_down.simps) simp
    show "split_up (internal_right_bytes ?node (as_u16 (length ?ks))) (as_u16 128) (as_u16 (length ?ks)) (as_u16 6) = Some (as_u16 6)"
      using bytes(2) by (subst split_up.simps) simp
  qed (use keys(3) [of 6] keys(3) [of 7] all in simp_all)
  have left: "length (enc_keys (take 6 ?ks)) = 48" "length (enc_keys (drop 7 ?ks)) = 40"
    using keys(3) [of 6] keys(3) [of 7] all by (simp_all add: enc_all_drop)
  have small': "keys_small (take 6 ?ks)" "keys_small (drop 7 ?ks)" by (rule keys_small_take [OF small] keys_small_drop [OF small])+
  have order: "take 6 ?ks @ ?ks ! 6 # drop 7 ?ks = ?ks"
    using id_take_nth_drop [of 6 ?ks] by simp
  have distinct: "?ks ! 5 \<noteq> ?ks ! 6" "?ks ! 6 \<notin> set (drop 7 ?ks)"
  proof -
    have d: "distinct ?ks" using keys(2) by (simp add: strict_sorted_iff)
    then show "?ks ! 5 \<noteq> ?ks ! 6" using nth_eq_iff_index_eq [OF d, of 5 6] by simp
    have "distinct (take 6 ?ks @ ?ks ! 6 # drop 7 ?ks)" using d by (simp only: order)
    then show "?ks ! 6 \<notin> set (drop 7 ?ks)" unfolding distinct_append distinct.simps by blast
  qed
  have last: "internal_get_key (mk_internal 0 (take 6 ?ks) (take 7 ?cs)) 5 = Some (?ks ! 5)"
    using internal_get_key_mk [OF small'(1), of 5 0 "take 7 ?cs"] by simp
  have counts: "internal_nchildren ?node = Some 13" "internal_nkeys (mk_internal 0 (take 6 ?ks) (take 7 ?cs)) = Some 6"
    "internal_nchildren (mk_internal 0 (take 6 ?ks) (take 7 ?cs)) = Some 7"
    "internal_nchildren (mk_internal 0 (drop 7 ?ks) (drop 7 ?cs)) = Some 6"
    using small small' by (simp_all add: internal_nchildren_mk internal_nkeys_mk)
  have sums: "u16_sub 6 1 = Some 5" "u16_add 7 6 = Some 13" by (simp_all add: u16_sub_def u16_add_def)
  have folds: "fold (\<lambda>i node. internal_push_child node (of_nat i + 100)) [0..<Suc (length ?ks)] (mk_internal 0 ?ks []) = ?node"
    using node by simp
  show ?thesis
    unfolding internal_test_split_def Let_def push_keys_fold [OF small keys(2)] bind.simps folds counts split prod.case
    using left distinct last counts sums order
    by (simp add: collect_mk small' internal_nbytes_mk assert_that_def del: upt_Suc)
qed

end
