(* ===== verification/Test_Support.thy ===== *)
theory Test_Support
  imports Engine_Correct Page_Tests
begin

text \<open>
  What the tests of the store and the engine use, the \<open>mod tests\<close> of \<open>store.rs\<close> and \<open>engine.rs\<close> under
  \<open>src/01-btree/src/storage\<close>: puts in loops, numbered keys, lookups, reopening a backend in memory; and the
  lemmas that follow a store through them. A test panics, \<^term>\<open>None\<close>, when an assertion or an \<open>unwrap\<close>
  fails. What a test prints is computed, which may panic, and dropped.
\<close>

section \<open>What the tests use\<close>

text \<open>
  \<open>MemoryPageIo::reopen\<close> gives a handle on the same pages, which is the backend as the store has left it.
\<close>

definition memory_reopen :: "memory_page_io \<Rightarrow> memory_page_io" where
  "memory_reopen io = io"

text \<open>The numbers the store shows to its tests.\<close>

definition free_list_len :: "'io store \<Rightarrow> nat" where
  "free_list_len st = length (free_list (write_lock st))"

definition free_list_snapshot :: "'io store \<Rightarrow> page_id list" where
  "free_list_snapshot st = free_list (write_lock st)"

definition allocated_pages :: "'io store \<Rightarrow> u64" where
  "allocated_pages st = next_page_id (write_lock st)"

text \<open>\<open>Store::open_or_create(io).unwrap()\<close>; a put that is unwrapped, by the engine or in a transaction of its own.\<close>

definition store_open :: "memory_page_io \<Rightarrow> memory_page_io store option" where
  "store_open io = do { r \<leftarrow> open_or_create memory_ops io; case r of Inl e \<Rightarrow> None | Inr st \<Rightarrow> Some st }"

definition put_unwrap :: "memory_page_io store \<Rightarrow> bytes \<Rightarrow> bytes \<Rightarrow> memory_page_io store option" where
  "put_unwrap st k v =
     do { r \<leftarrow> engine_put memory_ops st k v; case fst r of Inl e \<Rightarrow> None | Inr _ \<Rightarrow> Some (snd r) }"

definition txn_put :: "memory_page_io store \<Rightarrow> bytes \<Rightarrow> bytes \<Rightarrow> memory_page_io store option" where
  "txn_put st k v =
     do { let txn = begin_write st;
          r \<leftarrow> tree_put memory_ops txn k v;
          case fst r of Inl e \<Rightarrow> None | Inr _ \<Rightarrow> Some (txn_store (snd r)) }"

text \<open>A loop that puts.\<close>

fun put_each :: "('s \<Rightarrow> bytes \<Rightarrow> bytes \<Rightarrow> 's option) \<Rightarrow> 's \<Rightarrow> (bytes \<times> bytes) list \<Rightarrow> 's option" where
  "put_each put st [] = Some st"
| "put_each put st ((k, v) # kvs) = do { st' \<leftarrow> put st k v; put_each put st' kvs }"

text \<open>The tests' lookups, through the engine or in a view.\<close>

definition assert_get :: "memory_page_io store \<Rightarrow> bytes \<Rightarrow> bytes option \<Rightarrow> unit option" where
  "assert_get st k expected = do { r \<leftarrow> engine_get memory_ops st k; assert_that (fst r = expected) }"

definition assert_view :: "memory_page_io store \<Rightarrow> bytes \<Rightarrow> bytes option \<Rightarrow> unit option" where
  "assert_view view k expected = do { r \<leftarrow> tree_get memory_ops view k; assert_that (r = expected) }"

section \<open>The keys\<close>

lemma dec_digits: "\<forall>d \<in> set (dec n). 48 \<le> d \<and> d < 58"
proof (induction n rule: less_induct)
  case (less n)
  show ?case
  proof (cases "n < 10")
    case False
    then have "\<forall>d \<in> set (dec (n div 10)). 48 \<le> d \<and> d < 58" by (intro less.IH) simp
    then show ?thesis using False by (simp add: dec_large ball_Un)
  qed (simp add: dec_small)
qed

lemma length_dec: "n < 10 ^ Suc w \<Longrightarrow> length (dec n) \<le> Suc w"
proof (induction w arbitrary: n)
  case (Suc w)
  show ?case
  proof (cases "n < 10")
    case False
    have "n div 10 < 10 ^ Suc w" using Suc.prems by (simp add: less_mult_imp_div_less)
    then show ?thesis using Suc.IH [of "n div 10"] False by (simp add: dec_large)
  qed (simp add: dec_small)
qed (simp add: dec_small)

definition undec :: "nat list \<Rightarrow> nat" where
  "undec ds = foldl (\<lambda>n d. 10 * n + (d - 48)) 0 ds"

lemma undec_zeros: "undec (replicate k 48 @ ds) = undec ds"
  unfolding undec_def by (induction k) simp_all

lemma undec_dec: "undec (dec n) = n"
proof (induction n rule: less_induct)
  case (less n)
  show ?case
  proof (cases "n < 10")
    case False
    then have "undec (dec (n div 10)) = n div 10" by (intro less.IH) simp
    then show ?thesis using False by (simp add: dec_large undec_def)
  qed (simp add: dec_small undec_def)
qed

lemma key_format_inj: "key_format p w i = key_format p w j \<longleftrightarrow> i = j"
proof
  let ?d = "\<lambda>n. replicate (w - length (dec n)) 48 @ dec n"
  have unat: "map unat (map (of_nat :: nat \<Rightarrow> 8 word) (?d n)) = ?d n" for n
    unfolding map_map using dec_digits [of n] by (intro map_idI) (auto simp: unat_of_nat)
  assume "key_format p w i = key_format p w j"
  then have "map (of_nat :: nat \<Rightarrow> 8 word) (?d i) = map of_nat (?d j)" by (simp add: key_format_def)
  then have "?d i = ?d j" using unat by metis
  then have "undec (?d i) = undec (?d j)" by simp
  then show "i = j" by (simp only: undec_zeros undec_dec)
qed simp

lemma key_format_len:
  "0 < w \<Longrightarrow> i < 10 ^ w \<Longrightarrow> length (key_format p w i) = length p + w"
  using length_dec [of i "w - 1"] by (simp add: key_format_def)

lemma key_format_len_le: "i < 10 ^ Suc w \<Longrightarrow> length (key_format p 0 i) \<le> length p + Suc w"
  using length_dec [of i w] by (simp add: key_format_def)

text \<open>The value of a key to which the puts give only one value.\<close>

lemma map_of_puts:
  assumes "\<And>p. p \<in> set kvs \<Longrightarrow> fst p = k \<Longrightarrow> snd p = v"
  shows "map_of (rev kvs) k = (if k \<in> fst ` set kvs then Some v else None)"
proof (cases "map_of (rev kvs) k")
  case None
  then show ?thesis by (simp add: map_of_eq_None_iff)
next
  case (Some u)
  then have "(k, u) \<in> set kvs" using map_of_SomeD by fastforce
  then show ?thesis using assms Some by force
qed

lemma map_of_numbered:
  assumes "i < n"
  shows "map_of (rev (map (\<lambda>i. (key_format p w i, f i)) [0..<n])) (key_format p w i) = Some (f i)"
proof -
  have "map_of (rev (map (\<lambda>i. (key_format p w i, f i)) [0..<n])) (key_format p w i) =
    (if key_format p w i \<in> fst ` set (map (\<lambda>i. (key_format p w i, f i)) [0..<n]) then Some (f i) else None)"
    by (rule map_of_puts) (auto simp: key_format_inj)
  then show ?thesis using assms by force
qed

section \<open>A store under test\<close>

text \<open>A store after \<open>n\<close> puts, with its tree.\<close>

definition tracked :: "nat \<Rightarrow> nat \<Rightarrow> nat \<Rightarrow> ctree \<Rightarrow> memory_page_io store \<Rightarrow> bool" where
  "tracked ps n h t st \<longleftrightarrow> store_ok memory_ops memory_inv h t st \<and> page_size memory_ops (store_io st) = ps \<and>
     within_run ps n h (write_lock st)"

abbreviation position :: "nat \<Rightarrow> ctree \<Rightarrow> 'io store \<Rightarrow> nat \<times> ctree \<times> writer_state" where
  "position h t st \<equiv> (h, t, write_lock st)"

lemma store_open_in_memory: "store_open (memory_new ps) = engine_in_memory ps"
  by (simp add: store_open_def engine_in_memory_def)

lemma tracked_open:
  assumes "page_size_ok ps"
  obtains st where "engine_in_memory ps = Some st" "tracked ps 0 0 (CLeaf 1 []) st" "readers st = 0"
    "lean ps (position 0 (CLeaf 1 []) st)"
proof -
  obtain st where st: "engine_in_memory ps = Some st" "store_ok memory_ops memory_inv 0 (CLeaf 1 []) st"
    "fresh_writer (write_lock st)" "readers st = 0" "page_size memory_ops (store_io st) = ps"
    using engine_in_memory_ok [OF assms] .
  moreover from this have "tracked ps 0 0 (CLeaf 1 []) st"
    by (simp add: tracked_def within_run_def fresh_writer_def)
  ultimately show ?thesis using that lean_fresh by blast
qed

lemma put_each_all: "put_each put_unwrap st kvs = put_all memory_ops st kvs"
proof (induction kvs arbitrary: st)
  case (Cons p kvs)
  then show ?case
    by (cases p) (auto simp: put_unwrap_def split: sum.splits Option.bind_splits)
qed simp

lemma put_unwrap_iff: "put_unwrap st k v = Some st' \<longleftrightarrow> engine_put memory_ops st k v = Some (Inr (), st')"
proof (cases "engine_put memory_ops st k v")
  case (Some r)
  then show ?thesis by (cases r; cases "fst r") (simp_all add: put_unwrap_def)
qed (simp add: put_unwrap_def)

lemma txn_put_unwrap: "txn_put st k v = put_unwrap st k v"
  by (auto simp: txn_put_def put_unwrap_def engine_put_def split: sum.splits Option.bind_splits)

lemma put_each_txn: "put_each txn_put st kvs = put_all memory_ops st kvs"
proof -
  have "txn_put = put_unwrap" by (intro ext) (rule txn_put_unwrap)
  then show ?thesis by (simp add: put_each_all)
qed

lemma tracked_puts:
  assumes "tracked ps n h t st" "page_size_ok ps"
    and "\<forall>(k, v) \<in> set kvs. length k + length v \<le> max_kv_size ps" "n + length kvs \<le> 2 ^ 30"
  obtains st' h' t' where "put_all memory_ops st kvs = Some st'" "tracked ps (n + length kvs) h' t' st'"
    "contents t' = upserts kvs (contents t)" "readers st' = readers st"
    "(run_step ps (readers st) ^^ length kvs) (position h t st) (position h' t' st')"
proof -
  have st: "store_ok memory_ops memory_inv h t st" "page_size memory_ops (store_io st) = ps"
    "within_run ps n h (write_lock st)"
    using assms(1) by (simp_all add: tracked_def)
  have reach: "run_reach ps (n + length kvs) < 2 ^ 64" using assms(2,4) by (rule run_reach_64)
  then have "run_reach ps (n + length kvs) \<le> 2 ^ 64" by simp
  from mem.put_all_ok [OF st assms(3) reach this]
  obtain st' t' h' where 1: "put_all memory_ops st kvs = Some st'" "store_ok memory_ops memory_inv h' t' st'"
    "contents t' = upserts kvs (contents t)" "mem.evolves (store_io st) (store_io st')"
    "readers st' = readers st" "within_run ps (n + length kvs) h' (write_lock st')"
    "(run_step ps (readers st) ^^ length kvs) (position h t st) (position h' t' st')"
    by blast
  have "page_size memory_ops (store_io st') = ps" using mem.evolves_facts(2) [OF 1(4)] st(2) by simp
  then have "tracked ps (n + length kvs) h' t' st'" using 1(2,6) by (simp add: tracked_def)
  then show ?thesis using that 1(1,3,5,7) by blast
qed

lemma tracked_put:
  assumes "tracked ps n h t st" "page_size_ok ps" "length k + length v \<le> max_kv_size ps" "n < 2 ^ 30"
  obtains st' h' t' where "put_unwrap st k v = Some st'" "tracked ps (Suc n) h' t' st'"
    "contents t' = upsert k v (contents t)" "readers st' = readers st"
    "run_step ps (readers st) (position h t st) (position h' t' st')"
proof -
  have one: "put_all memory_ops st [(k, v)] = put_unwrap st k v"
    by (auto simp: put_unwrap_def split: sum.splits Option.bind_splits)
  have kv: "\<forall>(k, v) \<in> set [(k, v)]. length k + length v \<le> max_kv_size ps" "n + length [(k, v)] \<le> 2 ^ 30"
    using assms(3,4) by simp_all
  obtain st' h' t' where "put_all memory_ops st [(k, v)] = Some st'" "tracked ps (n + length [(k, v)]) h' t' st'"
    "contents t' = upserts [(k, v)] (contents t)" "readers st' = readers st"
    "(run_step ps (readers st) ^^ length [(k, v)]) (position h t st) (position h' t' st')"
    by (rule tracked_puts [OF assms(1,2) kv])
  moreover have "(R ^^ length [(k, v)]) = R" for R :: "nat \<times> ctree \<times> writer_state \<Rightarrow> nat \<times> ctree \<times> writer_state \<Rightarrow> bool"
    using relpowp_1 [of R] by simp
  ultimately show ?thesis unfolding one by (intro that [of st' h' t']) (simp_all del: relpowp.simps)
qed

lemma tracked_tree: "tracked ps n h t st \<Longrightarrow> tree_ok memory_ops h t st"
  by (simp add: tracked_def store_ok_def)

lemma tracked_get: "tracked ps n h t st \<Longrightarrow> assert_get st k r = assert_that (map_of (contents t) k = r)"
  using engine_get_ok [of memory_ops h t st k] by (simp add: assert_get_def tracked_tree)

definition tree_text :: "(nat \<Rightarrow> bool) \<Rightarrow> ctree \<Rightarrow> memory_page_io store \<Rightarrow> line list" where
  "tree_text printable t st = (str ''========== TREE (root='' @ dec (unat (root st)) @ str '') =========='')
     # listing printable (page_size memory_ops (store_io st)) False 0 t @ [[]]"

lemma tracked_print:
  assumes "tracked ps n h t st"
  shows "engine_print_tree printable memory_ops st = Some (tree_text printable t st, st)"
    "print_tree printable memory_ops (enter_read st) = Some (tree_text printable t st)"
proof -
  show 1: "engine_print_tree printable memory_ops st = Some (tree_text printable t st, st)"
    using engine_print_tree_ok [OF tracked_tree [OF assms], of printable] by (simp add: tree_text_def)
  show "print_tree printable memory_ops (enter_read st) = Some (tree_text printable t st)"
    using 1 by (auto simp: engine_print_tree_def Let_def bind_eq_Some_conv)
qed

text \<open>Closing and opening again.\<close>

lemma tracked_reopen:
  assumes "tracked ps n h t st"
  obtains st' where "store_open (memory_reopen (store_io st)) = Some st'" "store_ok memory_ops memory_inv h t st'"
    "free_list (write_lock st') = free_list (write_lock st) @ pending_free (write_lock st)"
proof -
  have "store_ok memory_ops memory_inv h t st" using assms by (simp add: tracked_def)
  then show ?thesis
    using mem.reopen_ok that [of "reopened memory_ops st"] by (simp add: store_open_def memory_reopen_def)
qed

lemma view_get:
  assumes "store_ok memory_ops memory_inv h t st" "store_io st' = store_io st" "root st' = root st"
  shows "assert_view (enter_read st') k r = assert_that (map_of (contents t) k = r)"
proof -
  have "guard_read memory_ops (enter_read st') = guard_read memory_ops st"
    by (rule guard_read_cong) (simp add: enter_read_def assms(2))
  then have "tree_ok memory_ops h t (enter_read st')"
    using assms by (simp add: store_ok_def tree_ok_def enter_read_def)
  then show ?thesis by (simp add: assert_view_def tree_get_ok)
qed

lemmas test_limits = page_size_ok_def max_kv_size_def INTERNAL_HEADER_def

lemma bytes_of_eq [simp]: "bytes_of a = bytes_of b \<longleftrightarrow> a = b"
proof -
  have "c = d" if "(of_char c :: 8 word) = of_char d" for c d
  proof -
    have "(of_nat (of_char c) :: 8 word) = of_nat (of_char d)" unfolding of_nat_of_char by (rule that)
    then have "(of_char c :: nat) mod 256 = of_char d mod 256"
      by (simp del: of_nat_of_char add: word_of_nat_eq_iff take_bit_eq_mod)
    then show ?thesis by simp
  qed
  then have "inj (of_char :: char \<Rightarrow> 8 word)" by (intro injI)
  then show ?thesis by (simp add: bytes_of_def inj_map_eq_map)
qed

lemma page_4096: "page_size_ok 4096"
  by (simp add: test_limits)

text \<open>Bounds on the bytes of the entries of a leaf.\<close>

lemma length_enc_entries_ge:
  assumes "\<And>p. p \<in> set es \<Longrightarrow> n \<le> length (fst p)"
  shows "(4 + n) * length es \<le> length (enc_entries es)"
  using assms
proof (induction es)
  case (Cons p es)
  have "n \<le> length (fst p)" "(4 + n) * length es \<le> length (enc_entries es)"
    by (rule Cons.prems, simp, rule Cons.IH, rule Cons.prems, simp)
  then show ?case by (simp add: length_enc_entry)
qed simp

lemma length_enc_entries_le:
  assumes "\<And>p. p \<in> set es \<Longrightarrow> length (fst p) + length (snd p) \<le> n"
  shows "length (enc_entries es) \<le> (4 + n) * length es"
  using assms
proof (induction es)
  case (Cons p es)
  have "length (fst p) + length (snd p) \<le> n" "length (enc_entries es) \<le> (4 + n) * length es"
    by (rule Cons.prems, simp, rule Cons.IH, rule Cons.prems, simp)
  then show ?case by (simp add: length_enc_entry)
qed simp

lemma numbered_keys:
  "fst ` set (upserts (map (\<lambda>i. (key_format p w i, f i)) [0..<n]) []) = key_format p w ` {..<n}"
  by (simp add: upserts_keys image_image atLeast0LessThan)

lemma card_numbered: "card (key_format p w ` {..<n}) = n"
  by (simp add: card_image inj_on_def key_format_inj)

end
