(* ===== verification/Race.thy ===== *)
theory Race
  imports Stages
begin

text \<open>
  A run in which a lookup goes wrong. The gate of a commit looks at the number of readers before the new
  root is published; a reader that enters in between still loads the old root, whose pages the gate has
  already handed to the allocator. The theory follows such a reader through the next put to a wrong
  answer.
\<close>

section \<open>A put on a tree of one leaf\<close>

text \<open>Where the pages go: a leaf that splits leaves its left half on the page that was freed last.\<close>

context page_backend
begin

text \<open>The commit of a put that has freed the leaf and buffered the new tree.\<close>

lemma leaf_commit:
  fixes st :: "'io store"
  defines "ps \<equiv> page_size ops (store_io st)"
  assumes st: "store_ok ops inv 0 (CLeaf i kvs) st" and kv: "length key + length val \<le> max_kv_size ps"
    and reach: "put_reach ps 0 (write_lock st) < 2 ^ 64" "put_reach ps 0 (write_lock st) \<le> limit (store_io st)"
    and put: "put_prepared ops (begin_write st) key val = Some (tid t', tx)"
    and ext: "txn_ext ops A [i] (begin_write st) tx"
    and A: "tid t' \<in> set A" "length A \<le> 3" "mset (ids t') = mset A" "set A \<subseteq> set (ids t')"
    and t': "bal h' t'" "sized ps t'" "ordered None None t'" "rep (txn_read ops tx) t'"
  obtains st' where "engine_put ops st key val = Some (Inr (), st')" "store_ok ops inv h' t' st'"
    "readers st' = readers st"
    "readers st = 0 \<Longrightarrow> free_list (write_lock st') \<noteq> [] \<and> last (free_list (write_lock st')) = root st"
proof -
  have "prepared ops 0 (CLeaf i kvs) st A [i] h' t' tx"
    using ext A t' by (cases A) (simp_all add: prepared_def ps_def)
  then show ?thesis
  proof (rule commit_prepared [OF st reach [unfolded ps_def]])
    fix tx' st'
    assume "commit ops tx (tid t') = Some tx'" "txn_store tx' = st'"
    then have "engine_put ops st key val = Some (Inr (), st')"
      using engine_put_prepared [OF put] kv by (simp add: ps_def)
    moreover assume "store_ok ops inv h' t' st'" "readers st' = readers st"
      "readers st = 0 \<Longrightarrow> pending_free (write_lock st') = [] \<and> free_list (write_lock st') \<noteq> [] \<and>
         last (free_list (write_lock st')) = root st"
    ultimately show ?thesis by (intro that [of st']) simp_all
  qed
qed

lemma leaf_put:
  fixes st :: "'io store"
  defines "ps \<equiv> page_size ops (store_io st)" and "g \<equiv> write_lock st"
  assumes st: "store_ok ops inv 0 (CLeaf i kvs) st" and kv: "length key + length val \<le> max_kv_size ps"
    and reach: "put_reach ps 0 g < 2 ^ 64" "put_reach ps 0 g \<le> limit (store_io st)"
  obtains st' h' t' where "h' \<le> 1" "engine_put ops st key val = Some (Inr (), st')" "store_ok ops inv h' t' st'"
    "readers st' = readers st"
    "readers st = 0 \<Longrightarrow> free_list (write_lock st') \<noteq> [] \<and> last (free_list (write_lock st')) = root st"
    "if 11 + length (enc_entries (upsert key val kvs)) \<le> ps then \<exists>j. t' = CLeaf j (upsert key val kvs)
     else \<exists>c s a xs b ys. t' = CNode c [s] [CLeaf a xs, CLeaf b ys] \<and> upsert key val kvs = xs @ ys \<and>
       (free_list g \<noteq> [] \<longrightarrow> a = last (free_list g))"
proof -
  let ?u = "upsert key val kvs" and ?tx = "begin_write st" and ?xs = "ids (CLeaf i kvs) @ pending_free g @ free_list_page_ids g"
  let ?tx2 = "txn_free ?tx i"
  have ps: "page_size_ok ps" and tree: "tree_ok ops 0 (CLeaf i kvs) st" and pool: "pool_ok ?xs g"
    using st by (simp_all add: store_ok_def ps_def g_def)
  have start: "guard ?tx = g" "base_root ?tx = i" "txn_page_size ops ?tx = ps"
    using tree by (simp_all add: begin_write_def guard_def txn_page_size_def tree_ok_def ps_def g_def)
  have sub: "subtree_ok ps 0 (txn_read ops ?tx) None None (CLeaf i kvs)"
    using tree by (simp add: tree_ok_def subtree_ok_def ps_def)
  have small: "leaf_small kvs" "sorted_keys (map fst kvs)" using sub by (simp_all add: subtree_ok_def)
  have range: "in_range None None key" by (simp add: in_range_def)
  obtain res where res: "insert_leaf (mk_leaf i kvs) key val ps = Some res"
    "grown ps 0 (txn_read ops ?tx) None None ?u {#} res"
    using insert_leaf_ok [OF ps sub range kv] .
  have ext2: "txn_ext ops [] [i] ?tx ?tx2" by (rule txn_free_ext)
  have read2: "txn_read ops ?tx2 = txn_read ops ?tx" by (simp add: fun_eq_iff txn_ext_read [OF ext2])
  have pool2: "pool_ok ?xs (guard ?tx2)" using pool start by (simp add: txn_free_def guard_def)
  have guard2: "guard ?tx2 = g" using start by (simp add: txn_free_def guard_def)
  have ps2: "txn_page_size ops ?tx2 = ps" using txn_ext_frame(6) [OF ext2] start by simp
  have room2: "unat (next_page_id (guard ?tx2)) + 3 < 2 ^ 64" using reach(1) unfolding guard2 put_reach_def by linarith
  have read: "txn_read ops ?tx (base_root ?tx) = Some (Leaf (mk_leaf i kvs))"
    using tree start by (simp add: tree_ok_def)
  have put: "put_prepared ops ?tx key val = Some r" if "place_root ops ?tx2 res = Some r" for r
    using read res(1) that start by (simp add: put_prepared_def insert_node_def)
  have built: "leaf_small ?u" using length_enc_upsert [of key val kvs] sub kv page_size_bounds [OF ps]
    by (simp add: subtree_ok_def leaf_small_def)
  have fits: "res = Single (Leaf (mk_leaf 0 ?u))" if "11 + length (enc_entries ?u) \<le> ps"
    using insert_leaf_unfold [OF small built, of i ps] that res(1) by (simp add: leaf_nbytes_mk)
  from res(2) show ?thesis
  proof cases
    case (grown_single u)
    then have u: "subtree_ok ps 0 (txn_read ops ?tx2) None None u" by (simp add: read2)
    have below: "set (below u) \<subseteq> set ?xs" using grown_single(4) by (cases u) (simp_all add: subtree_ok_def)
    obtain a tx' where 1: "place_root ops ?tx2 res = Some (a, tx')" "txn_ext ops [a] [] ?tx2 tx'"
      "rep (txn_read ops tx') (retag a u)"
      using place_root_single [OF ps2 pool2 room2 u below] unfolding grown_single(3) [symmetric] by blast
    obtain j where j: "u = CLeaf j ?u" using grown_single by (cases u) (simp_all add: subtree_ok_def)
    have ext: "txn_ext ops [a] [i] ?tx tx'" using txn_ext_trans [OF ext2 1(2)] by simp
    have t': "bal 0 (CLeaf a ?u)" "sized ps (CLeaf a ?u)" "ordered None None (CLeaf a ?u)" "rep (txn_read ops tx') (CLeaf a ?u)"
      using 1(3) u j by (simp_all add: subtree_ok_def)
    have "place_root ops ?tx2 res = Some (tid (CLeaf a ?u), tx')" using 1(1) by simp
    from leaf_commit [OF st kv [unfolded ps_def] reach [unfolded ps_def g_def] put [OF this] ext _ _ _ _ t' [unfolded ps_def]] obtain st' where st': "engine_put ops st key val = Some (Inr (), st')"
      "store_ok ops inv 0 (CLeaf a ?u) st'" "readers st' = readers st"
      "readers st = 0 \<Longrightarrow> free_list (write_lock st') \<noteq> [] \<and> last (free_list (write_lock st')) = root st"
      by auto
    have "11 + length (enc_entries ?u) \<le> ps" using t'(2) by simp
    then show ?thesis by (intro that [OF _ st']) simp_all
  next
    case (grown_split s u v)
    then have u: "subtree_ok ps 0 (txn_read ops ?tx2) None (Some s) u" "subtree_ok ps 0 (txn_read ops ?tx2) (Some s) None v"
      by (simp_all add: read2)
    obtain j xs l ys where uv: "u = CLeaf j xs" "v = CLeaf l ys"
      using u by (cases u; cases v) (simp_all add: subtree_ok_def)
    have below: "set (below u) \<subseteq> set ?xs" "set (below v) \<subseteq> set ?xs" by (simp_all add: uv)
    obtain a tx1 b c tx' where 1: "txn_alloc ?tx2 = Some (a, tx1)" "place_root ops ?tx2 res = Some (c, tx')"
      "txn_ext ops [a, b, c] [] ?tx2 tx'" "rep (txn_read ops tx') (CNode c [s] [retag a u, retag b v])"
      "bal (Suc 0) (CNode c [s] [retag a u, retag b v])" "sized ps (CNode c [s] [retag a u, retag b v])"
      "ordered None None (CNode c [s] [retag a u, retag b v])"
      using place_root_split [OF ps ps2 pool2 room2 u(1) below(1) u(2) below(2) grown_split(8-10)]
      unfolding grown_split(3) [symmetric] by metis
    let ?t = "CNode c [s] [CLeaf a xs, CLeaf b ys]"
    have t': "bal (Suc 0) ?t" "sized ps ?t" "ordered None None ?t" "rep (txn_read ops tx') ?t"
      using 1(4-7) by (simp_all add: uv)
    have ext: "txn_ext ops [a, b, c] [i] ?tx tx'" using txn_ext_trans [OF ext2 1(3)] by simp
    have "place_root ops ?tx2 res = Some (tid ?t, tx')" using 1(2) by simp
    from leaf_commit [OF st kv [unfolded ps_def] reach [unfolded ps_def g_def] put [OF this] ext _ _ _ _ t' [unfolded ps_def]] obtain st' where st': "engine_put ops st key val = Some (Inr (), st')"
      "store_ok ops inv (Suc 0) ?t st'" "readers st' = readers st"
      "readers st = 0 \<Longrightarrow> free_list (write_lock st') \<noteq> [] \<and> last (free_list (write_lock st')) = root st"
      by (auto simp: ac_simps)
    have "res \<noteq> Single (Leaf (mk_leaf 0 ?u))" using grown_split(3) by simp
    then have "\<not> 11 + length (enc_entries ?u) \<le> ps" using fits by blast
    moreover have "free_list g \<noteq> [] \<longrightarrow> a = last (free_list g)"
      using 1(1) guard2 by (auto simp: txn_alloc_def Let_def)
    ultimately show ?thesis using grown_split(1) by (intro that [OF _ st']) (auto simp: uv)
  qed
qed

end

section \<open>The reader that is overtaken\<close>

text \<open>
  The scenario, on an in-memory engine with pages of 64 bytes and entries of 16 bytes, so that a leaf
  holds three entries and splits with the fourth. One leaf holds the keys 1, 2 and 4. While a put
  replaces the value of 1, a reader of the key 4 loads the root after the gate; then the key 3 is put.
\<close>

definition entry :: "8 word \<Rightarrow> 8 word \<Rightarrow> key \<times> val" where
  "entry k x = ([k], replicate 11 x)"

text \<open>One put of the scenario on a leaf.\<close>

lemma scenario_put:
  assumes st: "store_ok memory_ops memory_inv 0 (CLeaf i kvs) st" "page_size memory_ops (store_io st) = 64"
    "within_run 64 n 0 (write_lock st)" "n \<le> 10"
  obtains st' h' t' where "engine_put memory_ops st (fst (entry k x)) (snd (entry k x)) = Some (Inr (), st')"
    "store_ok memory_ops memory_inv h' t' st'" "page_size memory_ops (store_io st') = 64"
    "within_run 64 (Suc n) h' (write_lock st')" "readers st' = readers st"
    "readers st = 0 \<Longrightarrow> free_list (write_lock st') \<noteq> [] \<and> last (free_list (write_lock st')) = root st"
    "if 11 + length (enc_entries (upsert (fst (entry k x)) (snd (entry k x)) kvs)) \<le> 64
     then \<exists>j. t' = CLeaf j (upsert (fst (entry k x)) (snd (entry k x)) kvs)
     else \<exists>c s a xs b ys. t' = CNode c [s] [CLeaf a xs, CLeaf b ys] \<and>
       upsert (fst (entry k x)) (snd (entry k x)) kvs = xs @ ys \<and>
       (free_list (write_lock st) \<noteq> [] \<longrightarrow> a = last (free_list (write_lock st)))"
proof -
  have kv: "length (fst (entry k x)) + length (snd (entry k x)) \<le> max_kv_size 64"
    by (simp add: entry_def max_kv_size_def INTERNAL_HEADER_def)
  have "run_reach 64 (Suc n) < 2 ^ 64"
    using assms(4) by (intro run_reach_64) (simp_all add: page_size_ok_def)
  then have lim: "run_reach 64 (Suc n) < 2 ^ 64" "run_reach 64 (Suc n) \<le> 2 ^ 64" by simp_all
  have reach: "put_reach 64 0 (write_lock st) < 2 ^ 64" "put_reach 64 0 (write_lock st) \<le> 2 ^ 64"
    using within_run_reach [OF st(3)] lim by linarith+
  obtain st1 t1 h1 where 1: "engine_put memory_ops st (fst (entry k x)) (snd (entry k x)) = Some (Inr (), st1)"
    "page_size memory_ops (store_io st1) = 64" "within_run 64 (Suc n) h1 (write_lock st1)"
    by (rule mem.put_within [OF st(1-3) kv lim])
  obtain st' h' t' where 2: "h' \<le> 1" "engine_put memory_ops st (fst (entry k x)) (snd (entry k x)) = Some (Inr (), st')"
    "store_ok memory_ops memory_inv h' t' st'" "readers st' = readers st"
    "readers st = 0 \<Longrightarrow> free_list (write_lock st') \<noteq> [] \<and> last (free_list (write_lock st')) = root st"
    "if 11 + length (enc_entries (upsert (fst (entry k x)) (snd (entry k x)) kvs)) \<le> 64
     then \<exists>j. t' = CLeaf j (upsert (fst (entry k x)) (snd (entry k x)) kvs)
     else \<exists>c s a xs b ys. t' = CNode c [s] [CLeaf a xs, CLeaf b ys] \<and>
       upsert (fst (entry k x)) (snd (entry k x)) kvs = xs @ ys \<and>
       (free_list (write_lock st) \<noteq> [] \<longrightarrow> a = last (free_list (write_lock st)))"
    by (rule mem.leaf_put [OF st(1), unfolded st(2), OF kv reach]) (rule that; assumption)
  have st1: "st1 = st'" using 1(1) 2(2) by simp
  have "within_run 64 (Suc n) h' (write_lock st')" using 1(3) 2(1) unfolding st1 within_run_def by simp
  then show ?thesis using that [OF 2(2,3) _ _ 2(4-6)] 1(2) unfolding st1 by blast
qed

lemma scenario_leaf_put:
  assumes st: "store_ok memory_ops memory_inv 0 (CLeaf i kvs) st" "page_size memory_ops (store_io st) = 64"
    "within_run 64 n 0 (write_lock st)" "n \<le> 10"
    and fits: "upsert (fst (entry k x)) (snd (entry k x)) kvs = kvs'" "11 + length (enc_entries kvs') \<le> 64"
  obtains st' j where "engine_put memory_ops st (fst (entry k x)) (snd (entry k x)) = Some (Inr (), st')"
    "store_ok memory_ops memory_inv 0 (CLeaf j kvs') st'" "page_size memory_ops (store_io st') = 64"
    "within_run 64 (Suc n) 0 (write_lock st')" "readers st' = readers st"
    "readers st = 0 \<Longrightarrow> free_list (write_lock st') \<noteq> [] \<and> last (free_list (write_lock st')) = root st"
proof -
  obtain st' h' t' where 1: "engine_put memory_ops st (fst (entry k x)) (snd (entry k x)) = Some (Inr (), st')"
    "store_ok memory_ops memory_inv h' t' st'" "page_size memory_ops (store_io st') = 64"
    "within_run 64 (Suc n) h' (write_lock st')" "readers st' = readers st"
    "readers st = 0 \<Longrightarrow> free_list (write_lock st') \<noteq> [] \<and> last (free_list (write_lock st')) = root st"
    "\<exists>j. t' = CLeaf j kvs'"
    using scenario_put [OF st, of k x] fits by (simp only: if_True) blast
  then obtain j where j: "t' = CLeaf j kvs'" by blast
  then have "h' = 0" using 1(2) by (simp add: store_ok_def tree_ok_def)
  then show ?thesis using that [of st' j] 1 j by blast
qed

text \<open>The last entry of a leaf that splits goes right.\<close>

lemma last_goes_right:
  assumes "sized 64 (CNode c [s] [CLeaf a xs, CLeaf b ys])" "ordered None None (CNode c [s] [CLeaf a xs, CLeaf b ys])"
    and "kvs @ [(k, v)] = xs @ ys" "sorted_keys (map fst (kvs @ [(k, v)]))" "64 < 11 + length (enc_entries (kvs @ [(k, v)]))"
  shows "k \<notin> fst ` set xs" "leaf_small xs" "sorted_keys (map fst xs)"
proof -
  have "ys \<noteq> []" using assms(1,3,5) by auto
  then obtain zs where zs: "ys = zs @ [(k, v)]" using assms(3) by (metis append_is_Nil_conv last_appendR last_snoc append_butlast_last_id)
  then have "kvs = xs @ zs" using assms(3) by simp
  then show "k \<notin> fst ` set xs" using assms(4) by (auto simp: sorted_wrt_append)
  show "leaf_small xs" "sorted_keys (map fst xs)" using assms(1,2) by simp_all
qed

lemma search_result_missing: "k \<notin> set ks \<Longrightarrow> \<exists>idx. search_result ks k = Inl idx"
  unfolding search_result_def Let_def by (metis nth_mem)

text \<open>The first three puts.\<close>

lemma scenario_start:
  obtains st0 st m j where "engine_in_memory 64 = Some st0"
    "(staged_step memory_ops)\<^sup>*\<^sup>* (start st0) ((start st0)\<lparr>shared := st, published := m\<rparr>)"
    "m [4] = Some (replicate 11 4)" "readers st = 0"
    "store_ok memory_ops memory_inv 0 (CLeaf j [entry 1 1, entry 2 2, entry 4 4]) st"
    "page_size memory_ops (store_io st) = 64" "within_run 64 3 0 (write_lock st)"
proof -
  have ok: "page_size_ok 64" by (simp add: page_size_ok_def)
  obtain st0 where st0: "engine_in_memory 64 = Some st0" "store_ok memory_ops memory_inv 0 (CLeaf 1 []) st0"
    "fresh_writer (write_lock st0)" "readers st0 = 0" "page_size memory_ops (store_io st0) = 64"
    by (rule engine_in_memory_ok [OF ok])
  have w0: "within_run 64 0 0 (write_lock st0)" using st0(3) by (simp add: within_run_def fresh_writer_def)
  let ?k1 = "[entry 1 1]" and ?k2 = "[entry 1 1, entry 2 2]" and ?k3 = "[entry 1 1, entry 2 2, entry 4 4]"
  have u: "upsert (fst (entry 1 1)) (snd (entry 1 1)) [] = ?k1" "upsert (fst (entry 2 2)) (snd (entry 2 2)) ?k1 = ?k2"
    "upsert (fst (entry 4 4)) (snd (entry 4 4)) ?k2 = ?k3"
    by (simp_all add: entry_def)
  have l: "11 + length (enc_entries ?k1) \<le> 64" "11 + length (enc_entries ?k2) \<le> 64" "11 + length (enc_entries ?k3) \<le> 64"
    by (simp_all add: entry_def length_enc_entry)
  obtain st1 j1 where st1: "engine_put memory_ops st0 (fst (entry 1 1)) (snd (entry 1 1)) = Some (Inr (), st1)"
    "store_ok memory_ops memory_inv 0 (CLeaf j1 ?k1) st1" "page_size memory_ops (store_io st1) = 64"
    "within_run 64 (Suc 0) 0 (write_lock st1)" "readers st1 = readers st0"
    by (rule scenario_leaf_put [OF st0(2,5) w0 _ u(1) l(1)]) simp_all
  obtain st2 j2 where st2: "engine_put memory_ops st1 (fst (entry 2 2)) (snd (entry 2 2)) = Some (Inr (), st2)"
    "store_ok memory_ops memory_inv 0 (CLeaf j2 ?k2) st2" "page_size memory_ops (store_io st2) = 64"
    "within_run 64 (Suc (Suc 0)) 0 (write_lock st2)" "readers st2 = readers st1"
    by (rule scenario_leaf_put [OF st1(2-4) _ u(2) l(2)]) simp_all
  obtain st3 j3 where st3: "engine_put memory_ops st2 (fst (entry 4 4)) (snd (entry 4 4)) = Some (Inr (), st3)"
    "store_ok memory_ops memory_inv 0 (CLeaf j3 ?k3) st3" "page_size memory_ops (store_io st3) = 64"
    "within_run 64 (Suc (Suc (Suc 0))) 0 (write_lock st3)" "readers st3 = readers st2"
    by (rule scenario_leaf_put [OF st2(2-4) _ u(3) l(3)]) simp_all
  let ?m = "[fst (entry 1 1) \<mapsto> snd (entry 1 1), fst (entry 2 2) \<mapsto> snd (entry 2 2), fst (entry 4 4) \<mapsto> snd (entry 4 4)]"
  let ?s = "\<lambda>st m. (start st0)\<lparr>shared := st, published := m\<rparr>"
  have "(staged_step memory_ops)\<^sup>*\<^sup>* (start st0) (?s st1 [fst (entry 1 1) \<mapsto> snd (entry 1 1)])"
    using staged_put [of memory_ops "start st0", OF _ _] st1(1) by (simp add: start_def)
  also have "(staged_step memory_ops)\<^sup>*\<^sup>* \<dots> (?s st2 [fst (entry 1 1) \<mapsto> snd (entry 1 1), fst (entry 2 2) \<mapsto> snd (entry 2 2)])"
    using staged_put [of memory_ops "?s st1 [fst (entry 1 1) \<mapsto> snd (entry 1 1)]"] st2(1) by (simp add: start_def)
  also have "(staged_step memory_ops)\<^sup>*\<^sup>* \<dots> (?s st3 ?m)"
    using staged_put [of memory_ops "?s st2 [fst (entry 1 1) \<mapsto> snd (entry 1 1), fst (entry 2 2) \<mapsto> snd (entry 2 2)]"] st3(1)
    by (simp add: start_def)
  finally have run: "(staged_step memory_ops)\<^sup>*\<^sup>* (start st0) (?s st3 ?m)" .
  have "?m [4] = Some (replicate 11 4)" "readers st3 = 0" "within_run 64 3 0 (write_lock st3)"
    using st0(4) st1(5) st2(5) st3(4,5) by (simp_all add: entry_def numeral_3_eq_3)
  then show ?thesis using that [OF st0(1) run _ _ st3(2,3)] by blast
qed

text \<open>The put that splits the leaf overwrites the page freed last with the left half.\<close>

lemma scenario_split:
  assumes st: "store_ok memory_ops memory_inv 0 (CLeaf i kvs) st" "page_size memory_ops (store_io st) = 64"
    "within_run 64 n 0 (write_lock st)" "n \<le> 10"
    and u: "upsert (fst (entry k x)) (snd (entry k x)) kvs = kvs' @ [(last_k, v)]"
    and big: "64 < 11 + length (enc_entries (kvs' @ [(last_k, v)]))" "sorted_keys (map fst (kvs' @ [(last_k, v)]))"
    and free: "free_list (write_lock st) \<noteq> []"
  obtains st' xs where "engine_put memory_ops st (fst (entry k x)) (snd (entry k x)) = Some (Inr (), st')"
    "guard_read memory_ops st' (last (free_list (write_lock st))) =
       Some (Leaf (mk_leaf (last (free_list (write_lock st))) xs))"
    "last_k \<notin> fst ` set xs" "leaf_small xs" "sorted_keys (map fst xs)"
proof -
  let ?a = "last (free_list (write_lock st))"
  have split: "(if 11 + length (enc_entries (upsert (fst (entry k x)) (snd (entry k x)) kvs)) \<le> 64 then P else Q) = Q" for P Q
    using u big(1) by simp
  obtain st' h' t' where st': "engine_put memory_ops st (fst (entry k x)) (snd (entry k x)) = Some (Inr (), st')"
    "store_ok memory_ops memory_inv h' t' st'" "page_size memory_ops (store_io st') = 64"
    "\<exists>c s a xs b ys. t' = CNode c [s] [CLeaf a xs, CLeaf b ys] \<and>
       upsert (fst (entry k x)) (snd (entry k x)) kvs = xs @ ys \<and> (free_list (write_lock st) \<noteq> [] \<longrightarrow> a = ?a)"
    by (rule scenario_put [OF st, of k x, unfolded split]) (rule that; assumption)
  from st'(4) free obtain c s xs b ys where t': "t' = CNode c [s] [CLeaf ?a xs, CLeaf b ys]" "kvs' @ [(last_k, v)] = xs @ ys"
    unfolding u by blast
  have tree: "sized 64 t'" "ordered None None t'" "rep (guard_read memory_ops st') t'"
    using st'(2,3) by (simp_all add: store_ok_def tree_ok_def)
  show ?thesis
    by (rule that [OF st'(1) _ last_goes_right [OF tree(1,2) [unfolded t'(1)] t'(2) big(2,1)]]) (use tree(3) t'(1) in simp)
qed

text \<open>The reader of 4 looks into the left half and gives up.\<close>

lemma reader_gives_up:
  assumes "pcs s 0 = Rooted k i" "guard_read ops (shared s) i = Some (Leaf (mk_leaf i xs))"
    and "k \<notin> fst ` set xs" "leaf_small xs" "sorted_keys (map fst xs)"
  shows "(staged_step ops)\<^sup>*\<^sup>* s (s\<lparr>pcs := (pcs s)(0 := Answered k None)\<rparr>)"
proof -
  let ?s1 = "s\<lparr>pcs := (pcs s)(0 := At k (Leaf (mk_leaf i xs)))\<rparr>"
  have "leaf_search (mk_leaf i xs) k = Some (search_result (map fst xs) k)"
    using assms(4,5) by (rule leaf_search_mk)
  moreover obtain idx where "search_result (map fst xs) k = Inl idx"
    using search_result_missing [of k "map fst xs"] assms(3) by auto
  ultimately have missing: "leaf_search (mk_leaf i xs) k = Some (Inl idx)" by simp
  have "(staged_step ops)\<^sup>*\<^sup>* s ?s1"
    by (intro staged_read1 read_step.read_root [of _ _ _ i]) (use assms(1,2) in simp_all)
  also have "(staged_step ops)\<^sup>*\<^sup>* ?s1 (?s1\<lparr>pcs := (pcs ?s1)(0 := Answered k None)\<rparr>)"
    by (intro staged_read1 read_step.missing [of _ _ _ "mk_leaf i xs"]) (use missing in simp_all)
  finally show ?thesis by simp
qed

lemma reader_overtaken_run:
  obtains st0 s where "engine_in_memory 64 = Some st0" "(staged_step memory_ops)\<^sup>*\<^sup>* (start st0) s"
    "pcs s 0 = Answered [4] None" "snap s 0 [4] = Some (replicate 11 4)" "published s [4] = Some (replicate 11 4)"
proof -
  obtain st0 st3 m j3 where start: "engine_in_memory 64 = Some st0"
    "(staged_step memory_ops)\<^sup>*\<^sup>* (start st0) ((start st0)\<lparr>shared := st3, published := m\<rparr>)"
    and m: "m [4] = Some (replicate 11 4)" and r3: "readers st3 = 0"
    and st3: "store_ok memory_ops memory_inv 0 (CLeaf j3 [entry 1 1, entry 2 2, entry 4 4]) st3"
      "page_size memory_ops (store_io st3) = 64" "within_run 64 3 0 (write_lock st3)"
    by (rule scenario_start)
  let ?k4 = "[entry 1 9, entry 2 2, entry 4 4]" and ?xs = "[entry 1 9, entry 2 2, entry 3 3]"
  have n: "(3 :: nat) \<le> 10" "Suc 3 \<le> 10" by simp_all
  have u: "upsert (fst (entry 1 9)) (snd (entry 1 9)) [entry 1 1, entry 2 2, entry 4 4] = ?k4"
    "upsert (fst (entry 3 3)) (snd (entry 3 3)) ?k4 = ?xs @ [([4], replicate 11 4)]"
    by (simp_all add: entry_def)
  have l: "11 + length (enc_entries ?k4) \<le> 64" "64 < 11 + length (enc_entries (?xs @ [([4], replicate 11 4)]))"
    "sorted_keys (map fst (?xs @ [([4], replicate 11 4)]))"
    by (simp_all add: entry_def length_enc_entry)
  obtain st4 j4 where st4: "engine_put memory_ops st3 (fst (entry 1 9)) (snd (entry 1 9)) = Some (Inr (), st4)"
    "store_ok memory_ops memory_inv 0 (CLeaf j4 ?k4) st4" "page_size memory_ops (store_io st4) = 64"
    "within_run 64 (Suc 3) 0 (write_lock st4)"
    and free: "readers st3 = 0 \<Longrightarrow> free_list (write_lock st4) \<noteq> [] \<and> last (free_list (write_lock st4)) = root st3"
    by (rule scenario_leaf_put [OF st3 n(1) u(1) l(1)]) (rule that; assumption)
  let ?st4 = "st4\<lparr>readers := 1\<rparr>"
  have ok4: "store_ok memory_ops memory_inv 0 (CLeaf j4 ?k4) ?st4" "page_size memory_ops (store_io ?st4) = 64"
    "within_run 64 (Suc 3) 0 (write_lock ?st4)"
    using st4(2-4) by simp_all
  obtain st5 xs where st5: "engine_put memory_ops ?st4 (fst (entry 3 3)) (snd (entry 3 3)) = Some (Inr (), st5)"
    "guard_read memory_ops st5 (root st3) = Some (Leaf (mk_leaf (root st3) xs))"
    "[4] \<notin> fst ` set xs" "leaf_small xs" "sorted_keys (map fst xs)"
    by (rule scenario_split [OF ok4 n(2) u(2) l(2,3)]) (use free r3 in simp_all)
  let ?s3 = "(start st0)\<lparr>shared := st3, published := m\<rparr>"
  let ?s4 = "?s3\<lparr>shared := ?st4, published := m(fst (entry 1 9) \<mapsto> snd (entry 1 9)),
    pcs := (pcs ?s3)(0 := Rooted [4] (root st3)), snap := (snap ?s3)(0 := m)\<rparr>"
  let ?s5 = "?s4\<lparr>shared := st5, published := (published ?s4)(fst (entry 3 3) \<mapsto> snd (entry 3 3))\<rparr>"
  note start(2)
  also have "(staged_step memory_ops)\<^sup>*\<^sup>* ?s3 ?s4"
    using staged_put_with_reader [of memory_ops ?s3 _ _ st4 0 "[4]"] st4(1) r3 by (simp add: start_def)
  also have "(staged_step memory_ops)\<^sup>*\<^sup>* ?s4 ?s5"
    by (rule staged_put) (use st5(1) in \<open>simp_all add: start_def\<close>)
  also have "(staged_step memory_ops)\<^sup>*\<^sup>* ?s5 (?s5\<lparr>pcs := (pcs ?s5)(0 := Answered [4] None)\<rparr>)"
    by (rule reader_gives_up [of _ _ "root st3" _ xs]) (use st5(2-5) in simp_all)
  finally show ?thesis using that [OF start(1)] m by (simp add: entry_def)
qed

section \<open>Properties\<close>

text \<open>C12. The gate of the commit is not enough: with the stages of a commit interleaved with the steps of readers
  as the code allows, there is a run, from a new engine, in which a lookup answers that a key is missing
  although the key was in the store when the reader entered and has been ever since. The reader loads the
  old root between the gate, which counts no reader, and the publication of the new root; the next put
  takes the old root's page from the free list and writes a leaf there that does not cover the key.\<close>

theorem reader_overtaken:
  "\<exists>st0 s. engine_in_memory 64 = Some st0 \<and> (staged_step memory_ops)\<^sup>*\<^sup>* (start st0) s \<and>
     pcs s 0 = Answered [4] None \<and> snap s 0 [4] = Some (replicate 11 4) \<and> published s [4] = Some (replicate 11 4)"
  by (rule reader_overtaken_run) blast

end
