(* ===== verification/Flat.thy ===== *)
theory Flat
  imports Test_Support Race
begin

text \<open>
  Puts that keep the tree a single leaf, on any backend: few different keys, and entries so short that a
  page holds all of them.
\<close>

lemma leaf_root:
  assumes "store_ok ops io_ok h t st" "store_ok ops io_ok h' (CLeaf j es) st"
  obtains i es' where "t = CLeaf i es'" "h = 0"
proof (cases t)
  case (CLeaf i es')
  then show ?thesis using that assms(1) by (simp add: store_ok_def tree_ok_def)
next
  case (CNode i ks ts)
  then have False using assms by (auto simp: store_ok_def tree_ok_def)
  then show ?thesis ..
qed

text \<open>A leaf with keys of \<open>K\<close> only and entries of at most \<open>m\<close> bytes.\<close>

definition leaf_of :: "key set \<Rightarrow> nat \<Rightarrow> ctree \<Rightarrow> bool" where
  "leaf_of K m t \<longleftrightarrow> (\<exists>i es. t = CLeaf i es \<and> (\<forall>p \<in> set es. fst p \<in> K \<and> length (fst p) + length (snd p) \<le> m))"

lemma leaf_bytes:
  assumes "sorted_keys (map fst es)" "finite K" "\<forall>p \<in> set es. fst p \<in> K \<and> length (fst p) + length (snd p) \<le> m"
  shows "length (enc_entries es) \<le> (4 + m) * card K"
proof -
  have "distinct (map fst es)" using assms(1) by (simp add: strict_sorted_iff)
  then have "length es = card (fst ` set es)" using distinct_card by fastforce
  also have "\<dots> \<le> card K" using assms(2,3) by (intro card_mono) auto
  finally have "(4 + m) * length es \<le> (4 + m) * card K" by simp
  moreover have "length (enc_entries es) \<le> (4 + m) * length es" using assms(3) by (intro length_enc_entries_le) blast
  ultimately show ?thesis by linarith
qed

context page_backend
begin

lemma leaf_stays:
  assumes st: "store_ok ops inv 0 t st" "page_size ops (store_io st) = ps" and leaf: "leaf_of K m t"
    and K: "finite K" "11 + (4 + m) * card K \<le> ps" "m \<le> max_kv_size ps"
    and kv: "k \<in> K" "length k + length v \<le> m"
    and reach: "put_reach ps 0 (write_lock st) < 2 ^ 64" "put_reach ps 0 (write_lock st) \<le> limit (store_io st)"
    and put: "engine_put ops st k v = Some (Inr (), st1)" and ok1: "store_ok ops inv h1 t1 st1"
    and c1: "contents t1 = upsert k v (contents t)"
  shows "h1 = 0 \<and> leaf_of K m t1"
proof -
  obtain i es where t: "t = CLeaf i es" and es: "\<forall>p \<in> set es. fst p \<in> K \<and> length (fst p) + length (snd p) \<le> m"
    using leaf by (auto simp: leaf_of_def)
  let ?u = "upsert k v es"
  have u: "\<forall>p \<in> set ?u. fst p \<in> K \<and> length (fst p) + length (snd p) \<le> m"
    using es kv set_upsert [of k v es] by fastforce
  have "sorted_keys (map fst es)" using st(1) t by (simp add: store_ok_def tree_ok_def)
  then have "length (enc_entries ?u) \<le> (4 + m) * card K" by (intro leaf_bytes [OF _ K(1) u] sorted_upsert)
  then have fits: "11 + length (enc_entries ?u) \<le> ps" using K(2) by linarith
  have small: "length k + length v \<le> max_kv_size ps" using kv(2) K(3) by simp
  obtain st2 h2 j where 2: "engine_put ops st k v = Some (Inr (), st2)" "store_ok ops inv h2 (CLeaf j ?u) st2"
    by (rule leaf_put [OF st(1) [unfolded t], unfolded st(2), OF small reach]) (use fits in auto)
  have same: "st2 = st1" using 2(1) put by simp
  obtain i1 es1 where t1: "t1 = CLeaf i1 es1" "h1 = 0" using leaf_root [OF ok1 2(2) [unfolded same]] .
  then show ?thesis using u c1 t by (simp add: leaf_of_def)
qed

end

end
