(* ===== verification/Lone_Leaf.thy ===== *)
theory Lone_Leaf
  imports Racing Flat
begin

text \<open>
  A store whose tree is a single leaf, with readers beside the stages of its commits, racing readers
  included. The race is there, but what a reader overtaken by a commit finds in its page is a newer root:
  a page that has been the root is only ever written as a root again. So every lookup of a key that is
  always present finds a value that has been put for it, and none fails. The small trees of the
  concurrent test in \<open>src/01-btree/tests/concurrency.rs\<close> are such stores.
\<close>

section \<open>A leaf that holds the keys\<close>

text \<open>Entries for exactly the keys \<open>K\<close>, of at most \<open>m\<close> bytes, with values that satisfy \<open>Q\<close>.\<close>

definition whole :: "key set \<Rightarrow> (val \<Rightarrow> bool) \<Rightarrow> nat \<Rightarrow> (key \<times> val) list \<Rightarrow> bool" where
  "whole K Q m es \<longleftrightarrow> leaf_small es \<and> sorted_keys (map fst es) \<and> fst ` set es = K \<and>
     (\<forall>p \<in> set es. Q (snd p) \<and> length (fst p) + length (snd p) \<le> m)"

definition whole_page :: "'io page_io \<Rightarrow> 'io store \<Rightarrow> key set \<Rightarrow> (val \<Rightarrow> bool) \<Rightarrow> nat \<Rightarrow> page_id \<Rightarrow> bool" where
  "whole_page ops st K Q m i \<longleftrightarrow> (\<exists>es. guard_read ops st i = Some (Leaf (mk_leaf i es)) \<and> whole K Q m es)"

lemma mk_leaf_entries:
  assumes "leaf_small xs" "leaf_small ys" "mk_leaf i xs = mk_leaf j ys"
  shows "xs = ys"
proof (rule nth_equalityI)
  show len: "length xs = length ys" using mk_leaf_inject [OF assms(1,2)] assms(3) by (metis length_offsets mk_leaf_simps(3) nat.inject)
  fix n assume "n < length xs"
  then show "xs ! n = ys ! n"
    using leaf_get_key_mk [of xs n i] leaf_get_val_mk [of xs n i] leaf_get_key_mk [of ys n j] leaf_get_val_mk [of ys n j]
      assms len by (auto intro: prod_eqI)
qed

lemma whole_upsert:
  assumes "whole K Q m es" "k \<in> K" "Q v" "length k + length v \<le> m" "finite K" "11 + (4 + m) * card K \<le> ps" "ps < 65536"
  shows "whole K Q m (upsert k v es)" "11 + length (enc_entries (upsert k v es)) \<le> ps"
proof -
  have all: "\<forall>p \<in> set (upsert k v es). Q (snd p) \<and> length (fst p) + length (snd p) \<le> m"
    using assms(1-4) set_upsert [of k v es] by (fastforce simp: whole_def)
  have sorted: "sorted_keys (map fst (upsert k v es))" using assms(1) by (simp add: whole_def sorted_upsert)
  have K: "fst ` set (upsert k v es) = K" using assms(1,2) by (auto simp: whole_def fst_set_upsert)
  have "length (enc_entries (upsert k v es)) \<le> (4 + m) * card K"
    using all K by (intro leaf_bytes [OF sorted assms(5)]) auto
  then show fits: "11 + length (enc_entries (upsert k v es)) \<le> ps" using assms(6) by linarith
  then show "whole K Q m (upsert k v es)" using all sorted K assms(7) by (simp add: whole_def leaf_small_def)
qed

section \<open>What the stages write\<close>

context page_backend
begin

lemma write_chain_frame:
  "write_chain ops ps pids payload cap needed is io = Some io' \<Longrightarrow> inv io \<Longrightarrow>
    evolves io io' \<and> (\<forall>j b. j \<notin> set pids \<longrightarrow> read_page ops io j = Some b \<longrightarrow> read_page ops io' j = Some b)"
proof (induction "is" arbitrary: io)
  case (Cons i "is")
  then obtain pid bs io1 where 1: "elem_at pids i = Some pid" "write_page ops io pid bs = Some io1"
    "write_chain ops ps pids payload cap needed is io1 = Some io'"
    by (auto simp: bind_eq_Some_conv)
  then have "pid \<in> set pids" by (auto simp: elem_at_def split: if_splits)
  then have "read_page ops io1 j = Some b" if "j \<notin> set pids" "read_page ops io j = Some b" for j b
    using write_other [OF Cons.prems(2) 1(2)] that by metis
  moreover have "evolves io io1" by (rule write_evolves [OF Cons.prems(2) 1(2)])
  ultimately show ?case using Cons.IH [OF 1(3)] evolves_facts(1) evolves_trans by blast
qed (simp add: evolves_refl)

lemma commit_metadata_frame:
  assumes "commit_metadata ops tx r = Some tx'" "inv (store_io (txn_store tx))"
  shows "evolves (store_io (txn_store tx)) (store_io (txn_store tx'))" "unat (next_page_id (guard tx)) \<le> unat (next_page_id (guard tx'))"
    "i \<in> set (free_list_page_ids (guard tx')) \<Longrightarrow> i \<in> set (free_list_page_ids (guard tx)) \<or> unat (next_page_id (guard tx)) \<le> unat i"
    "j \<noteq> HEADER_PAGE_ID \<Longrightarrow> j \<notin> set (free_list_page_ids (guard tx')) \<Longrightarrow> guard_read ops (txn_store tx) j = Some pg \<Longrightarrow>
      guard_read ops (txn_store tx') j = Some pg"
proof -
  obtain head n tx2 hb io2 where 1: "persist_free_list ops tx = Some (head, n, tx2)"
    "write_page ops (store_io (txn_store tx2)) HEADER_PAGE_ID hb = Some io2"
    and io3: "sync ops io2 = Some (store_io (txn_store tx'))" "guard tx' = guard tx2"
    using assms(1) by (auto simp: commit_metadata_def Let_def bind_eq_Some_conv guard_def)
  obtain ps payload cap needed "is" where 2: "extend_chain needed (guard tx) = Some (guard tx2)"
    "write_chain ops ps (free_list_page_ids (guard tx2)) payload cap needed is (store_io (txn_store tx)) = Some (store_io (txn_store tx2))"
    using 1(1) by (auto simp: persist_free_list_def Let_def bind_eq_Some_conv guard_def)
  note chain = write_chain_frame [OF 2(2) assms(2)]
  have inv1: "inv (store_io (txn_store tx2))" using chain evolves_facts(1) by blast
  have ev2: "evolves (store_io (txn_store tx)) io2" using chain write_evolves [OF inv1 1(2)] evolves_trans by blast
  then have same: "store_io (txn_store tx') = io2" using sync_id [OF evolves_facts(1)] io3(1) by simp
  show "evolves (store_io (txn_store tx)) (store_io (txn_store tx'))" using ev2 same by simp
  show "unat (next_page_id (guard tx)) \<le> unat (next_page_id (guard tx'))"
    "i \<in> set (free_list_page_ids (guard tx')) \<Longrightarrow> i \<in> set (free_list_page_ids (guard tx)) \<or> unat (next_page_id (guard tx)) \<le> unat i"
    using extend_chain_grows [OF 2(1)] io3(2) by auto
  show "guard_read ops (txn_store tx') j = Some pg" if "j \<noteq> HEADER_PAGE_ID" "j \<notin> set (free_list_page_ids (guard tx'))"
    "guard_read ops (txn_store tx) j = Some pg"
    using that chain write_other [OF inv1 1(2)] same io3(2) by (auto simp: guard_read_def bind_eq_Some_conv)
qed

lemma flush_writes_frame:
  assumes "flush_writes ops tx = Some tx'" "inv (store_io (txn_store tx))"
  shows "evolves (store_io (txn_store tx)) (store_io (txn_store tx'))" "guard tx' = guard tx"
    "txn_read ops tx j = Some pg \<Longrightarrow> guard_read ops (txn_store tx') j = Some pg"
proof -
  obtain io where io: "write_pages ops (store_io (txn_store tx)) (writes tx) = Some io"
    "tx' = tx\<lparr>txn_store := (txn_store tx)\<lparr>store_io := io\<rparr>\<rparr>"
    using assms(1) by (auto simp: flush_writes_def bind_eq_Some_conv)
  show "evolves (store_io (txn_store tx)) (store_io (txn_store tx'))"
    using write_pages_evolves [OF assms(2) io(1)] io(2) by simp
  show "guard tx' = guard tx" using io(2) by (simp add: guard_def)
  assume rd: "txn_read ops tx j = Some pg"
  show "guard_read ops (txn_store tx') j = Some pg"
  proof (cases "map_of (rev (writes tx)) j")
    case None
    then have "j \<notin> fst ` set (writes tx)" by (simp add: map_of_eq_None_iff)
    then show ?thesis using rd None write_pages_other [OF assms(2) io(1)] io(2)
      by (auto simp: txn_read_alt guard_read_def bind_eq_Some_conv)
  next
    case (Some b)
    then show ?thesis using rd write_pages_last [OF assms(2) io(1) Some] io(2)
      by (auto simp: txn_read_alt guard_read_def bind_eq_Some_conv)
  qed
qed

text \<open>The buffered write of a put that leaves the tree a leaf.\<close>

lemma prepared_leaf:
  assumes st: "store_ok ops inv 0 (CLeaf i es) st" and cap: "capacity ops limit st"
    and kv: "length k + length v \<le> max_kv_size (page_size ops (store_io st))"
    and fits: "11 + length (enc_entries (upsert k v es)) \<le> page_size ops (store_io st)"
    and put: "put_prepared ops (begin_write st) k v = Some (r, tx)"
  shows "fst ` set (writes tx) \<subseteq> {r}" "txn_read ops tx r = Some (Leaf (mk_leaf r (upsert k v es)))"
    "store_io (txn_store tx) = store_io st" "root (txn_store tx) = root st"
    "free_list_page_ids (guard tx) = free_list_page_ids (write_lock st)"
    "unat (next_page_id (write_lock st)) \<le> unat (next_page_id (guard tx))"
    "r \<noteq> 0" "r \<notin> set (free_list_page_ids (guard tx))" "unat r < unat (next_page_id (guard tx))"
    "unat (next_page_id (guard tx)) \<le> Suc (unat (next_page_id (write_lock st)))"
    "length (free_list (guard tx)) \<le> length (free_list (write_lock st))"
    "pending_free (guard tx) = pending_free (write_lock st)" "length (freed tx) = 1"
proof -
  note reach = put_reach_of_capacity [OF st cap]
  have pool: "pool_ok (ids (CLeaf i es) @ pending_free (write_lock st) @ free_list_page_ids (write_lock st)) (write_lock st)"
    using st by (simp add: store_ok_def)
  obtain tx' A F t' h' where 1: "put_prepared ops (begin_write st) k v = Some (tid t', tx')"
    "prepared ops 0 (CLeaf i es) st A F h' t' tx'" "contents t' = upsert k v es"
    by (rule store_put_prepared [OF st kv reach(1), unfolded contents.simps]) (rule that; assumption)
  have tx: "tx' = tx" "tid t' = r" using 1(1) put by simp_all
  obtain tx2 st2 where 2: "commit ops tx r = Some tx2" "txn_store tx2 = st2" "store_ok ops inv h' t' st2"
    by (rule commit_prepared [OF st reach 1(2), unfolded tx]) (rule that; assumption)
  have p2: "engine_put ops st k v = Some (Inr (), st2)" using engine_put_prepared [OF put 2(1) kv] 2(2) by simp
  obtain st3 h3 j where 3: "engine_put ops st k v = Some (Inr (), st3)" "store_ok ops inv h3 (CLeaf j (upsert k v es)) st3"
    by (rule leaf_put [OF st kv reach]) (use fits in auto)
  have "st3 = st2" using p2 3(1) by simp
  then obtain i2 es2 where t': "t' = CLeaf i2 es2" using leaf_root [OF 2(3)] 3(2) by metis
  then have t': "t' = CLeaf r (upsert k v es)" using 1(3) tx(2) by simp
  note ready = prepared_ready [OF 1(2) pool, unfolded tx(1)]
  show "fst ` set (writes tx) \<subseteq> {r}" using ready(12,13) t' by fastforce
  show "txn_read ops tx r = Some (Leaf (mk_leaf r (upsert k v es)))"
    using 1(2) t' tx(1) by (simp add: prepared_def)
  show "store_io (txn_store tx) = store_io st" "root (txn_store tx) = root st"
    "free_list_page_ids (guard tx) = free_list_page_ids (write_lock st)"
    "unat (next_page_id (write_lock st)) \<le> unat (next_page_id (guard tx))" using ready by simp_all
  have ext: "txn_ext ops A F (begin_write st) tx" and F: "length F = 1"
    and ms: "mset (ids t') + mset F = mset (ids (CLeaf i es)) + mset A"
    using 1(2) tx(1) by (simp_all add: prepared_def)
  have "size (mset (ids t') + mset F) = size (mset (ids (CLeaf i es)) + mset A)" using ms by simp
  then have "length A = 1" using t' F by simp
  then show "unat (next_page_id (guard tx)) \<le> Suc (unat (next_page_id (write_lock st)))"
    using txn_ext_frame(10) [OF ext] by (simp add: begin_write_def guard_def)
  show "length (free_list (guard tx)) \<le> length (free_list (write_lock st))"
    "pending_free (guard tx) = pending_free (write_lock st)" "length (freed tx) = 1" using ready(5,6,10) F by simp_all
  show "r \<noteq> 0" "r \<notin> set (free_list_page_ids (guard tx))" "unat r < unat (next_page_id (guard tx))"
    using ready(11) t' by (auto simp: pool_ok_def)
qed

end
section \<open>The invariant\<close>

text \<open>
  \<open>L\<close> are the pages that have been the root while readers could be inside. All of them hold the keys \<open>K\<close>
  with good values; the chain of the free list is elsewhere.
\<close>

fun reader_whole :: "key set \<Rightarrow> (val \<Rightarrow> bool) \<Rightarrow> nat \<Rightarrow> page_id set \<Rightarrow> reader_pc \<Rightarrow> bool" where
  "reader_whole K Q m L Outside \<longleftrightarrow> True"
| "reader_whole K Q m L (Entered k) \<longleftrightarrow> True"
| "reader_whole K Q m L (Rooted k r) \<longleftrightarrow> r \<in> L"
| "reader_whole K Q m L (At k pg) \<longleftrightarrow> (\<exists>i es. pg = Leaf (mk_leaf i es) \<and> whole K Q m es)"
| "reader_whole K Q m L (Answered k v) \<longleftrightarrow> (k \<in> K \<longrightarrow> (\<exists>x. v = Some x \<and> Q x))"

definition whole_pages :: "'io page_io \<Rightarrow> key set \<Rightarrow> (val \<Rightarrow> bool) \<Rightarrow> nat \<Rightarrow> page_id set \<Rightarrow> 'io store \<Rightarrow> bool" where
  "whole_pages ops K Q m L st \<longleftrightarrow> (\<forall>i \<in> L. whole_page ops st K Q m i \<and> i \<noteq> 0 \<and>
     i \<notin> set (free_list_page_ids (write_lock st)) \<and> unat i < unat (next_page_id (write_lock st)))"

fun writer_whole :: "'io page_io \<Rightarrow> key set \<Rightarrow> (val \<Rightarrow> bool) \<Rightarrow> nat \<Rightarrow> page_id set \<Rightarrow> 'io store \<Rightarrow> 'io writer_pc \<Rightarrow> bool" where
  "writer_whole ops K Q m L sh Idle \<longleftrightarrow> True"
| "writer_whole ops K Q m L sh (Prepared k v r tx) \<longleftrightarrow> fst ` set (writes tx) \<subseteq> {r} \<and>
     (\<exists>es. txn_read ops (on_shared sh tx) r = Some (Leaf (mk_leaf r es)) \<and> whole K Q m es) \<and>
     r \<noteq> 0 \<and> r \<notin> set (free_list_page_ids (write_lock sh)) \<and> unat r < unat (next_page_id (write_lock sh))"
| "writer_whole ops K Q m L sh (Flushed k v r tx) \<longleftrightarrow> r \<in> L"
| "writer_whole ops K Q m L sh (Gated k v r tx) \<longleftrightarrow> r \<in> L"
| "writer_whole ops K Q m L sh (Persisted k v r tx) \<longleftrightarrow> r \<in> L"

definition lone :: "'io page_io \<Rightarrow> ('io \<Rightarrow> bool) \<Rightarrow> nat \<Rightarrow> key set \<Rightarrow> (val \<Rightarrow> bool) \<Rightarrow> nat \<Rightarrow> page_id set \<Rightarrow> 'io system \<Rightarrow> bool" where
  "lone ops io_ok ps K Q m L s \<longleftrightarrow> io_ok (store_io (shared s)) \<and> page_size ops (store_io (shared s)) = ps \<and> root (shared s) \<in> L \<and> whole_pages ops K Q m L (shared s) \<and>
     (\<forall>i. reader_whole K Q m L (pcs s i)) \<and> writer_whole ops K Q m L (shared s) (writer s)"

lemma whole_pages_same: "same_store a b \<Longrightarrow> whole_pages ops K Q m L a = whole_pages ops K Q m L b"
  using same_store_facts [of a b] by (simp add: whole_pages_def whole_page_def)

lemma writer_whole_same:
  assumes "same_store a b"
  shows "writer_whole ops K Q m L a w = writer_whole ops K Q m L b w"
proof -
  note facts = same_store_facts [OF assms]
  have "txn_read ops (on_shared a tx) = txn_read ops (on_shared b tx)" for tx
    using facts(1) by (simp add: fun_eq_iff txn_read_def on_shared_def split: option.split)
  then show ?thesis using facts by (cases w) simp_all
qed

lemma reader_whole_mono: "reader_whole K Q m L pc \<Longrightarrow> L \<subseteq> L' \<Longrightarrow> reader_whole K Q m L' pc"
  by (cases pc) auto

lemma answers_whole: "lone ops io_ok ps K Q m L s \<Longrightarrow> reader_whole K Q m L (pcs s i)"
  by (simp add: lone_def)

lemma whole_answer:
  assumes "whole K Q m es"
  obtains r where "leaf_search (mk_leaf i es) k = Some r"
    "\<And>idx. r = Inl idx \<Longrightarrow> k \<notin> K"
    "\<And>idx. r = Inr idx \<Longrightarrow> \<exists>v. leaf_get_val (mk_leaf i es) idx = Some v \<and> (k \<in> K \<longrightarrow> Q v)"
proof -
  have es: "leaf_small es" "sorted_keys (map fst es)" "fst ` set es = K" "\<forall>p \<in> set es. Q (snd p)"
    using assms(1) by (simp_all add: whole_def)
  obtain r where r: "leaf_search (mk_leaf i es) k = Some r" "\<And>idx. r = Inl idx \<Longrightarrow> map_of es k = None"
    "\<And>idx. r = Inr idx \<Longrightarrow> \<exists>v. leaf_get_val (mk_leaf i es) idx = Some v \<and> map_of es k = Some v"
    by (rule leaf_found [OF es(1,2), of i k]) (rule that; assumption)
  show ?thesis
  proof (rule that [OF r(1)])
    show "k \<notin> K" if "r = Inl idx" for idx using r(2) [OF that] es(3) by (metis map_of_eq_None_iff)
    show "\<exists>v. leaf_get_val (mk_leaf i es) idx = Some v \<and> (k \<in> K \<longrightarrow> Q v)" if "r = Inr idx" for idx
      using r(3) [OF that] es(4) map_of_SomeD by fastforce
  qed
qed

lemma read_step_lone:
  assumes "read_step ops s s'" "lone ops io_ok ps K Q m L s"
  shows "lone ops io_ok ps K Q m L s'"
proof -
  have sh: "same_store (shared s') (shared s)" "writer s' = writer s"
    using read_step_frame [OF assms(1)] by (auto simp: same_store_def)
  have rd: "reader_whole K Q m L (pcs s i)" for i using assms(2) by (simp add: lone_def)
  have "reader_whole K Q m L (pcs s' j)" for j
    using assms(1)
  proof cases
    case (load_root i k)
    then show ?thesis using rd [of j] assms(2) by (simp add: lone_def)
  next
    case (read_root i k r pg)
    then have "r \<in> L" using rd [of i] by simp
    then have "whole_page ops (shared s) K Q m r" using assms(2) by (simp add: lone_def whole_pages_def)
    then show ?thesis using read_root rd [of j] by (auto simp: whole_page_def)
  next
    case (descend i k n idx c pg)
    then show ?thesis using rd [of i] by simp
  next
    case (found i k l idx v)
    obtain q es where "l = mk_leaf q es" "whole K Q m es" using rd [of i] found(2) by auto
    then have "k \<in> K \<Longrightarrow> Q v" using found(3,4) by (elim whole_answer [of K Q m es q k]) auto
    then show ?thesis using found rd [of j] by simp
  next
    case (missing i k l idx)
    obtain q es where "l = mk_leaf q es" "whole K Q m es" using rd [of i] missing(2) by auto
    then have "k \<notin> K" using missing(3) by (elim whole_answer [of K Q m es q k]) auto
    then show ?thesis using missing rd [of j] by simp
  qed (use rd [of j] in simp_all)
  then show ?thesis
    using assms(2) same_store_facts [OF sh(1)] unfolding lone_def sh(2) whole_pages_same [OF sh(1)] writer_whole_same [OF sh(1)]
    by simp
qed

context page_backend
begin

text \<open>Between commits the store is a leaf with the keys.\<close>

lemma lone_idle:
  assumes s: "lone ops inv ps K Q m L s" "staged_ok ops inv limit (at_door s)" and idle: "writer s = Idle"
  obtains i es where "store_ok ops inv 0 (CLeaf i es) (shared s)" "whole K Q m es"
proof -
  let ?st = "shared s"
  obtain h t where st: "store_ok ops inv h t ?st"
    using s(2) staged_idle [of "at_door s" ops inv limit] idle by (auto simp: system_ok_def)
  obtain es where es: "guard_read ops ?st (root ?st) = Some (Leaf (mk_leaf (root ?st) es))" "whole K Q m es"
    using s(1) by (auto simp: lone_def whole_pages_def whole_page_def)
  have "guard_read ops ?st (root ?st) = Some (mk_page (tid t) (node_of t))"
    using store_visible [OF st] visible_root by metis
  then obtain i es' where t: "t = CLeaf i es'" "mk_leaf (root ?st) es = mk_leaf i es'" using es(1) by (cases t) auto
  have "h = 0" "leaf_small es'" using st t(1) by (simp_all add: store_ok_def tree_ok_def)
  moreover from this have "es' = es" using mk_leaf_entries [OF _ _ t(2)] es(2) by (simp add: whole_def)
  ultimately show ?thesis using that st t(1) es(2) by simp
qed

lemma prepare_lone:
  assumes s: "lone ops inv ps K Q m L s" "staged_ok ops inv limit (at_door s)" and K: "finite K" "11 + (4 + m) * card K \<le> ps"
    and idle: "writer s = Idle" and cap: "capacity ops limit (shared s)"
    and kv: "length k + length v \<le> max_kv_size (page_size ops (store_io (shared s)))" "k \<in> K" "Q v" "length k + length v \<le> m"
    and put: "put_prepared ops (begin_write (shared s)) k v = Some (r, tx)"
  shows "lone ops inv ps K Q m L (s\<lparr>shared := txn_store tx, writer := Prepared k v r tx\<rparr>)"
proof -
  let ?st = "shared s"
  obtain i es where st: "store_ok ops inv 0 (CLeaf i es) ?st" and es: "whole K Q m es"
    by (rule lone_idle [OF s idle])
  have "page_size_ok (page_size ops (store_io ?st))" using st by (simp add: store_ok_def)
  then have ps: "page_size ops (store_io ?st) < 65536" "11 + (4 + m) * card K \<le> page_size ops (store_io ?st)" using page_size_bounds(2) s(1) K(2) by (fastforce simp: lone_def)+
  note up = whole_upsert [OF es kv(2-4) K(1) ps(2,1)]
  note 1 = prepared_leaf [OF st cap kv(1) up(2) put]
  have "txn_read ops (on_shared (txn_store tx) tx) r = Some (Leaf (mk_leaf r (upsert k v es)))"
    using 1(2) by (simp add: on_shared_def)
  then have "writer_whole ops K Q m L (txn_store tx) (Prepared k v r tx)"
    using 1 up(1) by (auto simp: guard_def)
  moreover have "guard_read ops (txn_store tx) = guard_read ops ?st" by (rule guard_read_cong [OF 1(3)])
  then have "whole_pages ops K Q m L (txn_store tx)"
    using s(1) 1(5,6) by (fastforce simp: lone_def whole_pages_def whole_page_def guard_def)
  ultimately show ?thesis using s(1) 1(3,4) by (simp add: lone_def)
qed

lemma flush_lone:
  assumes s: "lone ops inv ps K Q m L s" and pc: "writer s = Prepared k v r tx"
    and flush: "flush_writes ops (on_shared (shared s) tx) = Some tx'"
  shows "lone ops inv ps K Q m (insert r L) (s\<lparr>shared := txn_store tx', writer := Flushed k v r tx'\<rparr>)"
proof -
  let ?tx = "on_shared (shared s) tx"
  have tx: "txn_store ?tx = shared s" "guard ?tx = write_lock (shared s)" "writes ?tx = writes tx"
    by (simp_all add: on_shared_def guard_def)
  have inv: "inv (store_io (txn_store ?tx))" using s tx(1) by (simp add: lone_def)
  note frame = flush_writes_frame [OF flush inv]
  have w: "fst ` set (writes tx) \<subseteq> {r}" "\<exists>es. txn_read ops ?tx r = Some (Leaf (mk_leaf r es)) \<and> whole K Q m es"
    "r \<noteq> 0" "r \<notin> set (free_list_page_ids (write_lock (shared s)))" "unat r < unat (next_page_id (write_lock (shared s)))"
    using s pc by (simp_all add: lone_def)
  have lock: "write_lock (txn_store tx') = write_lock (shared s)" using frame(2) tx(2) by (simp add: guard_def)
  have root: "root (txn_store tx') = root (shared s)"
    using flush tx(1) by (auto simp: flush_writes_def bind_eq_Some_conv)
  have other: "txn_read ops ?tx i = guard_read ops (shared s) i" if "i \<noteq> r" for i
  proof -
    have "i \<notin> fst ` set (writes tx)" using w(1) that by auto
    then have "map_of (rev (writes tx)) i = None" by (simp add: map_of_eq_None_iff)
    then show ?thesis by (simp add: txn_read_alt tx)
  qed
  have "whole_page ops (txn_store tx') K Q m i" if "i \<in> insert r L" for i
  proof (cases "i = r")
    case True
    then show ?thesis using w(2) frame(3) by (auto simp: whole_page_def)
  next
    case False
    then have "whole_page ops (shared s) K Q m i" using s that by (simp add: lone_def whole_pages_def)
    then show ?thesis using frame(3) other [OF False] by (auto simp: whole_page_def)
  qed
  then have "whole_pages ops K Q m (insert r L) (txn_store tx')"
    using s w(3-5) unfolding lone_def whole_pages_def lock by auto
  then show ?thesis
    using s evolves_facts [OF frame(1)] tx(1) root reader_whole_mono [of K Q m L _ "insert r L"] by (auto simp: lone_def)
qed

lemma gate_lone:
  assumes s: "lone ops inv ps K Q m L s" and pc: "writer s = Flushed k v r tx"
    and gate: "tx' = promote_pending (on_shared (shared s) tx)"
  shows "lone ops inv ps K Q m L (s\<lparr>shared := txn_store tx', writer := Gated k v r tx'\<rparr>)"
proof -
  have tx': "store_io (txn_store tx') = store_io (shared s)" "root (txn_store tx') = root (shared s)"
    "free_list_page_ids (write_lock (txn_store tx')) = free_list_page_ids (write_lock (shared s))"
    "next_page_id (write_lock (txn_store tx')) = next_page_id (write_lock (shared s))"
    unfolding gate by (simp_all add: promote_pending_def Let_def set_guard_def on_shared_def guard_def)
  have "guard_read ops (txn_store tx') = guard_read ops (shared s)" by (rule guard_read_cong [OF tx'(1)])
  then have "whole_pages ops K Q m L (txn_store tx')"
    using s tx' by (simp add: lone_def whole_pages_def whole_page_def)
  then show ?thesis using s pc tx' by (simp add: lone_def)
qed

lemma metadata_lone:
  assumes s: "lone ops inv ps K Q m L s" and pc: "writer s = Gated k v r tx"
    and metadata: "commit_metadata ops (on_shared (shared s) tx) r = Some tx'"
  shows "lone ops inv ps K Q m L (s\<lparr>shared := txn_store tx', writer := Persisted k v r tx'\<rparr>)"
proof -
  let ?tx = "on_shared (shared s) tx"
  have tx: "txn_store ?tx = shared s" "guard ?tx = write_lock (shared s)" by (simp_all add: on_shared_def guard_def)
  have inv: "inv (store_io (txn_store ?tx))" using s tx(1) by (simp add: lone_def)
  note frame = commit_metadata_frame [OF metadata inv, unfolded tx]
  have root: "root (txn_store tx') = root (shared s)" using commit_metadata_root [OF metadata] tx(1) by simp
  have "whole_page ops (txn_store tx') K Q m i \<and> i \<noteq> 0 \<and> i \<notin> set (free_list_page_ids (write_lock (txn_store tx'))) \<and>
      unat i < unat (next_page_id (write_lock (txn_store tx')))" if "i \<in> L" for i
  proof -
    have i: "whole_page ops (shared s) K Q m i" "i \<noteq> 0" "i \<notin> set (free_list_page_ids (write_lock (shared s)))"
      "unat i < unat (next_page_id (write_lock (shared s)))"
      using s that by (simp_all add: lone_def whole_pages_def)
    then have chain: "i \<notin> set (free_list_page_ids (guard tx'))" using frame(3) [of i] by auto
    then have "whole_page ops (txn_store tx') K Q m i"
      using i(1,2) frame(4) [of i] by (auto simp: whole_page_def HEADER_PAGE_ID_def)
    then show ?thesis using i(2,4) chain frame(2) by (simp add: guard_def)
  qed
  then have "whole_pages ops K Q m L (txn_store tx')" by (simp add: whole_pages_def)
  then show ?thesis using s pc evolves_facts [OF frame(1)] root by (simp add: lone_def)
qed

lemma publish_lone:
  assumes s: "lone ops inv ps K Q m L s" and pc: "writer s = Persisted k v r tx"
  shows "lone ops inv ps K Q m L (s\<lparr>shared := (shared s)\<lparr>root := r\<rparr>, writer := Idle, published := (published s)(k \<mapsto> v)\<rparr>)"
proof -
  have "guard_read ops ((shared s)\<lparr>root := r\<rparr>) = guard_read ops (shared s)" by (rule guard_read_cong) simp
  then have "whole_pages ops K Q m L ((shared s)\<lparr>root := r\<rparr>)"
    using s by (simp add: lone_def whole_pages_def whole_page_def)
  then show ?thesis using s pc by (simp add: lone_def)
qed

end

section \<open>Runs\<close>

text \<open>The writer puts good values for the keys \<open>K\<close>; otherwise all interleavings are there.\<close>

inductive lone_step :: "'io page_io \<Rightarrow> ('io \<Rightarrow> nat) \<Rightarrow> key set \<Rightarrow> (val \<Rightarrow> bool) \<Rightarrow> nat \<Rightarrow> 'io system \<Rightarrow> 'io system \<Rightarrow> bool"
  for ops lim K Q m where
  lone_read: "read_step ops s s' \<Longrightarrow> lone_step ops lim K Q m s s'"
| lone_write: "writer_step ops s s' \<Longrightarrow>
    writer s = Idle \<longrightarrow> capacity ops lim (shared s) \<and>
      (\<exists>k v r tx. writer s' = Prepared k v r tx \<and> k \<in> K \<and> Q v \<and> length k + length v \<le> m) \<Longrightarrow>
    lone_step ops lim K Q m s s'"

lemma lone_step_racing: "lone_step ops lim K Q m s s' \<Longrightarrow> racing_step ops lim s s'"
  by (induction rule: lone_step.induct) (auto intro: racing_step.intros)

context page_backend
begin

lemma lone_step_ok:
  assumes "lone_step ops limit K Q m s s'" "staged_ok ops inv limit (at_door s)" "lone ops inv ps K Q m L s"
    and K: "finite K" "11 + (4 + m) * card K \<le> ps"
  shows "\<exists>L. lone ops inv ps K Q m L s'"
  using assms(1)
proof cases
  case lone_read
  then show ?thesis using read_step_lone assms(3) by blast
next
  case lone_write
  show ?thesis
    using lone_write(1)
  proof cases
    case (prepare k v r tx)
    then have kv: "k \<in> K" "Q v" "length k + length v \<le> m" and cap: "capacity ops limit (shared s)"
      using lone_write(2) by auto
    show ?thesis unfolding prepare(1)
      by (rule exI, rule prepare_lone [OF assms(3,2) K prepare(2) cap prepare(3) kv prepare(4)])
  next
    case (flush k v r tx tx')
    then show ?thesis using flush_lone [OF assms(3)] by blast
  next
    case (gate k v r tx tx')
    then show ?thesis using gate_lone [OF assms(3)] by blast
  next
    case (metadata k v r tx tx')
    then show ?thesis using metadata_lone [OF assms(3)] by blast
  next
    case (publish k v r tx)
    then show ?thesis using publish_lone [OF assms(3)] by blast
  qed
qed

lemma lone_run_ok:
  assumes "(lone_step ops limit K Q m)\<^sup>*\<^sup>* s s'" "staged_ok ops inv limit (at_door s)" "lone ops inv ps K Q m L s"
    and K: "finite K" "11 + (4 + m) * card K \<le> ps"
  shows "staged_ok ops inv limit (at_door s') \<and> (\<exists>L. lone ops inv ps K Q m L s')"
  using assms(1)
proof (induction rule: rtranclp_induct)
  case base
  then show ?case using assms(2,3) by blast
next
  case (step s1 s2)
  then show ?case using lone_step_ok [OF step.hyps(2) _ _ K] racing_step_ok [OF lone_step_racing] by blast
qed

lemma lone_start:
  assumes st: "store_ok ops inv 0 (CLeaf i es) st" and es: "whole K Q m es"
  shows "lone ops inv (page_size ops (store_io st)) K Q m {i} (start st)"
proof -
  have "guard_read ops st i = Some (Leaf (mk_leaf i es))" "root st = i" "inv (store_io st)"
    using st by (simp_all add: store_ok_def tree_ok_def)
  moreover have "i \<noteq> 0" "i \<notin> set (free_list_page_ids (write_lock st))" "unat i < unat (next_page_id (write_lock st))"
    using st by (auto simp: store_ok_def pool_ok_def)
  ultimately show ?thesis
    using es by (auto simp: lone_def start_def whole_pages_def whole_page_def)
qed

end

text \<open>A reader inside is never stuck: its own steps lead to an answer.\<close>

lemma lone_reader_answers:
  assumes "lone ops io_ok ps K Q m L s" "pcs s i \<noteq> Outside"
  shows "\<exists>s' k v. (own_step ops i)\<^sup>*\<^sup>* s s' \<and> pcs s' i = Answered k v"
proof -
  have at: "\<exists>s' v. (own_step ops i)\<^sup>*\<^sup>* s s' \<and> pcs s' i = Answered k v"
    if s: "lone ops io_ok ps K Q m L s" "pcs s i = At k pg" for s k pg
  proof -
    obtain j es where es: "pg = Leaf (mk_leaf j es)" "whole K Q m es"
      using answers_whole [OF s(1), of i] s(2) by auto
    then show ?thesis using s(2) leaf_answered [of s i k j es ops] by (simp add: whole_def)
  qed
  have rooted: "\<exists>s' v. (own_step ops i)\<^sup>*\<^sup>* s s' \<and> pcs s' i = Answered k v"
    if s: "lone ops io_ok ps K Q m L s" "pcs s i = Rooted k r" for s k r
  proof -
    have "r \<in> L" using answers_whole [OF s(1), of i] s(2) by simp
    then obtain pg where "guard_read ops (shared s) r = Some pg"
      using s(1) by (auto simp: lone_def whole_pages_def whole_page_def)
    then have step: "read_step ops s (s\<lparr>pcs := (pcs s)(i := At k pg)\<rparr>)" (is "read_step ops s ?s1")
      using s(2) by (intro read_step.read_root)
    then have "own_step ops i s ?s1" by (simp add: own_step_def)
    then show ?thesis using at [OF read_step_lone [OF step s(1)], of k pg] by (auto intro: converse_rtranclp_into_rtranclp)
  qed
  show ?thesis
  proof (cases "pcs s i")
    case (Entered k)
    then have step: "read_step ops s (s\<lparr>pcs := (pcs s)(i := Rooted k (root (shared s))), snap := (snap s)(i := published s)\<rparr>)"
        (is "read_step ops s ?s1") by (rule read_step.load_root)
    then have "own_step ops i s ?s1" by (simp add: own_step_def)
    then show ?thesis
      using rooted [OF read_step_lone [OF step assms(1)], of k "root (shared s)"]
      by (auto intro: converse_rtranclp_into_rtranclp)
  qed (use assms at rooted in blast)+
qed

end
