(* ===== verification/Lone_Space.thy ===== *)
theory Lone_Space
  imports Lone_Leaf
begin

text \<open>
  How many pages the puts of a run on a store of one leaf use at most, however the readers run: a page
  for each put, and the chain of the free list. With a bound on the puts this gives the room that every
  put needs.
\<close>

section \<open>The chain of the free list\<close>

lemma commit_metadata_chain:
  assumes "commit_metadata ops tx r = Some tx'" "page_size_ok (txn_page_size ops tx)"
  defines "need \<equiv> chain_need (txn_page_size ops tx) (length (free_list (guard tx)) + length (pending_free (guard tx)))"
  shows "length (free_list_page_ids (guard tx')) = max (length (free_list_page_ids (guard tx))) need"
    "unat (next_page_id (guard tx')) + length (free_list_page_ids (guard tx)) =
       unat (next_page_id (guard tx)) + length (free_list_page_ids (guard tx'))"
    "free_list (guard tx') = free_list (guard tx)" "pending_free (guard tx') = pending_free (guard tx)"
proof -
  let ?ps = "txn_page_size ops tx"
  have "0 < (?ps - 19) div 8" using chain_cap [OF assms(2) refl] by simp
  then have cap: "free_list_capacity ?ps = Some ((?ps - 19) div 8)" "max ((?ps - 19) div 8) 1 = (?ps - 19) div 8"
    using assms(2) by (simp_all add: free_list_capacity_def page_size_ok_def FREE_LIST_HEADER_def)
  obtain head n tx2 where 1: "persist_free_list ops tx = Some (head, n, tx2)" "guard tx' = guard tx2"
    using assms(1) by (auto simp: commit_metadata_def Let_def bind_eq_Some_conv guard_def)
  then have "extend_chain need (guard tx) = Some (guard tx2)"
    by (auto simp: persist_free_list_def Let_def cap cap(2) [unfolded One_nat_def] need_def chain_need_def bind_eq_Some_conv guard_def)
  note grows = extend_chain_grows [OF this]
  show "length (free_list_page_ids (guard tx')) = max (length (free_list_page_ids (guard tx))) need"
    "unat (next_page_id (guard tx')) + length (free_list_page_ids (guard tx)) =
       unat (next_page_id (guard tx)) + length (free_list_page_ids (guard tx'))"
    "free_list (guard tx') = free_list (guard tx)" "pending_free (guard tx') = pending_free (guard tx)"
    using grows 1(2) by simp_all
qed

section \<open>What the puts of a run use\<close>

text \<open>
  The pages of a store of one leaf after \<open>n\<close> puts: \<open>p\<close> pages were free or waiting at the start. Every put
  takes one page and hands one over, which a reader may keep from becoming free.
\<close>

definition payload :: "writer_state \<Rightarrow> nat" where
  "payload g = length (free_list g) + length (pending_free g)"

definition used :: "nat \<Rightarrow> nat \<Rightarrow> nat \<Rightarrow> nat \<Rightarrow> writer_state \<Rightarrow> bool" where
  "used ps p n a g \<longleftrightarrow> payload g + a \<le> p + n \<and> unat (next_page_id g) \<le> p + 2 + n + length (free_list_page_ids g) \<and>
     length (free_list_page_ids g) \<le> chain_need ps (p + n)"

fun spent :: "nat \<Rightarrow> nat \<Rightarrow> nat \<Rightarrow> writer_state \<Rightarrow> 'io writer_pc \<Rightarrow> bool" where
  "spent ps p n g Idle \<longleftrightarrow> used ps p n 0 g"
| "spent ps p n g (Prepared k v r tx) \<longleftrightarrow> used ps p (Suc n) 1 g \<and> length (freed tx) = 1"
| "spent ps p n g (Flushed k v r tx) \<longleftrightarrow> used ps p (Suc n) 1 g \<and> length (freed tx) = 1"
| "spent ps p n g (Gated k v r tx) \<longleftrightarrow> used ps p (Suc n) 0 g"
| "spent ps p n g (Persisted k v r tx) \<longleftrightarrow> used ps p (Suc n) 0 g"

text \<open>The puts finished: one more with every publication.\<close>

definition finished :: "nat \<Rightarrow> 'io system \<Rightarrow> 'io system \<Rightarrow> nat" where
  "finished n s s' = (if writer s \<noteq> Idle \<and> writer s' = Idle then Suc n else n)"

context page_backend
begin

lemma lone_step_spent:
  assumes "lone_step ops limit K Q m s s'" "staged_ok ops inv limit (at_door s)" "lone ops inv ps K Q m L s"
    and K: "finite K" "11 + (4 + m) * card K \<le> ps" "page_size_ok ps"
    and spent: "spent ps p n (write_lock (shared s)) (writer s)"
  shows "spent ps p (finished n s s') (write_lock (shared s')) (writer s')"
  using assms(1)
proof cases
  case lone_read
  obtain k where "shared s' = (shared s)\<lparr>readers := k\<rparr>" "writer s' = writer s"
    using read_step_frame [OF lone_read] by blast
  then show ?thesis using spent by (simp add: finished_def)
next
  case lone_write
  have ps: "page_size ops (store_io (shared s)) = ps" using assms(3) by (simp add: lone_def)
  show ?thesis
    using lone_write(1)
  proof cases
    case (prepare k v r tx)
    have kv: "k \<in> K" "Q v" "length k + length v \<le> m" and cap: "capacity ops limit (shared s)"
      using lone_write(2) prepare by auto
    obtain i es where st: "store_ok ops inv 0 (CLeaf i es) (shared s)" "whole K Q m es"
      by (rule lone_idle [OF assms(3,2) prepare(2)])
    have "ps < 65536" using page_size_bounds(2) [OF K(3)] by simp
    note fits = whole_upsert(2) [OF st(2) kv K(1,2) this]
    note 1 = prepared_leaf [OF st(1) cap prepare(3) _ prepare(4), unfolded ps, OF fits]
    have "chain_need ps (p + n) \<le> chain_need ps (p + Suc n)" by (intro chain_need_mono) simp
    moreover have "used ps p n 0 (write_lock (shared s))" using spent prepare(2) by simp
    ultimately have "used ps p (Suc n) 1 (guard tx)"
      using 1(5,10,11,12) unfolding used_def payload_def by simp
    then show ?thesis using prepare 1(13) by (simp add: finished_def guard_def)
  next
    case (flush k v r tx tx')
    then have "write_lock (txn_store tx') = write_lock (shared s)" "freed tx' = freed tx"
      by (auto simp: flush_writes_def on_shared_def bind_eq_Some_conv)
    then show ?thesis using spent flush by (simp add: finished_def)
  next
    case (gate k v r tx tx')
    let ?tx = "on_shared (shared s) tx"
    have tx: "guard ?tx = write_lock (shared s)" "freed ?tx = freed tx" by (simp_all add: on_shared_def guard_def)
    have lock: "write_lock (txn_store tx') = guard (promote_pending ?tx)" using gate(3) by (simp add: guard_def)
    have "payload (guard (promote_pending ?tx)) = payload (write_lock (shared s)) + length (freed tx)"
      using arg_cong [OF promote_payload [of ?tx], of length] by (simp add: payload_def tx)
    then show ?thesis using spent gate lock tx by (simp add: used_def finished_def)
  next
    case (metadata k v r tx tx')
    let ?tx = "on_shared (shared s) tx"
    have tx: "guard ?tx = write_lock (shared s)" "txn_page_size ops ?tx = ps"
      using ps by (simp_all add: on_shared_def guard_def txn_page_size_def)
    note chain = commit_metadata_chain [OF metadata(3), unfolded tx, OF K(3)]
    have used: "used ps p (Suc n) 0 (write_lock (shared s))" using spent metadata(2) by simp
    then have "chain_need ps (length (free_list (write_lock (shared s))) + length (pending_free (write_lock (shared s)))) \<le>
        chain_need ps (p + Suc n)" by (intro chain_need_mono) (simp add: used_def payload_def)
    then have "used ps p (Suc n) 0 (guard tx')" using used chain by (simp add: used_def payload_def)
    then show ?thesis using metadata by (simp add: finished_def guard_def)
  next
    case (publish k v r tx)
    then show ?thesis using spent by (simp add: finished_def)
  qed
qed

end

lemma used_room:
  assumes "used ps p n 0 g"
  defines "used_ids \<equiv> p + 2 + n + chain_need ps (p + n)"
  shows "put_reach ps (unat (next_page_id g)) g \<le> 3 * used_ids + 3 + chain_need ps (p + n + Suc used_ids)"
proof -
  have bound: "unat (next_page_id g) \<le> used_ids" and pay: "payload g \<le> p + n"
    using assms(1) unfolding used_def used_ids_def by simp_all
  have "chain_need ps (length (free_list g) + length (pending_free g) + Suc (unat (next_page_id g))) \<le>
      chain_need ps (p + n + Suc used_ids)"
    using bound pay by (intro chain_need_mono) (simp add: payload_def)
  then show ?thesis using bound unfolding put_reach_def by linarith
qed

end
