(* ===== verification/Engine_Tests.thy ===== *)
theory Engine_Tests
  imports Test_Support Concurrency
begin

text \<open>
  The tests of \<open>storage/engine.rs\<close> run on the model: round trips, hundreds of puts that split leaves and
  grow the root, and the limit on the size of an entry.
\<close>

section \<open>The tests of the engine\<close>

definition engine_test_round_trip :: "(nat \<Rightarrow> bool) \<Rightarrow> unit option" where
  "engine_test_round_trip printable =
     do { st \<leftarrow> engine_in_memory 4096;
          (_, st) \<leftarrow> engine_print_tree printable memory_ops st;
          st \<leftarrow> put_unwrap st (bytes_of ''hello'') (bytes_of ''world'');
          (_, st) \<leftarrow> engine_print_tree printable memory_ops st;
          st \<leftarrow> put_unwrap st (bytes_of ''foo'') (bytes_of ''bar'');
          (_, st) \<leftarrow> engine_print_tree printable memory_ops st;
          assert_get st (bytes_of ''hello'') (Some (bytes_of ''world''));
          assert_get st (bytes_of ''foo'') (Some (bytes_of ''bar'')) }"

definition engine_test_upsert :: "(nat \<Rightarrow> bool) \<Rightarrow> unit option" where
  "engine_test_upsert printable =
     do { st \<leftarrow> engine_in_memory 4096;
          st \<leftarrow> put_unwrap st (bytes_of ''key'') (bytes_of ''v1'');
          (_, st) \<leftarrow> engine_print_tree printable memory_ops st;
          st \<leftarrow> put_unwrap st (bytes_of ''key'') (bytes_of ''v2'');
          (_, st) \<leftarrow> engine_print_tree printable memory_ops st;
          assert_get st (bytes_of ''key'') (Some (bytes_of ''v2'')) }"

definition engine_test_missing :: "(nat \<Rightarrow> bool) \<Rightarrow> unit option" where
  "engine_test_missing printable =
     do { st \<leftarrow> engine_in_memory 4096;
          st \<leftarrow> put_unwrap st (bytes_of ''a'') (bytes_of ''1'');
          (_, st) \<leftarrow> engine_print_tree printable memory_ops st;
          assert_get st (bytes_of ''missing'') None }"

definition engine_test_empty :: "unit option" where
  "engine_test_empty = do { st \<leftarrow> engine_in_memory 4096; assert_get st (bytes_of ''anything'') None }"

text \<open>The number of leaves below a page.\<close>

lemma collect_simps:
  "collect f [] = Some []" "collect f (x # xs) = do { a \<leftarrow> f x; b \<leftarrow> collect f xs; Some (a # b) }"
  by (simp_all add: collect_def map_conv_bind_option comp_def split: option.split)

lemma collect_mono [partial_function_mono]:
  assumes "\<And>x. mono_option (\<lambda>f. B x f)"
  shows "mono_option (\<lambda>f. collect (\<lambda>x. B x f) xs)"
proof (induction xs)
  case Nil
  show ?case by (simp add: collect_simps option.const_mono)
next
  case (Cons x xs)
  show ?case by (simp add: collect_simps bind_mono assms Cons.IH option.const_mono)
qed

partial_function (option) leaf_walk :: "'io page_io \<Rightarrow> 'io store \<Rightarrow> page_id \<Rightarrow> nat option" where
  "leaf_walk ops view i =
     do { pg \<leftarrow> guard_read ops view i;
          case pg of
            Leaf _ \<Rightarrow> Some 1
          | Internal n \<Rightarrow>
              do { nk \<leftarrow> internal_nkeys n;
                   ns \<leftarrow> collect (\<lambda>idx. do { c \<leftarrow> internal_get_child n idx; leaf_walk ops view c })
                           (u16_range_incl 0 nk);
                   Some (sum_list ns) } }"

declare leaf_walk.simps [code]

definition count_leaves :: "'io page_io \<Rightarrow> 'io store \<Rightarrow> nat option" where
  "count_leaves ops st = do { let view = enter_read st; leaf_walk ops view (root view) }"

definition engine_test_bulk :: "(nat \<Rightarrow> bool) \<Rightarrow> unit option" where
  "engine_test_bulk printable =
     do { st \<leftarrow> engine_in_memory 4096;
          (_, st) \<leftarrow> engine_print_tree printable memory_ops st;
          leaves_before \<leftarrow> count_leaves memory_ops st;
          st \<leftarrow> put_each put_unwrap st (map (\<lambda>i. (key_format ''key'' 5 i, key_format ''val'' 0 i)) [0..<500]);
          (_, st) \<leftarrow> engine_print_tree printable memory_ops st;
          leaves_after \<leftarrow> count_leaves memory_ops st;
          assert_that (leaves_before < leaves_after);
          check_each (\<lambda>i. assert_get st (key_format ''key'' 5 i) (Some (key_format ''val'' 0 i))) [0..<500] }"

definition engine_test_small_page :: "(nat \<Rightarrow> bool) \<Rightarrow> unit option" where
  "engine_test_small_page printable =
     do { st \<leftarrow> engine_in_memory 256;
          (_, st) \<leftarrow> engine_print_tree printable memory_ops st;
          st \<leftarrow> put_each put_unwrap st (map (\<lambda>i. (key_format ''k'' 4 i, bytes_of ''v'')) [0..<300]);
          (_, st) \<leftarrow> engine_print_tree printable memory_ops st;
          check_each (\<lambda>i. assert_get st (key_format ''k'' 4 i) (Some (bytes_of ''v''))) [0..<300] }"

definition engine_test_boundary :: "(nat \<Rightarrow> bool) \<Rightarrow> unit option" where
  "engine_test_boundary printable =
     do { let ps = 4096;
          let mx = max_kv_size ps;
          st \<leftarrow> engine_in_memory ps;
          let key_at_max = replicate mx 107;
          (r, st) \<leftarrow> engine_put memory_ops st key_at_max [];
          assert_that (r = Inr ());
          (_, st) \<leftarrow> engine_print_tree printable memory_ops st;
          assert_get st key_at_max (Some []);
          let key_over_max = replicate (mx + 1) 107;
          (r, st) \<leftarrow> engine_put memory_ops st key_over_max [];
          assert_that (isl r) }"

section \<open>The number of leaves\<close>

text \<open>The leaves of a tree, and a tree of a single leaf.\<close>

fun leaves :: "ctree \<Rightarrow> nat" where
  "leaves (CLeaf i kvs) = 1"
| "leaves (CNode i ks ts) = sum_list (map leaves ts)"

lemma leaf_walk_leaves:
  "rep (guard_read ops st) t \<Longrightarrow> sized ps t \<Longrightarrow> leaf_walk ops st (tid t) = Some (leaves t)"
proof (induction t)
  case (CNode i ks ts)
  have fits: "keys_small ks" "length ts = Suc (length ks)" using CNode.prems by simp_all
  have n: "length ts < 65536" using keys_small_length [OF fits(1)] fits(2) by simp
  have idx: "u16_range_incl 0 (as_u16 (length ks)) = map as_u16 [0..<length ts]"
    using n fits(2) by (simp add: u16_range_incl_def unat_as_u16)
  have kid: "internal_get_child (mk_internal i ks (map tid ts)) (as_u16 j) = Some (tid (ts ! j))" if "j < length ts" for j
    using that n internal_get_child_mk [of j "map tid ts" i ks] by simp
  have rec: "leaf_walk ops st (tid (ts ! j)) = Some (leaves (ts ! j))" if "j < length ts" for j
    using that CNode by (intro CNode.IH) simp_all
  have "collect (\<lambda>idx. do { c \<leftarrow> internal_get_child (mk_internal i ks (map tid ts)) idx; leaf_walk ops st c })
      (map as_u16 [0..<length ts]) =
    collect (\<lambda>j. do { c \<leftarrow> internal_get_child (mk_internal i ks (map tid ts)) (as_u16 j); leaf_walk ops st c }) [0..<length ts]"
    by (simp add: collect_def comp_def)
  also have "\<dots> = Some (map (\<lambda>j. leaves (ts ! j)) [0..<length ts])"
    using kid rec by (intro collect_Some) simp
  also have "map (\<lambda>j. leaves (ts ! j)) [0..<length ts] = map leaves ts"
    by (rule nth_equalityI) simp_all
  finally have loop: "collect (\<lambda>idx. do { c \<leftarrow> internal_get_child (mk_internal i ks (map tid ts)) idx; leaf_walk ops st c })
      (map as_u16 [0..<length ts]) = Some (map leaves ts)" .
  have "guard_read ops st i = Some (Internal (mk_internal i ks (map tid ts)))" using CNode.prems by simp
  then show ?case
    by (subst leaf_walk.simps) (simp only: tid.simps bind.bind_lunit page.case internal_nkeys_mk idx loop leaves.simps)
qed (subst leaf_walk.simps, simp)

lemma leaves_pos: "sized ps t \<Longrightarrow> 0 < leaves t"
proof (induction t)
  case (CNode i ks ts)
  then have "ts \<noteq> []" by auto
  then have "hd ts \<in> set ts" "0 < leaves (hd ts)" using CNode by (auto simp: hd_in_set)
  then show ?case by (auto simp: sum_list_eq_0_iff intro: gr0I)
qed simp

lemma leaves_node: "sized ps (CNode i ks ts) \<Longrightarrow> 2 \<le> leaves (CNode i ks ts)"
proof -
  assume sized: "sized ps (CNode i ks ts)"
  then have "length ts = Suc (length ks)" "ks \<noteq> []" by simp_all
  then have "2 \<le> length ts" by (cases ks) simp_all
  also have "length ts = sum_list (map (\<lambda>_. 1) ts)" by (simp add: sum_list_triv)
  also have "\<dots> \<le> sum_list (map leaves ts)"
    using sized leaves_pos by (intro sum_list_mono) (fastforce simp: Suc_le_eq)
  finally show ?thesis by simp
qed

lemma tracked_leaves: "tracked ps n h t st \<Longrightarrow> count_leaves memory_ops st = Some (leaves t)"
  using leaf_walk_leaves [of memory_ops "enter_read st" t "page_size memory_ops (store_io st)"]
    tracked_tree [of ps n h t st] guard_read_enter [of memory_ops st]
  by (simp add: count_leaves_def Let_def tree_ok_def enter_read_def)

section \<open>The tests pass\<close>

lemma engine_test_round_trip_passes: "engine_test_round_trip printable = Some ()"
proof -
  have small: "length (bytes_of ''hello'') + length (bytes_of ''world'') \<le> max_kv_size 4096"
    "length (bytes_of ''foo'') + length (bytes_of ''bar'') \<le> max_kv_size 4096"
    by (simp_all add: test_limits)
  obtain st where st: "engine_in_memory 4096 = Some st" "tracked 4096 0 0 (CLeaf 1 []) st"
    using tracked_open [OF page_4096] by blast
  obtain st1 h1 t1 where st1: "put_unwrap st (bytes_of ''hello'') (bytes_of ''world'') = Some st1"
    "tracked 4096 (Suc 0) h1 t1 st1" "contents t1 = upsert (bytes_of ''hello'') (bytes_of ''world'') (contents (CLeaf 1 []))"
    by (rule tracked_put [OF st(2) page_4096 small(1)]) simp_all
  obtain st2 h2 t2 where st2: "put_unwrap st1 (bytes_of ''foo'') (bytes_of ''bar'') = Some st2"
    "tracked 4096 (Suc (Suc 0)) h2 t2 st2" "contents t2 = upsert (bytes_of ''foo'') (bytes_of ''bar'') (contents t1)"
    by (rule tracked_put [OF st1(2) page_4096 small(2)]) simp_all
  show ?thesis
    by (simp add: engine_test_round_trip_def st(1) st1(1) st2(1) tracked_print [OF st(2)] tracked_print [OF st1(2)]
        tracked_print [OF st2(2)] tracked_get [OF st2(2)] st2(3) st1(3) map_of_upsert assert_that_def)
qed

lemma engine_test_upsert_passes: "engine_test_upsert printable = Some ()"
proof -
  have small: "length (bytes_of ''key'') + length (bytes_of ''v1'') \<le> max_kv_size 4096"
    "length (bytes_of ''key'') + length (bytes_of ''v2'') \<le> max_kv_size 4096"
    by (simp_all add: test_limits)
  obtain st where st: "engine_in_memory 4096 = Some st" "tracked 4096 0 0 (CLeaf 1 []) st"
    using tracked_open [OF page_4096] by blast
  obtain st1 h1 t1 where st1: "put_unwrap st (bytes_of ''key'') (bytes_of ''v1'') = Some st1" "tracked 4096 (Suc 0) h1 t1 st1"
    by (rule tracked_put [OF st(2) page_4096 small(1)]) simp_all
  obtain st2 h2 t2 where st2: "put_unwrap st1 (bytes_of ''key'') (bytes_of ''v2'') = Some st2"
    "tracked 4096 (Suc (Suc 0)) h2 t2 st2" "contents t2 = upsert (bytes_of ''key'') (bytes_of ''v2'') (contents t1)"
    by (rule tracked_put [OF st1(2) page_4096 small(2)]) simp_all
  show ?thesis
    by (simp add: engine_test_upsert_def st(1) st1(1) st2(1) tracked_print [OF st1(2)] tracked_print [OF st2(2)]
        tracked_get [OF st2(2)] st2(3) map_of_upsert assert_that_def)
qed

lemma engine_test_missing_passes: "engine_test_missing printable = Some ()"
proof -
  have small: "length (bytes_of ''a'') + length (bytes_of ''1'') \<le> max_kv_size 4096"
    by (simp add: test_limits)
  obtain st where st: "engine_in_memory 4096 = Some st" "tracked 4096 0 0 (CLeaf 1 []) st"
    using tracked_open [OF page_4096] by blast
  obtain st1 h1 t1 where st1: "put_unwrap st (bytes_of ''a'') (bytes_of ''1'') = Some st1"
    "tracked 4096 (Suc 0) h1 t1 st1" "contents t1 = upsert (bytes_of ''a'') (bytes_of ''1'') (contents (CLeaf 1 []))"
    by (rule tracked_put [OF st(2) page_4096 small]) simp_all
  show ?thesis
    by (simp add: engine_test_missing_def st(1) st1(1) tracked_print [OF st1(2)] tracked_get [OF st1(2)] st1(3)
        assert_that_def)
qed

lemma engine_test_empty_passes: "engine_test_empty = Some ()"
proof -
  obtain st where st: "engine_in_memory 4096 = Some st" "tracked 4096 0 0 (CLeaf 1 []) st"
    using tracked_open [OF page_4096] by blast
  show ?thesis by (simp add: engine_test_empty_def st(1) tracked_get [OF st(2)] assert_that_def)
qed

lemma engine_test_boundary_passes: "engine_test_boundary printable = Some ()"
proof -
  let ?mx = "max_kv_size 4096" and ?e = "[] :: bytes"
  obtain st where st: "engine_in_memory 4096 = Some st" "tracked 4096 0 0 (CLeaf 1 []) st"
    using tracked_open [OF page_4096] by blast
  have small: "length (replicate ?mx (107 :: 8 word)) + length ?e \<le> max_kv_size 4096" by simp
  obtain st1 h1 t1 where st1: "put_unwrap st (replicate ?mx 107) ?e = Some st1"
    "tracked 4096 (Suc 0) h1 t1 st1" "contents t1 = upsert (replicate ?mx 107) ?e (contents (CLeaf 1 []))"
    by (rule tracked_put [OF st(2) page_4096 small]) simp_all
  then have put: "engine_put memory_ops st (replicate ?mx 107) ?e = Some (Inr (), st1)"
    by (auto simp: put_unwrap_def split: sum.splits Option.bind_splits)
  have "page_size memory_ops (store_io st1) = 4096" using st1(2) by (simp add: tracked_def)
  then have refused: "\<exists>e. engine_put memory_ops st1 (replicate (?mx + 1) 107) ?e = Some (Inl e, st1)"
    using engine_put_too_large [of memory_ops st1 "replicate (?mx + 1) 107" ?e] by auto
  then obtain e where "engine_put memory_ops st1 (replicate (?mx + 1) 107) ?e = Some (Inl e, st1)" by blast
  then show ?thesis
    by (simp add: engine_test_boundary_def Let_def st(1) put tracked_print [OF st1(2)] tracked_get [OF st1(2)] st1(3)
        assert_that_def)
qed

lemma engine_test_small_page_passes: "engine_test_small_page printable = Some ()"
proof -
  let ?kvs = "map (\<lambda>i. (key_format ''k'' 4 i, bytes_of ''v'')) [0..<300]"
  have ps: "page_size_ok 256" by (simp add: test_limits)
  have "length (key_format ''k'' 4 i) = 5" if "i < 300" for i using that key_format_len [of 4 i] by simp
  then have small: "\<forall>(k, v) \<in> set ?kvs. length k + length v \<le> max_kv_size 256" by (auto simp: test_limits)
  obtain st where st: "engine_in_memory 256 = Some st" "tracked 256 0 0 (CLeaf 1 []) st"
    using tracked_open [OF ps] by blast
  obtain st1 h1 t1 where st1: "put_all memory_ops st ?kvs = Some st1" "tracked 256 (0 + length ?kvs) h1 t1 st1"
    "contents t1 = upserts ?kvs (contents (CLeaf 1 []))"
    by (rule tracked_puts [OF st(2) ps small]) simp_all
  have "map_of (contents t1) (key_format ''k'' 4 i) = Some (bytes_of ''v'')" if "i < 300" for i
    using map_of_numbered [OF that, of "''k''" 4 "\<lambda>_. bytes_of ''v''"] by (simp add: st1(3) map_of_upserts)
  then show ?thesis
    by (simp add: engine_test_small_page_def put_each_all st(1) st1(1) tracked_print [OF st(2)] tracked_print [OF st1(2)]
        tracked_get [OF st1(2)] check_each_ok assert_that_def del: upt.simps)
qed

lemma engine_test_bulk_passes: "engine_test_bulk printable = Some ()"
proof -
  let ?kvs = "map (\<lambda>i. (key_format ''key'' 5 i, key_format ''val'' 0 i)) [0..<500]"
  have len: "length (key_format ''key'' 5 i) = 8" "length (key_format ''val'' 0 i) \<le> 6" if "i < 500" for i
    using that key_format_len [of 5 i "''key''"] key_format_len_le [of i 2 "''val''"] by simp_all
  then have small: "\<forall>(k, v) \<in> set ?kvs. length k + length v \<le> max_kv_size 4096" by (fastforce simp: test_limits)
  obtain st where st: "engine_in_memory 4096 = Some st" "tracked 4096 0 0 (CLeaf 1 []) st"
    using tracked_open [OF page_4096] by blast
  obtain st1 h1 t1 where st1: "put_all memory_ops st ?kvs = Some st1" "tracked 4096 (0 + length ?kvs) h1 t1 st1"
    "contents t1 = upserts ?kvs (contents (CLeaf 1 []))"
    by (rule tracked_puts [OF st(2) page_4096 small]) simp_all
  have sized: "sized 4096 t1" using tracked_tree [OF st1(2)] st1(2) by (simp add: tree_ok_def tracked_def)
  have "leaves (CLeaf 1 []) < leaves t1"
  proof (cases t1)
    case (CLeaf i es)
    have "es = upserts ?kvs []" using st1(3) by (simp only: CLeaf contents.simps)
    then have keys: "fst ` set es = key_format ''key'' 5 ` {..<500}" by (simp only: numbered_keys)
    then have "card (fst ` set es) = 500" by (simp only: card_numbered)
    then have "500 \<le> length es" using card_length [of "map fst es"] by simp
    moreover have "8 \<le> length (fst p)" if "p \<in> set es" for p
    proof -
      have "fst p \<in> key_format ''key'' 5 ` {..<500}" unfolding keys [symmetric] using that by (rule imageI)
      then obtain i where "fst p = key_format ''key'' 5 i" "i < 500" by (elim imageE) simp
      then show ?thesis using len(1) by simp
    qed
    then have "(4 + 8) * length es \<le> length (enc_entries es)" by (rule length_enc_entries_ge)
    moreover have "11 + length (enc_entries es) \<le> 4096" using sized CLeaf by simp
    ultimately show ?thesis by simp
  next
    case (CNode i ks ts)
    then show ?thesis using leaves_node [of 4096 i ks ts] sized by simp
  qed
  moreover have "map_of (contents t1) (key_format ''key'' 5 i) = Some (key_format ''val'' 0 i)" if "i < 500" for i
    using map_of_numbered [OF that, of "''key''" 5 "key_format ''val'' 0"] by (simp add: st1(3) map_of_upserts)
  ultimately show ?thesis
    by (simp add: engine_test_bulk_def put_each_all st(1) st1(1) tracked_print [OF st(2)] tracked_print [OF st1(2)]
        tracked_leaves [OF st(2)] tracked_leaves [OF st1(2)] tracked_get [OF st1(2)] check_each_ok assert_that_def del: upt.simps)
qed

end
