(* ===== verification/Store_Tests.thy ===== *)
theory Store_Tests
  imports Engine_Tests Flat
begin

text \<open>
  The tests of \<open>storage/store.rs\<close> run on the model: bootstrap, reopening, the reuse of freed pages under
  repeated overwrites, and a free list that fills several pages while a reader is held.
\<close>

section \<open>The tests of the store\<close>

definition store_test_bootstrap :: "unit option" where
  "store_test_bootstrap =
     do { st \<leftarrow> store_open (memory_new 4096);
          let view = enter_read st;
          pg \<leftarrow> guard_read memory_ops view (root view);
          case pg of Leaf l \<Rightarrow> do { n \<leftarrow> leaf_nkeys l; assert_that (n = 0) } | Internal _ \<Rightarrow> None }"

definition store_test_reopen :: "(nat \<Rightarrow> bool) \<Rightarrow> unit option" where
  "store_test_reopen printable =
     do { let io = memory_new 4096;
          st \<leftarrow> store_open (memory_reopen io);
          _ \<leftarrow> print_tree printable memory_ops (enter_read st);
          st \<leftarrow> put_each txn_put st (map (\<lambda>i. (key_format ''k'' 0 i, bytes_of ''v'')) [0..<20]);
          _ \<leftarrow> print_tree printable memory_ops (enter_read st);
          reopened \<leftarrow> store_open (memory_reopen (store_io st));
          let view = enter_read reopened;
          check_each (\<lambda>i. assert_view view (key_format ''k'' 0 i) (Some (bytes_of ''v''))) [0..<20] }"

text \<open>The product of \<open>u64\<close> values, which panics when it does not fit.\<close>

definition u64_mul :: "u64 \<Rightarrow> u64 \<Rightarrow> u64 option" where
  "u64_mul a b = (if unat a * unat b < 2 ^ 64 then Some (a * b) else None)"

definition store_test_overwrites :: "(nat \<Rightarrow> bool) \<Rightarrow> unit option" where
  "store_test_overwrites printable =
     do { st \<leftarrow> store_open (memory_new 4096);
          let ks = map (key_format ''key'' 3) [0..<50];
          _ \<leftarrow> print_tree printable memory_ops (enter_read st);
          st \<leftarrow> put_each txn_put st (map (\<lambda>k. (k, bytes_of ''v1'')) ks);
          _ \<leftarrow> print_tree printable memory_ops (enter_read st);
          let pages_after_first_pass = allocated_pages st;
          assert_that (0 < free_list_len st);
          st \<leftarrow> put_each txn_put st (concat (replicate 20 (map (\<lambda>k. (k, bytes_of ''v2'')) ks)));
          _ \<leftarrow> print_tree printable memory_ops (enter_read st);
          let pages_after_many_passes = allocated_pages st;
          twice \<leftarrow> u64_mul pages_after_first_pass 2;
          assert_that (pages_after_many_passes < twice) }"

definition store_test_free_list_survives :: "unit option" where
  "store_test_free_list_survives =
     do { let io = memory_new 4096;
          st \<leftarrow> store_open (memory_reopen io);
          let ks = map (key_format ''key'' 3) [0..<50];
          st \<leftarrow> put_each txn_put st (map (\<lambda>k. (k, bytes_of ''v1'')) ks);
          st \<leftarrow> put_each txn_put st (map (\<lambda>k. (k, bytes_of ''v2'')) ks);
          let free_before_reopen = free_list_len st;
          assert_that (0 < free_before_reopen);
          reopened \<leftarrow> store_open (memory_reopen (store_io st));
          assert_that (free_list_len reopened = free_before_reopen);
          let free_ids_before_alloc = free_list_snapshot reopened;
          (allocated_id, txn) \<leftarrow> txn_alloc (begin_write reopened);
          let reopened = txn_store txn;
          assert_that (allocated_id \<in> set free_ids_before_alloc);
          let view = enter_read reopened;
          check_each (\<lambda>k. assert_view view k (Some (bytes_of ''v2''))) ks }"

definition store_test_free_list_chain :: "unit option" where
  "store_test_free_list_chain =
     do { let ps = 128;
          cap \<leftarrow> free_list_capacity ps;
          let io = memory_new ps;
          st \<leftarrow> store_open (memory_reopen io);
          let ks = map (key_format ''key'' 2) [0..<8];
          st \<leftarrow> put_each txn_put st (map (\<lambda>k. (k, bytes_of ''v0'')) ks);
          let st = enter_read st;
          st \<leftarrow> put_each txn_put st (concat (replicate (cap + 5) (map (\<lambda>k. (k, bytes_of ''v1'')) ks)));
          let st = drop_read st;
          st \<leftarrow> txn_put st (bytes_of ''trigger'') (bytes_of ''v'');
          let free_before = free_list_len st;
          assert_that (cap < free_before);
          reopened \<leftarrow> store_open (memory_reopen (store_io st));
          assert_that (free_list_len reopened = free_before);
          let view = enter_read reopened;
          check_each (\<lambda>k. assert_view view k (Some (bytes_of ''v1''))) ks;
          assert_view view (bytes_of ''trigger'') (Some (bytes_of ''v'')) }"

section \<open>The tests pass\<close>

lemma store_test_bootstrap_passes: "store_test_bootstrap = Some ()"
proof -
  obtain st where st: "engine_in_memory 4096 = Some st" "tracked 4096 0 0 (CLeaf 1 []) st"
    using tracked_open [OF page_4096] by blast
  have "guard_read memory_ops (enter_read st) (root (enter_read st)) = Some (Leaf (mk_leaf 1 []))"
    using tracked_tree [OF st(2)] by (simp add: guard_read_enter tree_ok_def) (simp add: enter_read_def)
  then show ?thesis
    by (simp add: store_test_bootstrap_def Let_def store_open_in_memory st(1) leaf_nkeys_mk assert_that_def)
qed

lemma store_test_reopen_passes: "store_test_reopen printable = Some ()"
proof -
  let ?kvs = "map (\<lambda>i. (key_format ''k'' 0 i, bytes_of ''v'')) [0..<20]"
  have len: "length (key_format ''k'' 0 i) \<le> 3" if "i < 20" for i
    using that key_format_len_le [of i 1 "''k''"] by simp
  then have small: "\<forall>(k, v) \<in> set ?kvs. length k + length v \<le> max_kv_size 4096" by (fastforce simp: test_limits)
  obtain st where st: "engine_in_memory 4096 = Some st" "tracked 4096 0 0 (CLeaf 1 []) st"
    using tracked_open [OF page_4096] by blast
  obtain st1 h1 t1 where st1: "put_all memory_ops st ?kvs = Some st1" "tracked 4096 (0 + length ?kvs) h1 t1 st1"
    "contents t1 = upserts ?kvs (contents (CLeaf 1 []))"
    by (rule tracked_puts [OF st(2) page_4096 small]) simp_all
  obtain st2 where st2: "store_open (memory_reopen (store_io st1)) = Some st2" "store_ok memory_ops memory_inv h1 t1 st2"
    using tracked_reopen [OF st1(2)] by blast
  have "map_of (contents t1) (key_format ''k'' 0 i) = Some (bytes_of ''v'')" if "i < 20" for i
    using map_of_numbered [OF that, of "''k''" 0 "\<lambda>_. bytes_of ''v''"] by (simp add: st1(3) map_of_upserts)
  moreover have "memory_reopen (memory_new 4096) = memory_new 4096" by (simp add: memory_reopen_def)
  ultimately show ?thesis
    by (simp add: store_test_reopen_def Let_def store_open_in_memory put_each_txn st(1) st1(1) st2(1)
        tracked_print [OF st(2)] tracked_print [OF st1(2)] view_get [OF st2(2)] check_each_ok assert_that_def del: upt.simps)
qed

lemma flat_put:
  assumes st: "tracked ps n 0 t st" "leaf_of K m t" and ps: "page_size_ok ps"
    and K: "finite K" "11 + (4 + m) * card K \<le> ps" "m \<le> max_kv_size ps"
    and kv: "k \<in> K" "length k + length v \<le> m" and n: "n < 2 ^ 30"
  obtains st' t' where "put_unwrap st k v = Some st'" "tracked ps (Suc n) 0 t' st'" "leaf_of K m t'"
    "contents t' = upsert k v (contents t)" "readers st' = readers st"
    "run_step ps (readers st) (position 0 t st) (position 0 t' st')"
proof -
  have small: "length k + length v \<le> max_kv_size ps" using kv(2) K(3) by simp
  obtain st1 h1 t1 where st1: "put_unwrap st k v = Some st1" "tracked ps (Suc n) h1 t1 st1"
    "contents t1 = upsert k v (contents t)" "readers st1 = readers st"
    "run_step ps (readers st) (position 0 t st) (position h1 t1 st1)"
    by (rule tracked_put [OF st(1) ps small n])
  have ok: "store_ok memory_ops memory_inv 0 t st" "page_size memory_ops (store_io st) = ps" "within_run ps n 0 (write_lock st)"
    using st(1) by (simp_all add: tracked_def)
  have "run_reach ps (Suc n) < 2 ^ 64" using ps n by (intro run_reach_64) simp_all
  then have reach: "put_reach ps 0 (write_lock st) < 2 ^ 64" "put_reach ps 0 (write_lock st) \<le> 2 ^ 64"
    using within_run_reach [OF ok(3)] by linarith+
  have put: "engine_put memory_ops st k v = Some (Inr (), st1)"
    using st1(1) by (simp add: put_unwrap_iff)
  have "store_ok memory_ops memory_inv h1 t1 st1" using st1(2) by (simp add: tracked_def)
  then have "h1 = 0 \<and> leaf_of K m t1"
    by (rule mem.leaf_stays [OF ok(1,2) st(2) K kv reach put _ st1(3)])
  then show ?thesis using that st1 by blast
qed

lemma flat_puts:
  assumes ps: "page_size_ok ps" and K: "finite K" "11 + (4 + m) * card K \<le> ps" "m \<le> max_kv_size ps"
  shows "tracked ps n 0 t st \<Longrightarrow> leaf_of K m t \<Longrightarrow> n + length kvs \<le> 2 ^ 30 \<Longrightarrow>
    \<forall>(k, v) \<in> set kvs. k \<in> K \<and> length k + length v \<le> m \<Longrightarrow>
    \<exists>st' t'. put_all memory_ops st kvs = Some st' \<and> tracked ps (n + length kvs) 0 t' st' \<and> leaf_of K m t' \<and>
      contents t' = upserts kvs (contents t) \<and> readers st' = readers st \<and> (run_step ps (readers st) ^^ length kvs) (position 0 t st) (position 0 t' st')"
proof (induction kvs arbitrary: n t st)
  case (Cons p kvs)
  obtain k v where p: "p = (k, v)" by (cases p)
  have kv: "k \<in> K" "length k + length v \<le> m" "n < 2 ^ 30" using Cons.prems(3,4) p by simp_all
  obtain st1 t1 where 1: "put_unwrap st k v = Some st1" "tracked ps (Suc n) 0 t1 st1" "leaf_of K m t1"
    "readers st1 = readers st" "run_step ps (readers st) (position 0 t st) (position 0 t1 st1)"
    and c1: "contents t1 = upsert k v (contents t)"
    by (rule flat_put [OF Cons.prems(1,2) ps K kv])
  obtain st' t' where 2: "put_all memory_ops st1 kvs = Some st'" "tracked ps (Suc n + length kvs) 0 t' st'" "leaf_of K m t'"
    "readers st' = readers st1" "(run_step ps (readers st1) ^^ length kvs) (position 0 t1 st1) (position 0 t' st')"
    and c2: "contents t' = upserts kvs (contents t1)"
    using Cons.IH [OF 1(2,3)] Cons.prems(3,4) by auto
  have "put_all memory_ops st (p # kvs) = Some st'"
    using 1(1) 2(1) unfolding p put_each_all [symmetric] by simp
  moreover have "(run_step ps (readers st) ^^ length (p # kvs)) (position 0 t st) (position 0 t' st')"
    using relpowp_Suc_I2 [OF 1(5) 2(5) [unfolded 1(4)]] by simp
  moreover have "contents t' = upserts (p # kvs) (contents t)" using c1 c2 p by simp
  ultimately show ?case using 1(4) 2(2-4) by auto
qed auto

text \<open>After the puts, at least one, one page is free and three ids are taken beside the leaf.\<close>

lemma flat_numbers:
  assumes "(run_step 4096 0 ^^ Suc n) s (position 0 t st)" "lean 4096 s" "leaf_of K m t"
  shows "free_list_len st = 1" "unat (allocated_pages st) = 4"
proof -
  have "length (free_list (write_lock st)) = 1 \<and> pending_free (write_lock st) = [] \<and>
      length (free_list_page_ids (write_lock st)) = chain_need 4096 1"
    using assms(1,2) by (rule flat_run)
  moreover have "accounted t (write_lock st)"
    using lean_run [OF assms(1,2)] by (simp add: lean_def)
  ultimately show "free_list_len st = 1" "unat (allocated_pages st) = 4"
    using assms(3)
    by (auto simp: free_list_len_def allocated_pages_def accounted_def leaf_of_def chain_need_def div_ceil_def)
qed

lemma store_test_overwrites_passes: "store_test_overwrites printable = Some ()"
proof -
  let ?ks = "map (key_format ''key'' 3) [0..<50]" and ?K = "key_format ''key'' 3 ` {..<50}"
  let ?kvs1 = "map (\<lambda>k. (k, bytes_of ''v1'')) ?ks"
    and ?kvs2 = "concat (replicate 20 (map (\<lambda>k. (k, bytes_of ''v2'')) ?ks))"
  have len: "length (key_format ''key'' 3 i) = 6" if "i < 50" for i
    using that key_format_len [of 3 i "''key''"] by simp
  have K: "finite ?K" "11 + (4 + 8) * card ?K \<le> 4096" "8 \<le> max_kv_size 4096"
    unfolding card_numbered by (simp_all add: test_limits)
  have kvs1: "\<forall>(k, v) \<in> set ?kvs1. k \<in> ?K \<and> length k + length v \<le> 8" using len by fastforce
  have kvs2: "\<forall>(k, v) \<in> set ?kvs2. k \<in> ?K \<and> length k + length v \<le> 8" using len by fastforce
  have lens: "length ?kvs1 = Suc 49" "length ?kvs2 = 1000" by (simp_all add: length_concat sum_list_replicate)
  obtain st where st: "engine_in_memory 4096 = Some st" "tracked 4096 0 0 (CLeaf 1 []) st" "readers st = 0"
    "lean 4096 (position 0 (CLeaf 1 []) st)"
    using tracked_open [OF page_4096] .
  have leaf: "leaf_of ?K 8 (CLeaf 1 [])" by (simp add: leaf_of_def)
  have "0 + length ?kvs1 \<le> 2 ^ 30" unfolding lens by simp
  from flat_puts [OF page_4096 K st(2) leaf this kvs1]
  obtain st1 t1 where st1: "put_all memory_ops st ?kvs1 = Some st1" "tracked 4096 (0 + length ?kvs1) 0 t1 st1"
    "leaf_of ?K 8 t1" "readers st1 = 0"
    and run1: "(run_step 4096 0 ^^ Suc 49) (position 0 (CLeaf 1 []) st) (position 0 t1 st1)"
    unfolding lens st(3) by blast
  have "0 + length ?kvs1 + length ?kvs2 \<le> 2 ^ 30" unfolding lens by simp
  from flat_puts [OF page_4096 K st1(2,3) this kvs2]
  obtain st2 t2 where st2: "put_all memory_ops st1 ?kvs2 = Some st2" "tracked 4096 (0 + length ?kvs1 + length ?kvs2) 0 t2 st2"
    "leaf_of ?K 8 t2" and run2: "(run_step 4096 0 ^^ 1000) (position 0 t1 st1) (position 0 t2 st2)"
    unfolding lens st1(4) by blast
  have "(run_step 4096 0 ^^ Suc 999) (position 0 t1 st1) (position 0 t2 st2)" using run2 by simp
  then have numbers2: "unat (allocated_pages st2) = 4"
    using lean_run [OF run1 st(4)] st2(3) by (rule flat_numbers(2))
  note numbers1 = flat_numbers [OF run1 st(4) st1(3)]
  have "allocated_pages st1 = 4" "allocated_pages st2 = 4"
    using numbers1(2) numbers2 by (simp_all add: word_unat_eq_iff)
  then have "u64_mul (allocated_pages st1) 2 = Some 8" "allocated_pages st2 < 8" by (simp_all add: u64_mul_def)
  then show ?thesis
    unfolding store_test_overwrites_def Let_def store_open_in_memory st(1) bind.simps tracked_print [OF st(2)] put_each_txn
      st1(1) tracked_print [OF st1(2)] numbers1(1) st2(1) tracked_print [OF st2(2)]
    by (simp add: assert_that_def)
qed

text \<open>A put with no reader inside leaves no page waiting and some page free.\<close>

lemma gate_open:
  assumes "(run_step ps 0 ^^ Suc n) s (position h t st)"
  shows "pending_free (write_lock st) = [] \<and> free_list (write_lock st) \<noteq> []"
proof -
  obtain u where "run_step ps 0 u (position h t st)" using assms by auto
  then show ?thesis by (cases u) (simp add: run_step_def)
qed

text \<open>The value that the last pass over the keys has put.\<close>

lemma last_pass:
  assumes "k \<in> fst ` set kvs" "\<And>p. p \<in> set kvs \<Longrightarrow> snd p = v"
  shows "map_of (upserts kvs cs) k = Some v"
  using map_of_puts [of kvs k v] assms by (simp add: map_of_upserts)

lemma alloc_free:
  assumes "free_list (write_lock st) \<noteq> []"
  obtains i tx where "txn_alloc (begin_write st) = Some (i, tx)" "i \<in> set (free_list_snapshot st)"
    "store_io (txn_store tx) = store_io st" "root (txn_store tx) = root st"
  using assms that
  by (simp add: txn_alloc_def Let_def begin_write_def guard_def set_guard_def free_list_snapshot_def)

lemma store_test_free_list_survives_passes: "store_test_free_list_survives = Some ()"
proof -
  let ?ks = "map (key_format ''key'' 3) [0..<50]"
  let ?kvs = "\<lambda>v. map (\<lambda>k. (k, bytes_of v)) ?ks"
  have len: "length (key_format ''key'' 3 i) = 6" if "i < 50" for i
    using that key_format_len [of 3 i "''key''"] by simp
  have kvs: "\<forall>(k, v) \<in> set (?kvs v). length k + length v \<le> max_kv_size 4096" if "length v = 2" for v
    using len that by (fastforce simp: test_limits)
  have lens: "length (?kvs v) = Suc 49" for v by simp
  obtain st where st: "engine_in_memory 4096 = Some st" "tracked 4096 0 0 (CLeaf 1 []) st" "readers st = 0"
    using tracked_open [OF page_4096] by metis
  have small: "\<forall>(k, v) \<in> set (?kvs ''v1''). length k + length v \<le> max_kv_size 4096"
    "\<forall>(k, v) \<in> set (?kvs ''v2''). length k + length v \<le> max_kv_size 4096"
    by (rule kvs, simp)+
  obtain st1 h1 t1 where st1: "put_all memory_ops st (?kvs ''v1'') = Some st1"
    "tracked 4096 (0 + length (?kvs ''v1'')) h1 t1 st1" "readers st1 = readers st"
    by (rule tracked_puts [OF st(2) page_4096 small(1)]) simp_all
  obtain st2 h2 t2 where st2: "put_all memory_ops st1 (?kvs ''v2'') = Some st2"
    "tracked 4096 (0 + length (?kvs ''v1'') + length (?kvs ''v2'')) h2 t2 st2"
    "contents t2 = upserts (?kvs ''v2'') (contents t1)"
    "(run_step 4096 (readers st1) ^^ length (?kvs ''v2'')) (position h1 t1 st1) (position h2 t2 st2)"
    by (rule tracked_puts [OF st1(2) page_4096 small(2)]) simp_all
  have free: "pending_free (write_lock st2) = [] \<and> free_list (write_lock st2) \<noteq> []"
    using st2(4) unfolding lens st1(3) st(3) by (rule gate_open)
  obtain st3 where st3: "store_open (memory_reopen (store_io st2)) = Some st3" "store_ok memory_ops memory_inv h2 t2 st3"
    "free_list (write_lock st3) = free_list (write_lock st2)"
    using tracked_reopen [OF st2(2)] free by (metis append_Nil2)
  obtain i tx where tx: "txn_alloc (begin_write st3) = Some (i, tx)" "i \<in> set (free_list_snapshot st3)"
    "store_io (txn_store tx) = store_io st3" "root (txn_store tx) = root st3"
    using alloc_free [of st3] free st3(3) by metis
  have "map_of (contents t2) k = Some (bytes_of ''v2'')" if "k \<in> set ?ks" for k
    unfolding st2(3) using that by (intro last_pass) force+
  then have gets: "check_each (\<lambda>k. assert_view (enter_read (txn_store tx)) k (Some (bytes_of ''v2''))) ?ks = Some ()"
    unfolding check_each_ok view_get [OF st3(2) tx(3,4)] by (simp add: assert_that_def)
  have io: "memory_reopen (memory_new 4096) = memory_new 4096" by (simp add: memory_reopen_def)
  have lens': "free_list_len st3 = free_list_len st2" "0 < free_list_len st2"
    using free st3(3) by (simp_all add: free_list_len_def)
  show ?thesis
    unfolding store_test_free_list_survives_def Let_def io store_open_in_memory st(1) bind.simps put_each_txn st1(1) st2(1)
      st3(1) tx(1) prod.case gets
    using lens' tx(2) by (simp add: assert_that_def)
qed

lemma store_test_free_list_chain_passes: "store_test_free_list_chain = Some ()"
proof -
  let ?ks = "map (key_format ''key'' 2) [0..<8]"
  let ?kvs0 = "map (\<lambda>k. (k, bytes_of ''v0'')) ?ks"
    and ?kvs1 = "concat (replicate (13 + 5) (map (\<lambda>k. (k, bytes_of ''v1'')) ?ks))"
    and ?trigger = "bytes_of ''trigger''"
  have ps: "page_size_ok 128" by (simp add: test_limits)
  have len: "length (key_format ''key'' 2 i) = 5" if "i < 8" for i
    using that key_format_len [of 2 i "''key''"] by simp
  have small: "\<forall>(k, v) \<in> set ?kvs0. length k + length v \<le> max_kv_size 128"
    "\<forall>(k, v) \<in> set ?kvs1. length k + length v \<le> max_kv_size 128"
    "length ?trigger + length (bytes_of ''v'') \<le> max_kv_size 128"
    using len by (fastforce simp: test_limits)+
  have lens: "length ?kvs0 = 8" "length ?kvs1 = 144" by (simp_all add: length_concat sum_list_replicate)
  obtain st where st: "engine_in_memory 128 = Some st" "tracked 128 0 0 (CLeaf 1 []) st" "readers st = 0"
    using tracked_open [OF ps] by metis
  obtain st1 h1 t1 where st1: "put_all memory_ops st ?kvs0 = Some st1" "tracked 128 (0 + length ?kvs0) h1 t1 st1"
    "readers st1 = readers st"
    by (rule tracked_puts [OF st(2) ps small(1)]) simp_all
  have held: "tracked 128 (0 + length ?kvs0) h1 t1 (enter_read st1)" "readers (enter_read st1) = 1"
    using st1(2,3) st(3) by (simp_all add: tracked_def enter_read_def)
  obtain st2 h2 t2 where st2: "put_all memory_ops (enter_read st1) ?kvs1 = Some st2"
    "tracked 128 (0 + length ?kvs0 + length ?kvs1) h2 t2 st2" "contents t2 = upserts ?kvs1 (contents t1)"
    "readers st2 = readers (enter_read st1)"
    "(run_step 128 (readers (enter_read st1)) ^^ length ?kvs1) (position h1 t1 (enter_read st1)) (position h2 t2 st2)"
    by (rule tracked_puts [OF held(1) ps small(2)]) (simp_all only: lens, simp)
  have pending: "144 \<le> length (pending_free (write_lock st2))"
    using pending_run [OF st2(5)] held(2) unfolding lens by simp
  have dropped: "tracked 128 (0 + length ?kvs0 + length ?kvs1) h2 t2 (drop_read st2)" "readers (drop_read st2) = 0"
    "write_lock (drop_read st2) = write_lock st2"
    using st2(2,4) held(2) by (simp_all add: tracked_def drop_read_def)
  have n: "0 + length ?kvs0 + length ?kvs1 < 2 ^ 30" unfolding lens by simp
  obtain st3 h3 t3 where st3: "put_unwrap (drop_read st2) ?trigger (bytes_of ''v'') = Some st3"
    "tracked 128 (Suc (0 + length ?kvs0 + length ?kvs1)) h3 t3 st3"
    "contents t3 = upsert ?trigger (bytes_of ''v'') (contents t2)"
    "run_step 128 (readers (drop_read st2)) (position h2 t2 (drop_read st2)) (position h3 t3 st3)"
    by (rule tracked_put [OF dropped(1) ps small(3) n])
  have free: "144 < free_list_len st3" "pending_free (write_lock st3) = []"
    using st3(4) pending unfolding dropped(2) run_step_def by (auto simp: spends_def dropped(3) free_list_len_def)
  obtain st4 where st4: "store_open (memory_reopen (store_io st3)) = Some st4" "store_ok memory_ops memory_inv h3 t3 st4"
    "free_list (write_lock st4) = free_list (write_lock st3) @ pending_free (write_lock st3)"
    by (rule tracked_reopen [OF st3(2)])
  have other: "key_format ''key'' 2 i \<noteq> ?trigger" if "i < 8" for i
    using len [OF that] by auto
  have "map_of (contents t3) k = Some (bytes_of ''v1'')" if k: "k \<in> set ?ks" for k
  proof -
    have "map_of (contents t2) k = Some (bytes_of ''v1'')"
      unfolding st2(3) using k by (intro last_pass) force+
    moreover have "k \<noteq> ?trigger" using k other by auto
    ultimately show ?thesis by (simp add: st3(3) map_of_upsert)
  qed
  then have gets: "check_each (\<lambda>k. assert_view (enter_read st4) k (Some (bytes_of ''v1''))) ?ks = Some ()"
    "assert_view (enter_read st4) ?trigger (Some (bytes_of ''v'')) = Some ()"
    unfolding check_each_ok view_get [OF st4(2) refl refl] by (simp_all add: assert_that_def st3(3) map_of_upsert)
  have cap: "free_list_capacity 128 = Some 13" by (simp add: free_list_capacity_def FREE_LIST_HEADER_def)
  have io: "memory_reopen (memory_new 128) = memory_new 128" by (simp add: memory_reopen_def)
  have "free_list_len st4 = free_list_len st3" using free(2) st4(3) by (simp add: free_list_len_def)
  then show ?thesis
    unfolding store_test_free_list_chain_def Let_def cap io store_open_in_memory st(1) bind.simps put_each_txn st1(1) st2(1)
      txn_put_unwrap st3(1) st4(1) gets
    using free(1) by (simp add: assert_that_def)
qed

section \<open>Property\<close>

text \<open>C18. The unit tests of the crate, those of the pages, the store and the engine, pass on the model: hundreds of
  puts over splits and root growth, overwrites that reuse the freed pages, a held reader, reopening with
  the free list in several pages, the limit on entries. The two tests that are to panic panic.\<close>

theorem unit_tests_pass:
  "limits_test = Some () \<and>
   free_list_test_round_trip = Some () \<and> free_list_test_end_of_chain = Some () \<and> free_list_test_capacity = Some () \<and>
   leaf_test_round_trip_populated = Some () \<and> leaf_test_round_trip_empty = Some () \<and>
   leaf_test_mismatched_id = None \<and> leaf_test_search = Some () \<and> leaf_test_split = Some () \<and>
   internal_test_round_trip = Some () \<and> internal_test_mismatched_id = None \<and> internal_test_child_index = Some () \<and>
   internal_test_insert_example = Some () \<and> internal_test_insert_zero = Some () \<and> internal_test_insert_end = Some () \<and>
   internal_test_split = Some () \<and> internal_test_two_max_separators = Some () \<and>
   engine_test_round_trip printable = Some () \<and> engine_test_upsert printable = Some () \<and>
   engine_test_missing printable = Some () \<and> engine_test_empty = Some () \<and> engine_test_bulk printable = Some () \<and>
   engine_test_small_page printable = Some () \<and> engine_test_boundary printable = Some () \<and>
   store_test_bootstrap = Some () \<and> store_test_reopen printable = Some () \<and> store_test_overwrites printable = Some () \<and>
   store_test_free_list_survives = Some () \<and> store_test_free_list_chain = Some ()"
  by (intro conjI limits_test_passes free_list_tests_pass leaf_tests_pass leaf_test_split_passes internal_tests_pass
      internal_test_split_passes engine_test_round_trip_passes engine_test_upsert_passes engine_test_missing_passes
      engine_test_empty_passes engine_test_bulk_passes engine_test_small_page_passes engine_test_boundary_passes
      store_test_bootstrap_passes store_test_reopen_passes store_test_overwrites_passes
      store_test_free_list_survives_passes store_test_free_list_chain_passes)

end
