(* ===== verification/Leak.thy ===== *)
theory Leak
  imports Store_Tests
begin

text \<open>
  A run that loses a page for good. The chain that holds the free list never shrinks while the store is
  open; an open of the backend follows only the pages of the chain that are in use, and the others are
  then neither free nor in the chain.
\<close>

lemma reopened_pages:
  assumes "accounted t (write_lock st)"
  shows "unat (next_page_id (write_lock (reopened ops st))) + length (chain_used ops st) =
    1 + length (ids t @ free_list (write_lock (reopened ops st)) @ pending_free (write_lock (reopened ops st)) @
      free_list_page_ids (write_lock (reopened ops st))) + length (free_list_page_ids (write_lock st))"
  using assms by (simp add: accounted_def)

text \<open>Puts on a single leaf while a reader is inside: nothing becomes free.\<close>

lemma held_run:
  assumes "(run_step ps r ^^ n) (0, t0, g0) (0, t, g)" "r \<noteq> 0" "length (ids t) = 1"
    and "length (free_list g0) = 1" "pending_free g0 = []" "0 < length (ids t0)"
  shows "length (free_list g @ pending_free g) = max 1 n \<and> length (pending_free g) = n"
  using assms(1,3)
proof (induction n arbitrary: t g)
  case (Suc n)
  then obtain h1 t1 g1 where u: "(run_step ps r ^^ n) (0, t0, g0) (h1, t1, g1)" "run_step ps r (h1, t1, g1) (0, t, g)"
    by auto
  have spends: "spends ps h1 t1 g1 0 t g" and more: "length (pending_free g1) < length (pending_free g)"
    using u(2) assms(2) by (simp_all add: run_step_def)
  have h1: "h1 = 0" using spends by (simp add: spends_def)
  have "0 < length (ids t1)" "length (ids t1) \<le> length (ids t)"
    using spends by (simp_all add: ids_below spends_def)
  then have one: "length (ids t1) = 1" using Suc.prems(2) by linarith
  have "length (free_list g1 @ pending_free g1) = max 1 n \<and> length (pending_free g1) = n"
    by (rule Suc.IH [OF u(1) [unfolded h1] one])
  then show ?case using spends more one Suc.prems(2) unfolding h1 by (auto simp: spends_def)
qed (use assms(4,5) in simp)

section \<open>The run\<close>

text \<open>
  Pages of 64 bytes: a leaf holds three entries of the run, and a page of the chain holds five ids. Three
  keys are put; then one of them five times while a reader is inside, and once more after it has left.
  Now six pages are free, in a chain of two pages. The fourth key splits the leaf: at most four pages are
  free, the chain needs one page, and the other one is only remembered by the store that is open.
\<close>

definition first_puts :: "(key \<times> val) list" where
  "first_puts = map (\<lambda>k. entry k 0) [1, 2, 3]"

definition overwrites :: "nat \<Rightarrow> (key \<times> val) list" where
  "overwrites n = replicate n (entry 1 7)"

lemma five_times: "replicate 5 x = [x, x, x, x, x]"
  by (simp add: numeral_eq_Suc)

lemma leaf_of_ids: "leaf_of K m t \<Longrightarrow> length (ids t) = 1"
  by (auto simp: leaf_of_def)

lemma chain_need_64: "chain_need 64 1 = 1" "chain_need 64 4 = 1" "chain_need 64 6 = 2"
  by (simp_all add: chain_need_def div_ceil_def)

lemma six_free:
  obtains st0 st1 st2 st3 t where "engine_in_memory 64 = Some st0" "put_all memory_ops st0 first_puts = Some st1"
    "put_all memory_ops (enter_read st1) (overwrites 5) = Some st2"
    "put_all memory_ops (drop_read st2) (overwrites 1) = Some st3"
    "tracked 64 9 0 t st3" "accounted t (write_lock st3)" "length (ids t) = 1" "readers st3 = 0"
    "length (free_list (write_lock st3)) = 6" "pending_free (write_lock st3) = []"
    "2 \<le> length (free_list_page_ids (write_lock st3))" "contents t = [entry 1 7, entry 2 0, entry 3 0]"
proof -
  let ?K = "{[1], [2], [3]} :: key set" and ?t0 = "CLeaf 1 []"
  have ps: "page_size_ok 64" by (simp add: test_limits)
  have K: "finite ?K" "11 + (4 + 12) * card ?K \<le> 64" "12 \<le> max_kv_size 64" by (simp_all add: test_limits)
  have puts: "\<forall>(k, v) \<in> set first_puts. k \<in> ?K \<and> length k + length v \<le> 12"
    "\<forall>(k, v) \<in> set (overwrites n). k \<in> ?K \<and> length k + length v \<le> 12" for n
    by (auto simp: first_puts_def overwrites_def entry_def)
  have len: "length first_puts = Suc 2" "length (overwrites n) = n" for n
    by (simp_all add: first_puts_def overwrites_def)
  obtain st0 where st0: "engine_in_memory 64 = Some st0" "tracked 64 0 0 ?t0 st0" "readers st0 = 0"
    "lean 64 (position 0 ?t0 st0)"
    by (rule tracked_open [OF ps])
  have leaf0: "leaf_of ?K 12 ?t0" by (simp add: leaf_of_def)
  obtain st1 t1 where st1: "put_all memory_ops st0 first_puts = Some st1" "tracked 64 3 0 t1 st1" "leaf_of ?K 12 t1"
    "contents t1 = upserts first_puts []" "readers st1 = 0"
    and run1: "(run_step 64 0 ^^ Suc 2) (position 0 ?t0 st0) (position 0 t1 st1)"
    using flat_puts [OF ps K st0(2) leaf0 _ puts(1)] unfolding len st0(3) by auto
  note flat1 = flat_run [OF run1 st0(4)]
  have acc1: "accounted t1 (write_lock st1)" using lean_run [OF run1 st0(4)] by (simp add: lean_def)
  have held: "tracked 64 3 0 t1 (enter_read st1)" "readers (enter_read st1) = 1" "write_lock (enter_read st1) = write_lock st1"
    using st1(2,5) by (simp_all add: tracked_def enter_read_def)
  obtain st2 t2 where st2: "put_all memory_ops (enter_read st1) (overwrites 5) = Some st2" "tracked 64 8 0 t2 st2"
    "leaf_of ?K 12 t2" "contents t2 = upserts (overwrites 5) (contents t1)" "readers st2 = 1"
    and run2: "(run_step 64 1 ^^ 5) (position 0 t1 st1) (position 0 t2 st2)"
    using flat_puts [OF ps K held(1) st1(3) _ puts(2) [of 5]] unfolding len held(2,3) by auto
  have acc2: "accounted t2 (write_lock st2)" by (rule accounted_run [OF run2 acc1])
  have "length (ids t1) = 1" "length (ids t2) = 1" using st1(3) st2(3) by (auto dest: leaf_of_ids)
  then have five: "length (free_list (write_lock st2) @ pending_free (write_lock st2)) = 5"
    "length (pending_free (write_lock st2)) = 5"
    using held_run [OF run2] flat1 by auto
  have dropped: "tracked 64 8 0 t2 (drop_read st2)" "readers (drop_read st2) = 0" "write_lock (drop_read st2) = write_lock st2"
    using st2(2,5) by (simp_all add: tracked_def drop_read_def)
  obtain st3 t3 where st3: "put_all memory_ops (drop_read st2) (overwrites 1) = Some st3" "tracked 64 9 0 t3 st3"
    "leaf_of ?K 12 t3" "contents t3 = upserts (overwrites 1) (contents t2)" "readers st3 = 0"
    and run3: "(run_step 64 0 ^^ 1) (position 0 t2 st2) (position 0 t3 st3)"
    using flat_puts [OF ps K dropped(1) st2(3) _ puts(2) [of 1]] unfolding len dropped(2,3) by auto
  have spends: "spends 64 0 t2 (write_lock st2) 0 t3 (write_lock st3)" and pend: "pending_free (write_lock st3) = []"
    using run3 by (simp_all add: run_step_def eq_OO)
  have ids3: "length (ids t3) = 1" "length (ids t2) = 1" using st2(3) st3(3) by (auto dest: leaf_of_ids)
  have six: "length (free_list (write_lock st3)) = 6"
    using spends pend five ids3 by (auto simp: spends_def)
  then have "2 \<le> length (free_list_page_ids (write_lock st3))"
    using spends pend chain_need_64(3) by (simp add: spends_def)
  moreover have "contents t3 = [entry 1 7, entry 2 0, entry 3 0]"
    by (simp add: st1(4) st2(4) st3(4) first_puts_def overwrites_def five_times entry_def)
  moreover have "accounted t3 (write_lock st3)" by (rule accounted_run [OF run3 acc2])
  ultimately show ?thesis
    using that [OF st0(1) st1(1) st2(1) st3(1,2)] ids3(1) st3(5) six pend by blast
qed

text \<open>Four entries of 16 bytes do not fit into one leaf of a page of 64 bytes.\<close>

lemma four_entries_three_pages:
  assumes "sized 64 t" "length (enc_entries (contents t)) = 64"
  shows "3 \<le> length (ids t)"
proof (cases t)
  case (CLeaf i es)
  then show ?thesis using assms by simp
next
  case (CNode i ks ts)
  then have "2 \<le> length ts" using assms(1) by (cases ks) auto
  also have "length ts \<le> length (concat (map ids ts))"
    by (induction ts) (auto simp: ids_below Suc_le_eq)
  finally show ?thesis using CNode by simp
qed

text \<open>The split of the leaf uses two of the six free pages; the chain does not give back the second of its own.\<close>

lemma split_shortens_chain:
  assumes "spends 64 0 t3 (write_lock st3) h t (write_lock st4)" "length (ids t3) = 1"
    and "length (free_list (write_lock st3)) = 6" "pending_free (write_lock st3) = []"
    and "2 \<le> length (free_list_page_ids (write_lock st3))" "pending_free (write_lock st4) = []"
    and "3 \<le> length (ids t)" "page_size ops (store_io st4) = 64"
  shows "length (chain_used ops st4) \<le> 1" "2 \<le> length (free_list_page_ids (write_lock st4))"
proof -
  have "length (free_list (write_lock st4)) \<le> 4"
    using assms(1-4,6,7) by (auto simp: spends_def)
  then have "chain_need 64 (length (free_list (write_lock st4))) \<le> 1"
    using chain_need_mono [of "length (free_list (write_lock st4))" 4 64] chain_need_64(2) by simp
  then show "length (chain_used ops st4) \<le> 1"
    using assms(6,8) by (simp add: chain_used_def Let_def min_le_iff_disj)
  show "2 \<le> length (free_list_page_ids (write_lock st4))"
    using assms(1,5) by (simp add: spends_def)
qed

section \<open>Property\<close>

text \<open>C16. Reopening can lose pages for good. There is a run of a new engine with pages of 64 bytes in which
  every page id is accounted for as a page of the tree, a free or waiting page, a page of the chain or
  the header, and in which an open of the same backend then succeeds with the same tree, but with a page
  id that has none of these roles: no operation of the store can hand it out again.\<close>

theorem reopen_loses_page:
  "\<exists>st0 st1 st2 st3 st4 st5 h t. engine_in_memory 64 = Some st0 \<and>
    put_all memory_ops st0 first_puts = Some st1 \<and>
    put_all memory_ops (enter_read st1) (overwrites 5) = Some st2 \<and>
    put_all memory_ops (drop_read st2) (overwrites 1) = Some st3 \<and>
    put_all memory_ops st3 [entry 4 0] = Some st4 \<and>
    store_ok memory_ops memory_inv h t st4 \<and> accounted t (write_lock st4) \<and>
    open_or_create memory_ops (store_io st4) = Some (Inr st5) \<and> store_ok memory_ops memory_inv h t st5 \<and>
    1 + length (ids t @ free_list (write_lock st5) @ pending_free (write_lock st5) @ free_list_page_ids (write_lock st5)) <
      unat (next_page_id (write_lock st5))"
proof -
  obtain st0 st1 st2 st3 t3 where run: "engine_in_memory 64 = Some st0" "put_all memory_ops st0 first_puts = Some st1"
    "put_all memory_ops (enter_read st1) (overwrites 5) = Some st2"
    "put_all memory_ops (drop_read st2) (overwrites 1) = Some st3"
    and st3: "tracked 64 9 0 t3 st3" "accounted t3 (write_lock st3)" "length (ids t3) = 1" "readers st3 = 0"
    "length (free_list (write_lock st3)) = 6" "pending_free (write_lock st3) = []"
    "2 \<le> length (free_list_page_ids (write_lock st3))" "contents t3 = [entry 1 7, entry 2 0, entry 3 0]"
    by (rule six_free)
  have small: "\<forall>(k, v) \<in> set [entry 4 0]. length k + length v \<le> max_kv_size 64"
    by (simp add: entry_def test_limits)
  obtain st4 h t where st4: "put_all memory_ops st3 [entry 4 0] = Some st4"
    "tracked 64 (9 + length [entry 4 0]) h t st4" "contents t = upserts [entry 4 0] (contents t3)"
    "(run_step 64 (readers st3) ^^ length [entry 4 0]) (position 0 t3 st3) (position h t st4)"
    by (rule tracked_puts [OF st3(1) _ small]) (simp_all add: test_limits)
  have run4: "run_step 64 0 (position 0 t3 st3) (position h t st4)" using st4(4) unfolding st3(4) by (simp add: eq_OO)
  have spends: "spends 64 0 t3 (write_lock st3) h t (write_lock st4)" and pend: "pending_free (write_lock st4) = []"
    using run4 by (simp_all add: run_step_def)
  have ok: "store_ok memory_ops memory_inv h t st4" "page_size memory_ops (store_io st4) = 64"
    using st4(2) by (simp_all add: tracked_def)
  have "length (enc_entries (contents t)) = 64"
    using st4(3) st3(8) by (simp add: entry_def length_enc_entry)
  with ok have "3 \<le> length (ids t)"
    by (intro four_entries_three_pages) (simp_all add: store_ok_def tree_ok_def)
  note short = split_shortens_chain [OF spends st3(3,5-7) pend this ok(2)]
  have acc: "accounted t (write_lock st4)" using spends st3(2) by (rule spends_accounted)
  note opened = mem.reopen_ok [OF ok(1)]
  have "1 + length (ids t @ free_list (write_lock (reopened memory_ops st4)) @
      pending_free (write_lock (reopened memory_ops st4)) @ free_list_page_ids (write_lock (reopened memory_ops st4))) <
    unat (next_page_id (write_lock (reopened memory_ops st4)))"
    using reopened_pages [OF acc, of memory_ops] short by linarith
  then show ?thesis using run st4(1) ok(1) acc opened by blast
qed

end
