(* ===== verification/File_Size.thy ===== *)
theory File_Size
  imports Engine_Correct
begin

text \<open>
  How long the file of the memory-mapped backend gets, \<open>MmapPageIo\<close> of \<open>src/01-btree/src/io/file_backend.rs\<close>:
  the store writes only pages whose ids it has handed out, so the file never grows past
  \<open>next_page_id\<close> pages, and what is known of the page ids bounds its length.
\<close>

section \<open>Writes below a page id\<close>

text \<open>\<open>within N ps io\<close>: the mapping is well-formed and its file has at most \<open>N\<close> pages of \<open>ps\<close> bytes.\<close>

definition within :: "nat \<Rightarrow> nat \<Rightarrow> mmap_page_io \<Rightarrow> bool" where
  "within N ps io \<longleftrightarrow> mmap_inv io \<and> mmap_page_size io = ps \<and> length (file_bytes io) \<le> N * ps"

lemma within_mono: "within m ps io \<Longrightarrow> m \<le> n \<Longrightarrow> within n ps io"
  unfolding within_def using mult_le_mono1 le_trans by blast

lemma within_write:
  assumes "within N ps io" "mmap_write_page io i bs = Some io'" "unat i < N"
  shows "within N ps io'"
proof -
  have io: "mmap_inv io" "mmap_page_size io = ps" "length (file_bytes io) \<le> N * ps"
    using assms(1) by (simp_all add: within_def)
  obtain f g where f: "f = set_len (file_bytes io) (max (length (file_bytes io)) (unat i * ps + ps))" "length g = length f"
    and io': "io' = io\<lparr>file_bytes := g, committed_len := length g\<rparr>"
    by (rule mmap_write_page_cases [OF io(1) assms(2), unfolded io(2)]) (rule that; assumption)
  have "Suc (unat i) * ps \<le> N * ps" using assms(3) by (intro mult_le_mono1) simp
  then have "length g \<le> N * ps" using f io(3) by simp
  then show ?thesis using mmap_write_page_frame(1,2) [OF io(1) assms(2)] io(2) io' by (simp add: within_def)
qed

lemma within_writes:
  "write_pages mmap_ops io ws = Some io' \<Longrightarrow> within N ps io \<Longrightarrow> \<forall>w \<in> set ws. unat (fst w) < N \<Longrightarrow> within N ps io'"
proof (induction ws arbitrary: io)
  case (Cons w ws)
  then obtain io1 where "mmap_write_page io (fst w) (snd w) = Some io1" "write_pages mmap_ops io1 ws = Some io'"
    by (cases w) (auto simp: bind_eq_Some_conv)
  then show ?case using Cons.IH [of io1] Cons.prems(2,3) within_write by auto
qed simp

lemma within_chain:
  "write_chain mmap_ops ps' pids payload cap needed is io = Some io' \<Longrightarrow> within N ps io \<Longrightarrow>
    \<forall>i \<in> set pids. unat i < N \<Longrightarrow> within N ps io'"
proof (induction "is" arbitrary: io)
  case (Cons i "is")
  then obtain pid bs io1 where 1: "elem_at pids i = Some pid" "mmap_write_page io pid bs = Some io1"
    "write_chain mmap_ops ps' pids payload cap needed is io1 = Some io'"
    by (auto simp: bind_eq_Some_conv)
  then have "pid \<in> set pids" by (auto simp: elem_at_def split: if_splits)
  then have "within N ps io1" using within_write [OF Cons.prems(2) 1(2)] Cons.prems(3) by blast
  then show ?case using Cons.IH 1(3) Cons.prems(3) by blast
qed simp

lemma within_commit:
  assumes "commit mmap_ops tx r = Some tx'" "within N ps (store_io (txn_store tx))"
    and "\<forall>w \<in> set (writes tx). unat (fst w) < N" "0 < N"
    and "\<forall>i \<in> set (free_list_page_ids (guard tx')). unat i < N"
  shows "within N ps (store_io (txn_store tx'))"
proof -
  obtain io1 where io1: "write_pages mmap_ops (store_io (txn_store tx)) (writes tx) = Some io1"
    using assms(1) by (auto simp: commit_def bind_eq_Some_conv)
  define tx1 where "tx1 = promote_pending (tx\<lparr>txn_store := (txn_store tx)\<lparr>store_io := io1\<rparr>\<rparr>)"
  obtain head n tx2 hb io2 io3 where persist: "persist_free_list mmap_ops tx1 = Some (head, n, tx2)"
    and io2: "mmap_write_page (store_io (txn_store tx2)) HEADER_PAGE_ID hb = Some io2" "mmap_sync io2 = Some io3"
    and tx': "tx' = tx2\<lparr>txn_store := (txn_store tx2)\<lparr>store_io := io3, root := r\<rparr>\<rparr>"
    using assms(1) io1 by (auto simp: commit_def Let_def tx1_def bind_eq_Some_conv)
  have "store_io (txn_store tx1) = io1" by (simp add: tx1_def promote_pending_def Let_def set_guard_def)
  moreover have "within N ps io1" by (rule within_writes [OF io1 assms(2,3)])
  moreover have "free_list_page_ids (guard tx') = free_list_page_ids (guard tx2)" by (simp add: tx' guard_def)
  ultimately have "within N ps (store_io (txn_store tx2))"
    using persist assms(5)
    by (auto simp: persist_free_list_def Let_def guard_def bind_eq_Some_conv intro: within_chain)
  then have "within N ps io2" using io2(1) by (rule within_write) (simp add: HEADER_PAGE_ID_def assms(4))
  moreover have "io3 = io2" using io2(2) by (simp add: mmap_sync_def)
  ultimately show ?thesis by (simp add: tx')
qed

lemma commit_next_page_id:
  assumes "commit ops tx r = Some tx'"
  shows "unat (next_page_id (guard tx)) \<le> unat (next_page_id (guard tx'))"
proof -
  obtain io1 where io1: "write_pages ops (store_io (txn_store tx)) (writes tx) = Some io1"
    using assms by (auto simp: commit_def bind_eq_Some_conv)
  define tx1 where "tx1 = promote_pending (tx\<lparr>txn_store := (txn_store tx)\<lparr>store_io := io1\<rparr>\<rparr>)"
  obtain head n tx2 where tx2: "persist_free_list ops tx1 = Some (head, n, tx2)" "guard tx' = guard tx2"
    using assms io1 by (auto simp: commit_def Let_def tx1_def guard_def bind_eq_Some_conv)
  have "next_page_id (guard tx1) = next_page_id (guard tx)"
    by (simp add: tx1_def promote_pending_def Let_def set_guard_def guard_def)
  moreover have "unat (next_page_id (guard tx1)) \<le> unat (next_page_id (guard tx2))"
    using tx2(1) by (auto simp: persist_free_list_def Let_def guard_def bind_eq_Some_conv dest!: extend_chain_grows(1))
  ultimately show ?thesis using tx2(2) by simp
qed

section \<open>Puts\<close>

text \<open>The file of a store has at most \<open>next_page_id\<close> pages.\<close>

definition file_bounded :: "nat \<Rightarrow> mmap_page_io store \<Rightarrow> bool" where
  "file_bounded ps st \<longleftrightarrow> within (unat (next_page_id (write_lock st))) ps (store_io st)"

lemma file_bounded_put:
  assumes st: "store_ok mmap_ops (mmap_at len disk) h t st" "page_size mmap_ops (store_io st) = ps"
    and kv: "length key + length val \<le> max_kv_size ps"
    and room: "put_reach ps h (write_lock st) < 2 ^ 64" "put_reach ps h (write_lock st) \<le> mmap_limit (store_io st)"
    and bounded: "file_bounded ps st" and put: "engine_put mmap_ops st key val = Some (Inr (), st')"
  shows "file_bounded ps st'"
proof -
  note room' = room [folded st(2)]
  obtain tx A F t' h' where tx: "put_prepared mmap_ops (begin_write st) key val = Some (tid t', tx)"
    and prep: "prepared mmap_ops h t st A F h' t' tx"
    using store_put_prepared [OF st(1) kv [folded st(2)] room'(1)] .
  obtain tx' where commit: "commit mmap_ops tx (tid t') = Some tx'" and ok: "store_ok mmap_ops (mmap_at len disk) h' t' (txn_store tx')"
    by (rule mapping.commit_prepared [OF st(1) room' prep]) blast
  have pool: "pool_ok (ids t @ pending_free (write_lock st) @ free_list_page_ids (write_lock st)) (write_lock st)"
    using st(1) by (simp add: store_ok_def)
  note ready = prepared_ready [OF prep pool]
  let ?N = "unat (next_page_id (write_lock (txn_store tx')))"
  have pool': "pool_ok (ids t' @ pending_free (guard tx') @ free_list_page_ids (guard tx')) (guard tx')"
    using ok by (simp add: store_ok_def guard_def)
  have below: "unat i < ?N" if "i \<in> set (ids t') \<or> i \<in> set (free_list_page_ids (guard tx'))" for i
    using pool_ok_less [OF pool', of i] that by (auto simp: guard_def)
  have "unat (next_page_id (write_lock st)) \<le> ?N"
    using ready(8) commit_next_page_id [OF commit] by (simp add: guard_def)
  then have "within ?N ps (store_io (txn_store tx))"
    using bounded ready(1) within_mono by (simp add: file_bounded_def)
  moreover have "\<forall>w \<in> set (writes tx). unat (fst w) < ?N" using ready(12,13) below by blast
  moreover have "0 < ?N" using below [of "tid t'"] prep by (simp add: prepared_def subset_eq)
  moreover have "\<forall>i \<in> set (free_list_page_ids (guard tx')). unat i < ?N" using below by blast
  ultimately have "within ?N ps (store_io (txn_store tx'))" by (rule within_commit [OF commit])
  moreover have "st' = txn_store tx'"
    using put engine_put_prepared [OF tx commit] kv st(2) by simp
  ultimately show ?thesis by (simp add: file_bounded_def)
qed

lemma file_bounded_puts:
  "put_all mmap_ops st kvs = Some st' \<Longrightarrow> store_ok mmap_ops (mmap_at len disk) h t st \<Longrightarrow>
   page_size mmap_ops (store_io st) = ps \<Longrightarrow> readers st = 0 \<Longrightarrow> lean ps (h, t, write_lock st) \<Longrightarrow>
   fst ` set (contents t) \<subseteq> K \<Longrightarrow> finite K \<Longrightarrow> \<forall>(k, v) \<in> set kvs. k \<in> K \<and> length k + length v \<le> max_kv_size ps \<Longrightarrow>
   keys_reach ps (card K) < 2 ^ 64 \<Longrightarrow> keys_reach ps (card K) \<le> mmap_limit (store_io st) \<Longrightarrow>
   file_bounded ps st \<Longrightarrow> file_bounded ps st'"
proof (induction kvs arbitrary: st h t)
  case (Cons p kvs)
  obtain k v where p: "p = (k, v)" by (cases p)
  then have kv: "k \<in> K" "length k + length v \<le> max_kv_size ps" using Cons.prems(8) by simp_all
  obtain st1 t1 h1 where room: "put_reach ps h (write_lock st) < 2 ^ 64" "put_reach ps h (write_lock st) \<le> mmap_limit (store_io st)"
    and put: "engine_put mmap_ops st k v = Some (Inr (), st1)"
    and ok1: "store_ok mmap_ops (mmap_at len disk) h1 t1 st1" "page_size mmap_ops (store_io st1) = ps" "readers st1 = 0"
      "lean ps (h1, t1, write_lock st1)" "fst ` set (contents t1) \<subseteq> K" "mmap_limit (store_io st1) = mmap_limit (store_io st)"
    by (rule mapping.put_lean [OF Cons.prems(2-7) kv Cons.prems(9,10)])
  have rest: "put_all mmap_ops st1 kvs = Some st'" using Cons.prems(1) put by (simp add: p)
  have bounded: "file_bounded ps st1"
    by (rule file_bounded_put [OF Cons.prems(2,3) kv(2) room Cons.prems(11) put])
  show ?case
    by (rule Cons.IH [OF rest ok1(1-5) Cons.prems(7) _ _ _ bounded]) (use Cons.prems(8-10) ok1(6) in simp_all)
qed simp

section \<open>A new file\<close>

lemma within_open:
  assumes "open_or_create mmap_ops io = Some (Inr st)" "within N ps io" "2 \<le> N"
  shows "within N ps (store_io st)"
proof -
  have same: "store_io st = io0" if "store_from_header mmap_ops io0 h = Some st" for io0 h
    using that by (auto simp: store_from_header_def bind_eq_Some_conv)
  obtain bs r where r: "mmap_read_page io HEADER_PAGE_ID = Some bs" "header_from_bytes bs = Some r"
    using assms(1) by (auto simp: open_or_create_def bind_eq_Some_conv)
  show ?thesis
  proof (cases r)
    case (Inr h)
    then show ?thesis
      using assms(1,2) r same by (auto simp: open_or_create_def bind_eq_Some_conv split: if_splits)
  next
    case (Inl e)
    show ?thesis
    proof (cases e)
      case NotAHeader
      with assms(1) r Inl obtain rb io1 hb io2 h where
        w: "mmap_write_page io INITIAL_ROOT_PAGE_ID rb = Some io1" "mmap_write_page io1 HEADER_PAGE_ID hb = Some io2"
        "store_from_header mmap_ops io2 h = Some st"
        by (auto simp: open_or_create_def Let_def mmap_sync_def bind_eq_Some_conv)
      have "within N ps io1"
        using assms(2) w(1) by (rule within_write) (use assms(3) in \<open>simp add: INITIAL_ROOT_PAGE_ID_def\<close>)
      then have "within N ps io2" using w(2) by (rule within_write) (use assms(3) in \<open>simp add: HEADER_PAGE_ID_def\<close>)
      then show ?thesis using same [OF w(3)] by simp
    qed (use assms(1) r Inl in \<open>simp add: open_or_create_def\<close>)
  qed
qed

lemma engine_open_bounded:
  assumes "engine_open os disk [] ps = Some (Inr st)" "\<And>c. os c = None" "page_size_ok ps"
  shows "within 2 ps (store_io st)"
proof -
  obtain io where io: "mmap_open os disk [] ps = Inr io" "mmap_at (max DEFAULT_MAX_SIZE ps) disk io" "mmap_page_size io = ps"
    by (rule mmap_open_new [OF assms(2,3), where disk = disk]) (rule that; assumption)
  have "file_bytes io = replicate ps 0"
    using io(1) assms(2) by (auto simp: mmap_open_def mmap_open_with_max_size_def Let_def set_len_def split: if_splits)
  then have "within 2 ps io" using io(2,3) by (simp add: within_def mmap_at_def)
  moreover obtain r where r: "open_or_create mmap_ops io = Some r"
    using assms(1) io(1) by (auto simp: engine_open_def bind_eq_Some_conv)
  have "open_or_create mmap_ops io = Some (Inr st)"
    using assms(1) by (cases r) (simp_all add: engine_open_def io(1) r)
  ultimately show ?thesis by (intro within_open [of io st 2 ps]) simp_all
qed

section \<open>Property\<close>

text \<open>C8. After any sequence of puts on a new file every page id below \<open>next_page_id\<close> is the header, in the
  tree, free or in the chain, at most as many pages are free as the tree has levels, and the file is no
  longer than these pages. So its length is bounded by the number of different keys, however often they
  are put again: a freed page is used again before the file grows.\<close>

theorem file_stays_lean:
  assumes "\<And>c. os c = None" "page_size_ok ps" "\<forall>(k, v) \<in> set kvs. length k + length v \<le> max_kv_size ps"
    and "keys_reach ps (card (fst ` set kvs)) \<le> min (max DEFAULT_MAX_SIZE ps) disk div ps"
  shows "\<exists>st0 st h t. engine_open os disk [] ps = Some (Inr st0) \<and> put_all mmap_ops st0 kvs = Some st \<and>
    store_ok mmap_ops (mmap_at (max DEFAULT_MAX_SIZE ps) disk) h t st \<and> accounted t (write_lock st) \<and>
    pending_free (write_lock st) = [] \<and> length (free_list (write_lock st)) \<le> Suc h \<and>
    length (file_bytes (store_io st)) \<le> (2 + length (ids t) + h + chain_need ps (Suc h)) * ps \<and>
    length (file_bytes (store_io st)) \<le> keys_reach ps (card (fst ` set kvs)) * ps"
proof -
  let ?K = "fst ` set kvs"
  have two: "2 \<le> min (max DEFAULT_MAX_SIZE ps) disk div ps"
    using assms(4) two_keys_reach [of ps "card ?K"] by linarith
  obtain st0 where st0: "engine_open os disk [] ps = Some (Inr st0)"
    "store_ok mmap_ops (mmap_at (max DEFAULT_MAX_SIZE ps) disk) 0 (CLeaf 1 []) st0"
    "fresh_writer (write_lock st0)" "page_size mmap_ops (store_io st0) = ps" "readers st0 = 0"
    "mmap_limit (store_io st0) = min (max DEFAULT_MAX_SIZE ps) disk div ps"
    by (rule engine_open_ok [OF assms(1,2) two]) (rule that; assumption)
  note lean0 = lean_fresh [OF st0(3), of ps]
  have reach: "keys_reach ps (card ?K) < 2 ^ 64" "keys_reach ps (card ?K) \<le> mmap_limit (store_io st0)"
    using ceiling_64 [OF assms(2,4)] assms(4) by (simp_all add: st0(6))
  have kvs: "\<forall>(k, v) \<in> set kvs. k \<in> ?K \<and> length k + length v \<le> max_kv_size ps" using assms(3) by force
  obtain st t h where st: "put_all mmap_ops st0 kvs = Some st"
    "store_ok mmap_ops (mmap_at (max DEFAULT_MAX_SIZE ps) disk) h t st" "contents t = upserts kvs []"
    "mapping.evolves (max DEFAULT_MAX_SIZE ps) disk (store_io st0) (store_io st)" "lean ps (h, t, write_lock st)"
    using mapping.put_all_lean [OF st0(2,4,5) lean0 _ _ kvs reach] by auto
  have "file_bounded ps st0"
    using engine_open_bounded [OF st0(1) assms(1,2)] st0(3) by (simp add: file_bounded_def fresh_writer_def)
  then have "file_bounded ps st"
    by (rule file_bounded_puts [OF st(1) st0(2,4,5) lean0 _ _ kvs reach, rotated 2]) simp_all
  then have bytes: "length (file_bytes (store_io st)) \<le> unat (next_page_id (write_lock st)) * ps"
    by (simp add: file_bounded_def within_def)
  have "page_size mmap_ops (store_io st) = ps"
    using mapping.evolves_facts(2) [OF st(4)] st0(4) by simp
  then have tree: "bal h t" "sized ps t" "ordered None None t" using st(2) by (simp_all add: store_ok_def tree_ok_def)
  have "fst ` set (contents t) \<subseteq> ?K" by (simp add: st(3) upserts_keys)
  then have "unat (next_page_id (write_lock st)) \<le> keys_reach ps (card ?K)"
    by (rule next_page_id_lean [OF tree _ _ st(5)]) simp
  then have "length (file_bytes (store_io st)) \<le> keys_reach ps (card ?K) * ps"
    using bytes mult_le_mono1 le_trans by blast
  moreover have "unat (next_page_id (write_lock st)) \<le> 2 + length (ids t) + h + chain_need ps (Suc h)"
    using st(5) by (simp add: lean_def accounted_def)
  then have "length (file_bytes (store_io st)) \<le> (2 + length (ids t) + h + chain_need ps (Suc h)) * ps"
    using bytes mult_le_mono1 le_trans by blast
  ultimately show ?thesis using st0(1) st(1,2,5) unfolding lean_def by blast
qed

text \<open>A run that puts one key a thousand times on a disk of 64 KiB: seven pages are enough.\<close>

lemma file_stays_lean_witness:
  "\<exists>st0 st. engine_open (\<lambda>_. None :: unit option) (2 ^ 16) [] 4096 = Some (Inr st0) \<and>
    put_all mmap_ops st0 (replicate 1000 ([1], [2])) = Some st \<and>
    length (file_bytes (store_io st)) \<le> 7 * 4096"
proof -
  let ?kvs = "replicate 1000 ([1], [2]) :: (key \<times> val) list"
  have card: "keys_reach 4096 (card (fst ` set ?kvs)) = 7"
    by (simp add: keys_reach_def bits.simps chain_need_def div_ceil_def)
  have 1: "page_size_ok 4096" "\<forall>(k, v) \<in> set ?kvs. length k + length v \<le> max_kv_size 4096"
    by (simp_all add: page_size_ok_def max_kv_size_def INTERNAL_HEADER_def)
  have 2: "keys_reach 4096 (card (fst ` set ?kvs)) \<le> min (max DEFAULT_MAX_SIZE 4096) (2 ^ 16) div 4096"
    unfolding card by (simp add: DEFAULT_MAX_SIZE_def)
  have 0: "(\<lambda>_. None :: unit option) c = None" for c :: os_call by simp
  show ?thesis using file_stays_lean [OF 0 1 2] unfolding card by blast
qed

end
