(* ===== verification/Integration_Tests.thy ===== *)
theory Integration_Tests
  imports Leak File_Size
begin

text \<open>
  The integration tests of the crate that need no threads, \<open>tests/mmap_integration.rs\<close>,
  \<open>tests/sandbox.rs\<close> and the first of \<open>tests/concurrency.rs\<close> under \<open>src/01-btree\<close>, run on the model of
  the engine on a file. The temporary file of a test starts as no bytes; dropping an engine leaves its
  file, and opening the path again reads it. A test panics, \<^term>\<open>None\<close>, when an assertion or an
  \<open>unwrap\<close> fails.
\<close>

section \<open>The tests\<close>

text \<open>\<open>StorageEngine::open\<close>, \<open>put\<close> and \<open>print_tree\<close> as the tests use them; \<open>std::fs::metadata\<close> of the file.\<close>

definition file_open :: "(os_call \<Rightarrow> 'e option) \<Rightarrow> nat \<Rightarrow> bytes \<Rightarrow> nat \<Rightarrow> mmap_page_io store option" where
  "file_open os disk bs ps =
     do { r \<leftarrow> engine_open os disk bs ps; case r of Inl e \<Rightarrow> None | Inr st \<Rightarrow> Some st }"

definition file_put :: "mmap_page_io store \<Rightarrow> bytes \<Rightarrow> bytes \<Rightarrow> mmap_page_io store option" where
  "file_put st k v =
     do { r \<leftarrow> engine_put mmap_ops st k v; case fst r of Inl e \<Rightarrow> None | Inr _ \<Rightarrow> Some (snd r) }"

definition file_get_is :: "mmap_page_io store \<Rightarrow> bytes \<Rightarrow> bytes option \<Rightarrow> unit option" where
  "file_get_is st k expected = do { r \<leftarrow> engine_get mmap_ops st k; assert_that (fst r = expected) }"

definition file_print :: "(nat \<Rightarrow> bool) \<Rightarrow> mmap_page_io store \<Rightarrow> mmap_page_io store option" where
  "file_print printable st = do { r \<leftarrow> engine_print_tree printable mmap_ops st; Some (snd r) }"

definition file_print_bytes :: "(nat \<Rightarrow> bool) \<Rightarrow> mmap_page_io store \<Rightarrow> mmap_page_io store option" where
  "file_print_bytes printable st = do { r \<leftarrow> engine_print_bytes printable mmap_ops st; Some (snd r) }"

abbreviation on_disk :: "mmap_page_io store \<Rightarrow> bytes" where
  "on_disk st \<equiv> file_bytes (store_io st)"

text \<open>An open that is refused may have lengthened the file to one page.\<close>

definition after_refusal :: "(os_call \<Rightarrow> 'e option) \<Rightarrow> nat \<Rightarrow> bytes \<Rightarrow> nat \<Rightarrow> bytes" where
  "after_refusal os disk bs ps =
     (case mmap_open os disk bs ps of Inl e \<Rightarrow> bs | Inr io \<Rightarrow> file_bytes io)"

definition mmap_test_fresh :: "(os_call \<Rightarrow> 'e option) \<Rightarrow> nat \<Rightarrow> unit option" where
  "mmap_test_fresh os disk =
     do { st \<leftarrow> file_open os disk [] 4096; file_get_is st (bytes_of ''anything'') None }"

definition mmap_test_durability :: "(nat \<Rightarrow> bool) \<Rightarrow> (os_call \<Rightarrow> 'e option) \<Rightarrow> nat \<Rightarrow> unit option" where
  "mmap_test_durability printable os disk =
     do { st \<leftarrow> file_open os disk [] 4096;
          st \<leftarrow> file_print printable st;
          st \<leftarrow> put_each file_put st (map (\<lambda>i. (key_format ''key'' 3 i, key_format ''val'' 0 i)) [0..<50]);
          st \<leftarrow> file_print printable st;
          reopened \<leftarrow> file_open os disk (on_disk st) 4096;
          check_each (\<lambda>i. file_get_is reopened (key_format ''key'' 3 i) (Some (key_format ''val'' 0 i))) [0..<50] }"

definition mmap_test_large :: "(nat \<Rightarrow> bool) \<Rightarrow> (os_call \<Rightarrow> 'e option) \<Rightarrow> nat \<Rightarrow> unit option" where
  "mmap_test_large printable os disk =
     do { st \<leftarrow> file_open os disk [] 256;
          st \<leftarrow> file_print printable st;
          st \<leftarrow> put_each file_put st (map (\<lambda>i. (key_format ''k'' 4 i, key_format ''v'' 0 i)) [0..<300]);
          st \<leftarrow> file_print printable st;
          reopened \<leftarrow> file_open os disk (on_disk st) 256;
          check_each (\<lambda>i. file_get_is reopened (key_format ''k'' 4 i) (Some (key_format ''v'' 0 i))) [0..<300] }"

definition mmap_test_mismatch :: "(nat \<Rightarrow> bool) \<Rightarrow> (os_call \<Rightarrow> 'e option) \<Rightarrow> nat \<Rightarrow> unit option" where
  "mmap_test_mismatch printable os disk =
     do { st \<leftarrow> file_open os disk [] 4096;
          st \<leftarrow> file_put st (bytes_of ''a'') (bytes_of ''1'');
          st \<leftarrow> file_print printable st;
          r \<leftarrow> engine_open os disk (on_disk st) 8192;
          assert_that (isl r);
          reopened \<leftarrow> file_open os disk (after_refusal os disk (on_disk st) 8192) 4096;
          file_get_is reopened (bytes_of ''a'') (Some (bytes_of ''1'')) }"

definition mmap_test_upsert :: "(nat \<Rightarrow> bool) \<Rightarrow> (os_call \<Rightarrow> 'e option) \<Rightarrow> nat \<Rightarrow> unit option" where
  "mmap_test_upsert printable os disk =
     do { st \<leftarrow> file_open os disk [] 4096;
          st \<leftarrow> file_put st (bytes_of ''key'') (bytes_of ''v1'');
          st \<leftarrow> file_print printable st;
          st \<leftarrow> file_put st (bytes_of ''key'') (bytes_of ''v2'');
          st \<leftarrow> file_print printable st;
          reopened \<leftarrow> file_open os disk (on_disk st) 4096;
          file_get_is reopened (bytes_of ''key'') (Some (bytes_of ''v2'')) }"

definition sandbox_test :: "(nat \<Rightarrow> bool) \<Rightarrow> (os_call \<Rightarrow> 'e option) \<Rightarrow> nat \<Rightarrow> unit option" where
  "sandbox_test printable os disk =
     do { st \<leftarrow> file_open os disk [] 4096;
          st \<leftarrow> file_print printable st;
          st \<leftarrow> file_print_bytes printable st;
          st \<leftarrow> file_put st (bytes_of ''key2'') (bytes_of ''value2'');
          st \<leftarrow> file_print printable st;
          st \<leftarrow> file_print_bytes printable st;
          st \<leftarrow> file_put st (bytes_of ''key1'') (bytes_of ''value1'');
          st \<leftarrow> file_print printable st;
          st \<leftarrow> file_print_bytes printable st;
          Some () }"

text \<open>Fifty keys, then thirty passes over them.\<close>

definition bounded_size_test :: "(nat \<Rightarrow> bool) \<Rightarrow> (os_call \<Rightarrow> 'e option) \<Rightarrow> nat \<Rightarrow> unit option" where
  "bounded_size_test printable os disk =
     do { st \<leftarrow> file_open os disk [] 4096;
          let ks = map (key_format ''key'' 3) [0..<50];
          st \<leftarrow> file_print printable st;
          st \<leftarrow> put_each file_put st (map (\<lambda>k. (k, bytes_of ''v0'')) ks);
          st \<leftarrow> file_print printable st;
          let baseline = length (on_disk st);
          st \<leftarrow> put_each file_put st (concat (map (\<lambda>pass. map (\<lambda>k. (k, key_format ''v'' 0 pass)) ks) [0..<30]));
          st \<leftarrow> file_print printable st;
          let after = length (on_disk st);
          assert_that (after \<le> baseline * 3) }"

section \<open>A file under test\<close>

text \<open>A store on a file in a run over the keys \<open>K\<close>, for which there is room.\<close>

definition file_ok :: "nat \<Rightarrow> nat \<Rightarrow> key set \<Rightarrow> nat \<Rightarrow> ctree \<Rightarrow> mmap_page_io store \<Rightarrow> bool" where
  "file_ok ps disk K h t st \<longleftrightarrow> store_ok mmap_ops (mmap_at (max DEFAULT_MAX_SIZE ps) disk) h t st \<and>
     mmap_page_size (store_io st) = ps \<and> readers st = 0 \<and> lean ps (h, t, write_lock st) \<and>
     fst ` set (contents t) \<subseteq> K \<and> finite K \<and> keys_reach ps (card K) < 2 ^ 64 \<and>
     keys_reach ps (card K) \<le> mmap_limit (store_io st) \<and> file_bounded ps st"

lemma file_ok_open:
  assumes "\<And>c. os c = None" "page_size_ok ps" "finite K" "keys_reach ps (card K) \<le> min (max DEFAULT_MAX_SIZE ps) disk div ps"
  obtains st where "file_open os disk [] ps = Some st" "file_ok ps disk K 0 (CLeaf 1 []) st"
proof -
  have two: "2 \<le> min (max DEFAULT_MAX_SIZE ps) disk div ps"
    using assms(4) two_keys_reach [of ps "card K"] by linarith
  obtain st where st: "engine_open os disk [] ps = Some (Inr st)"
    "store_ok mmap_ops (mmap_at (max DEFAULT_MAX_SIZE ps) disk) 0 (CLeaf 1 []) st"
    "fresh_writer (write_lock st)" "page_size mmap_ops (store_io st) = ps" "readers st = 0"
    "mmap_limit (store_io st) = min (max DEFAULT_MAX_SIZE ps) disk div ps"
    by (rule engine_open_ok [OF assms(1,2) two]) (rule that; assumption)
  have "file_bounded ps st"
    using engine_open_bounded [OF st(1) assms(1,2)] st(3) by (simp add: file_bounded_def fresh_writer_def)
  then have "file_ok ps disk K 0 (CLeaf 1 []) st"
    using st lean_fresh [OF st(3)] assms(3,4) ceiling_64 [OF assms(2,4)] by (simp add: file_ok_def)
  then show ?thesis using that st(1) by (simp add: file_open_def)
qed

lemma file_ok_put:
  assumes "file_ok ps disk K h t st" "k \<in> K" "length k + length v \<le> max_kv_size ps"
  obtains st1 h1 t1 where "engine_put mmap_ops st k v = Some (Inr (), st1)" "file_put st k v = Some st1"
    "file_ok ps disk K h1 t1 st1" "contents t1 = upsert k v (contents t)"
    "put_reach ps h (write_lock st) < 2 ^ 64" "put_reach ps h (write_lock st) \<le> mmap_limit (store_io st)"
proof -
  have ok: "store_ok mmap_ops (mmap_at (max DEFAULT_MAX_SIZE ps) disk) h t st" "page_size mmap_ops (store_io st) = ps"
    "readers st = 0" "lean ps (h, t, write_lock st)" "fst ` set (contents t) \<subseteq> K" "finite K"
    and lim: "keys_reach ps (card K) < 2 ^ 64" "keys_reach ps (card K) \<le> mmap_limit (store_io st)"
    and bounded: "file_bounded ps st"
    using assms(1) by (simp_all add: file_ok_def)
  obtain st1 t1 h1 where room: "put_reach ps h (write_lock st) < 2 ^ 64" "put_reach ps h (write_lock st) \<le> mmap_limit (store_io st)"
    and put: "engine_put mmap_ops st k v = Some (Inr (), st1)"
    and ok1: "store_ok mmap_ops (mmap_at (max DEFAULT_MAX_SIZE ps) disk) h1 t1 st1" "page_size mmap_ops (store_io st1) = ps"
      "readers st1 = 0" "lean ps (h1, t1, write_lock st1)" "contents t1 = upsert k v (contents t)"
      "fst ` set (contents t1) \<subseteq> K" "mmap_limit (store_io st1) = mmap_limit (store_io st)"
    by (rule mapping.put_lean [OF ok assms(2,3) lim]) (rule that; assumption)
  have "file_bounded ps st1" by (rule file_bounded_put [OF ok(1,2) assms(3) room bounded put])
  then have "file_ok ps disk K h1 t1 st1" using ok1 ok(6) lim by (simp add: file_ok_def)
  then show ?thesis using that room put ok1(5) by (simp add: file_put_def)
qed

lemma file_ok_puts:
  "file_ok ps disk K h t st \<Longrightarrow> \<forall>(k, v) \<in> set kvs. k \<in> K \<and> length k + length v \<le> max_kv_size ps \<Longrightarrow>
   \<exists>st' h' t'. put_each file_put st kvs = Some st' \<and> file_ok ps disk K h' t' st' \<and>
     contents t' = upserts kvs (contents t)"
proof (induction kvs arbitrary: st h t)
  case (Cons p kvs)
  obtain k v where p: "p = (k, v)" by (cases p)
  then have "k \<in> K" "length k + length v \<le> max_kv_size ps" using Cons.prems(2) by simp_all
  then obtain st1 h1 t1 where "file_put st k v = Some st1" "file_ok ps disk K h1 t1 st1"
    "contents t1 = upsert k v (contents t)"
    by (rule file_ok_put [OF Cons.prems(1)]) (rule that; assumption)
  then show ?case using Cons.IH [of h1 t1 st1] Cons.prems(2) p by simp
qed auto

lemma file_ok_tree: "file_ok ps disk K h t st \<Longrightarrow> tree_ok mmap_ops h t st"
  by (simp add: file_ok_def store_ok_def)

lemma file_ok_print:
  "file_ok ps disk K h t st \<Longrightarrow> file_print printable st = Some st"
  "file_ok ps disk K h t st \<Longrightarrow> file_print_bytes printable st = Some st"
  by (drule file_ok_tree, simp add: file_print_def file_print_bytes_def engine_print_tree_ok engine_print_bytes_ok)+

lemma tree_get_is: "tree_ok mmap_ops h t st \<Longrightarrow> file_get_is st k r = assert_that (map_of (contents t) k = r)"
  using engine_get_ok [of mmap_ops h t st k] by (simp add: file_get_is_def)

lemma file_ok_reopen:
  assumes "file_ok ps disk K h t st" "\<And>c. os c = None"
  obtains st' where "file_open os disk (on_disk st) ps = Some st'" "tree_ok mmap_ops h t st'"
proof -
  have ok: "store_ok mmap_ops (mmap_at (max DEFAULT_MAX_SIZE ps) disk) h t st" "mmap_page_size (store_io st) = ps"
    using assms(1) by (simp_all add: file_ok_def)
  then have "mmap_open os disk (on_disk st) ps = Inr (store_io st)"
    using assms(2) by (intro mmap_reopen) (simp_all add: store_ok_def)
  moreover note opened = mapping.reopen_ok [OF ok(1)]
  ultimately have "file_open os disk (on_disk st) ps = Some (reopened mmap_ops st)"
    by (simp add: file_open_def engine_open_def)
  then show ?thesis using that opened(2) by (simp add: store_ok_def)
qed

text \<open>The room for the tests: a mebibyte.\<close>

lemma room_4096:
  assumes "2 ^ 20 \<le> disk" "m \<le> 50"
  shows "keys_reach 4096 m \<le> min (max DEFAULT_MAX_SIZE 4096) disk div 4096"
proof -
  have "bits (max 1 m) \<le> 6" using assms(2) by (intro bits_le) simp
  moreover from this have "chain_need 4096 (2 * bits (max 1 m)) \<le> chain_need 4096 12" by (intro chain_need_mono) simp
  moreover have "chain_need 4096 12 = 1" by (simp add: chain_need_def div_ceil_def)
  ultimately have "keys_reach 4096 m \<le> 120" using assms(2) unfolding keys_reach_def Let_def by simp
  also have "120 \<le> min (max DEFAULT_MAX_SIZE 4096) disk div 4096"
    using assms(1) by (simp add: less_eq_div_iff_mult_less_eq DEFAULT_MAX_SIZE_def)
  finally show ?thesis .
qed

lemma room_256:
  assumes "2 ^ 20 \<le> disk"
  shows "keys_reach 256 300 \<le> min (max DEFAULT_MAX_SIZE 256) disk div 256"
proof -
  have "bits 300 \<le> 9" by (intro bits_le) simp
  moreover from this have "chain_need 256 (2 * bits 300) \<le> chain_need 256 18" by (intro chain_need_mono) simp
  moreover have "chain_need 256 18 = 1" by (simp add: chain_need_def div_ceil_def)
  ultimately have "keys_reach 256 300 \<le> 629" unfolding keys_reach_def Let_def by simp
  also have "629 \<le> min (max DEFAULT_MAX_SIZE 256) disk div 256"
    using assms by (simp add: less_eq_div_iff_mult_less_eq DEFAULT_MAX_SIZE_def)
  finally show ?thesis .
qed

text \<open>The file holds the header and the root.\<close>

lemma file_ok_two_pages:
  assumes "file_ok ps disk K h t st"
  shows "2 * ps \<le> length (on_disk st)"
proof -
  have ok: "store_ok mmap_ops (mmap_at (max DEFAULT_MAX_SIZE ps) disk) h t st" "mmap_page_size (store_io st) = ps"
    using assms by (simp_all add: file_ok_def)
  have "rep (guard_read mmap_ops st) t" using ok(1) by (simp add: store_ok_def tree_ok_def)
  then obtain bs where bs: "mmap_read_page (store_io st) (tid t) = Some bs"
    by (auto simp: rep_below guard_read_def bind_eq_Some_conv)
  have inv: "mmap_inv (store_io st)" using ok(1) by (simp add: store_ok_def mmap_at_def)
  have "unat (tid t) * ps + ps \<le> length (on_disk st)"
    using bs inv ok(2) by (simp add: mmap_read_page_eq slice_of_eq_Some)
  moreover have "tid t \<noteq> 0"
    using ok(1) by (auto simp: store_ok_def ids_below pool_ok_def)
  then have "Suc 0 \<le> unat (tid t)" by (simp add: Suc_le_eq unat_gt_0)
  then have "1 * ps \<le> unat (tid t) * ps" by (intro mult_le_mono1) simp
  ultimately show ?thesis by linarith
qed

section \<open>The tests pass\<close>

lemmas file_test_simps = file_ok_print check_each_ok assert_that_def tree_get_is

lemma mmap_test_fresh_passes:
  assumes "\<And>c. os c = None" "2 ^ 20 \<le> disk"
  shows "mmap_test_fresh os disk = Some ()"
proof -
  obtain st where st: "file_open os disk [] 4096 = Some st" "file_ok 4096 disk {} 0 (CLeaf 1 []) st"
    using file_ok_open [where os = os and K = "{}", OF assms(1) page_4096 finite.emptyI] room_4096 [OF assms(2), of 0]
    by auto
  then show ?thesis by (simp add: mmap_test_fresh_def tree_get_is [OF file_ok_tree [OF st(2)]] assert_that_def)
qed

text \<open>Numbered keys and values put on a new file, and found again after it has been opened again.\<close>

lemma numbered_run:
  assumes "\<And>c. os c = None" "page_size_ok ps" "keys_reach ps n \<le> min (max DEFAULT_MAX_SIZE ps) disk div ps"
    and "\<And>i. i < n \<Longrightarrow> length (key_format p w i) + length (key_format q 0 i) \<le> max_kv_size ps"
  obtains st st1 st2 h1 t1 where "file_open os disk [] ps = Some st"
    "file_ok ps disk (key_format p w ` {..<n}) 0 (CLeaf 1 []) st"
    "put_each file_put st (map (\<lambda>i. (key_format p w i, key_format q 0 i)) [0..<n]) = Some st1"
    "file_ok ps disk (key_format p w ` {..<n}) h1 t1 st1" "file_open os disk (on_disk st1) ps = Some st2"
    "\<And>i. i < n \<Longrightarrow> file_get_is st2 (key_format p w i) (Some (key_format q 0 i)) = Some ()"
proof -
  let ?K = "key_format p w ` {..<n}" and ?kvs = "map (\<lambda>i. (key_format p w i, key_format q 0 i)) [0..<n]"
  obtain st where st: "file_open os disk [] ps = Some st" "file_ok ps disk ?K 0 (CLeaf 1 []) st"
    using file_ok_open [where os = os and K = ?K, OF assms(1,2)] assms(3) card_numbered [of p w n] by auto
  have kvs: "\<forall>(k, v) \<in> set ?kvs. k \<in> ?K \<and> length k + length v \<le> max_kv_size ps"
    using assms(4) by simp
  obtain st1 h1 t1 where st1: "put_each file_put st ?kvs = Some st1" "file_ok ps disk ?K h1 t1 st1"
    "contents t1 = upserts ?kvs []"
    using file_ok_puts [OF st(2) kvs] by (elim exE conjE) (simp only: contents.simps)
  obtain st2 where st2: "file_open os disk (on_disk st1) ps = Some st2" "tree_ok mmap_ops h1 t1 st2"
    by (rule file_ok_reopen [OF st1(2) assms(1)])
  have "file_get_is st2 (key_format p w i) (Some (key_format q 0 i)) = Some ()" if "i < n" for i
    using map_of_numbered [OF that, of p w "key_format q 0"]
    by (simp add: tree_get_is [OF st2(2)] st1(3) map_of_upserts assert_that_def)
  then show ?thesis using that st st1(1,2) st2(1) by blast
qed

lemma mmap_test_durability_passes:
  assumes "\<And>c. os c = None" "2 ^ 20 \<le> disk"
  shows "mmap_test_durability printable os disk = Some ()"
proof -
  have len: "length (key_format ''key'' 3 i) + length (key_format ''val'' 0 i) \<le> max_kv_size 4096" if "i < 50" for i
    using that key_format_len [of 3 i "''key''"] key_format_len_le [of i 1 "''val''"] by (simp add: test_limits)
  have room: "keys_reach 4096 50 \<le> min (max DEFAULT_MAX_SIZE 4096) disk div 4096" by (rule room_4096 [OF assms(2)]) simp
  obtain st st1 st2 h1 t1 where st: "file_open os disk [] 4096 = Some st"
    "file_ok 4096 disk (key_format ''key'' 3 ` {..<50}) 0 (CLeaf 1 []) st"
    "put_each file_put st (map (\<lambda>i. (key_format ''key'' 3 i, key_format ''val'' 0 i)) [0..<50]) = Some st1"
    "file_ok 4096 disk (key_format ''key'' 3 ` {..<50}) h1 t1 st1" "file_open os disk (on_disk st1) 4096 = Some st2"
    "\<And>i. i < 50 \<Longrightarrow> file_get_is st2 (key_format ''key'' 3 i) (Some (key_format ''val'' 0 i)) = Some ()"
    by (rule numbered_run [where os = os, OF assms(1) page_4096 room]) (erule len, (rule that; assumption))
  show ?thesis
    by (simp add: mmap_test_durability_def st(1,3,5,6) file_ok_print [OF st(2)] file_ok_print [OF st(4)] check_each_ok
        del: upt.simps)
qed

lemma mmap_test_large_passes:
  assumes "\<And>c. os c = None" "2 ^ 20 \<le> disk"
  shows "mmap_test_large printable os disk = Some ()"
proof -
  have ps: "page_size_ok 256" by (simp add: test_limits)
  have len: "length (key_format ''k'' 4 i) + length (key_format ''v'' 0 i) \<le> max_kv_size 256" if "i < 300" for i
    using that key_format_len [of 4 i "''k''"] key_format_len_le [of i 2 "''v''"] by (simp add: test_limits)
  obtain st st1 st2 h1 t1 where st: "file_open os disk [] 256 = Some st"
    "file_ok 256 disk (key_format ''k'' 4 ` {..<300}) 0 (CLeaf 1 []) st"
    "put_each file_put st (map (\<lambda>i. (key_format ''k'' 4 i, key_format ''v'' 0 i)) [0..<300]) = Some st1"
    "file_ok 256 disk (key_format ''k'' 4 ` {..<300}) h1 t1 st1" "file_open os disk (on_disk st1) 256 = Some st2"
    "\<And>i. i < 300 \<Longrightarrow> file_get_is st2 (key_format ''k'' 4 i) (Some (key_format ''v'' 0 i)) = Some ()"
    by (rule numbered_run [where os = os, OF assms(1) ps room_256 [OF assms(2)]]) (erule len, (rule that; assumption))
  show ?thesis
    by (simp add: mmap_test_large_def st(1,3,5,6) file_ok_print [OF st(2)] file_ok_print [OF st(4)] check_each_ok
        del: upt.simps)
qed

text \<open>Two puts on a new file, of keys from a given pair.\<close>

lemma short_puts:
  assumes "\<And>c. os c = None" "2 ^ 20 \<le> disk" "length (a :: key) + length (u :: val) \<le> max_kv_size 4096"
    "length (b :: key) + length (v :: val) \<le> max_kv_size 4096"
  obtains st st1 st2 h1 t1 h2 t2 where "file_open os disk [] 4096 = Some st"
    "file_ok 4096 disk {a, b} 0 (CLeaf 1 []) st" "file_put st a u = Some st1" "file_ok 4096 disk {a, b} h1 t1 st1"
    "contents t1 = upsert a u []" "file_put st1 b v = Some st2" "file_ok 4096 disk {a, b} h2 t2 st2"
    "contents t2 = upsert b v (upsert a u [])"
proof -
  have "card {a, b} \<le> 50" by (simp add: card_insert_if)
  from room_4096 [OF assms(2) this] obtain st where st: "file_open os disk [] 4096 = Some st"
    "file_ok 4096 disk {a, b} 0 (CLeaf 1 []) st"
    using file_ok_open [where os = os and K = "{a, b}", OF assms(1) page_4096] by auto
  obtain st1 h1 t1 where st1: "file_put st a u = Some st1" "file_ok 4096 disk {a, b} h1 t1 st1"
    "contents t1 = upsert a u (contents (CLeaf 1 []))"
    by (rule file_ok_put [OF st(2) _ assms(3)]) (simp, (rule that; assumption))
  obtain st2 h2 t2 where st2: "file_put st1 b v = Some st2" "file_ok 4096 disk {a, b} h2 t2 st2"
    "contents t2 = upsert b v (contents t1)"
    by (rule file_ok_put [OF st1(2) _ assms(4)]) (simp, (rule that; assumption))
  show ?thesis by (rule that [OF st st1(1,2) _ st2(1,2)]) (simp_all add: st1(3) st2(3))
qed

lemma mmap_test_upsert_passes:
  assumes "\<And>c. os c = None" "2 ^ 20 \<le> disk"
  shows "mmap_test_upsert printable os disk = Some ()"
proof -
  let ?k = "bytes_of ''key''" and ?u = "bytes_of ''v1''" and ?v = "bytes_of ''v2''"
  have small: "length ?k + length ?u \<le> max_kv_size 4096" "length ?k + length ?v \<le> max_kv_size 4096"
    by (simp_all add: test_limits)
  obtain st st1 st2 h1 t1 h2 t2 where st: "file_open os disk [] 4096 = Some st" "file_put st ?k ?u = Some st1"
    "file_ok 4096 disk {?k, ?k} h1 t1 st1" "file_put st1 ?k ?v = Some st2" "file_ok 4096 disk {?k, ?k} h2 t2 st2"
    "contents t2 = upsert ?k ?v (upsert ?k ?u [])"
    by (rule short_puts [where os = os, OF assms small]) (rule that; assumption)
  obtain st3 where st3: "file_open os disk (on_disk st2) 4096 = Some st3" "tree_ok mmap_ops h2 t2 st3"
    by (rule file_ok_reopen [where os = os, OF st(5) assms(1)])
  show ?thesis
    by (simp add: mmap_test_upsert_def st(1,2,4) file_ok_print [OF st(3)] file_ok_print [OF st(5)] st3(1)
        tree_get_is [OF st3(2)] st(6) map_of_upsert assert_that_def)
qed

lemma sandbox_test_passes:
  assumes "\<And>c. os c = None" "2 ^ 20 \<le> disk"
  shows "sandbox_test printable os disk = Some ()"
proof -
  let ?a = "bytes_of ''key2''" and ?u = "bytes_of ''value2''" and ?b = "bytes_of ''key1''" and ?v = "bytes_of ''value1''"
  have small: "length ?a + length ?u \<le> max_kv_size 4096" "length ?b + length ?v \<le> max_kv_size 4096"
    by (simp_all add: test_limits)
  obtain st st1 st2 h1 t1 h2 t2 where st: "file_open os disk [] 4096 = Some st"
    "file_ok 4096 disk {?a, ?b} 0 (CLeaf 1 []) st" "file_put st ?a ?u = Some st1"
    "file_ok 4096 disk {?a, ?b} h1 t1 st1" "file_put st1 ?b ?v = Some st2" "file_ok 4096 disk {?a, ?b} h2 t2 st2"
    by (rule short_puts [where os = os, OF assms small]) (rule that; assumption)
  show ?thesis
    by (simp add: sandbox_test_def st(1,3,5) file_ok_print [OF st(2)] file_ok_print [OF st(4)] file_ok_print [OF st(6)])
qed

text \<open>A header is found at the start of any larger page, too.\<close>

lemma slice_of_append: "slice_of xs a b = Some ys \<Longrightarrow> slice_of (xs @ zs) a b = Some ys"
  by (auto simp: slice_of_def split: if_splits)

lemma read_append:
  "read_u32 xs p = Some v \<Longrightarrow> read_u32 (xs @ ys) p = Some v"
  "read_u64 xs p = Some w \<Longrightarrow> read_u64 (xs @ ys) p = Some w"
  by (auto simp: read_u32_def read_u64_def bind_eq_Some_conv dest: slice_of_append)

lemma header_from_longer:
  assumes "header_from_bytes bs = Some (Inr h)"
  shows "header_from_bytes (bs @ rest) = Some (Inr h)"
proof -
  have head: "\<not> (length bs < 49 \<or> bs ! 0 \<noteq> PAGE_TYPE_HEADER \<or> take 8 (drop 1 bs) \<noteq> FORMAT_SIGNATURE)"
    using assms unfolding header_from_bytes_def by (rule contrapos_pn) simp
  then obtain v ps r n f c where read: "read_u32 bs 9 = Some v" "v = VERSION" "read_u32 bs 13 = Some ps"
    "read_u64 bs 17 = Some r" "read_u64 bs 25 = Some n" "read_u64 bs 33 = Some f" "read_u64 bs 41 = Some c"
    "h = \<lparr>hdr_page_size = unat ps, root_id = r, hdr_next_page_id = n, free_list_head = f, free_count = c\<rparr>"
    using assms unfolding header_from_bytes_def
    by (simp only: if_False) (auto simp: bind_eq_Some_conv split: if_splits)
  have "\<not> (length (bs @ rest) < 49 \<or> (bs @ rest) ! 0 \<noteq> PAGE_TYPE_HEADER \<or> take 8 (drop 1 (bs @ rest)) \<noteq> FORMAT_SIGNATURE)"
    using head by (auto simp: nth_append)
  then show ?thesis
    unfolding header_from_bytes_def using read(2,8)
    by (simp only: if_False read_append(1) [OF read(1)] read_append(1) [OF read(3)] read_append(2) [OF read(4)]
        read_append(2) [OF read(5)] read_append(2) [OF read(6)] read_append(2) [OF read(7)]) simp
qed

lemma refused_open:
  assumes "file_ok 4096 disk K h t st" "\<And>c. os c = None"
  shows "\<exists>e. engine_open os disk (on_disk st) 8192 = Some (Inl e)" "after_refusal os disk (on_disk st) 8192 = on_disk st"
proof -
  have ok: "store_ok mmap_ops (mmap_at (max DEFAULT_MAX_SIZE 4096) disk) h t st" "mmap_page_size (store_io st) = 4096"
    using assms(1) by (simp_all add: file_ok_def)
  have inv: "mmap_inv (store_io st)" using ok(1) by (simp add: store_ok_def mmap_at_def)
  have two: "8192 \<le> length (on_disk st)" using file_ok_two_pages [OF assms(1)] by simp
  define io where "io = \<lparr>file_bytes = on_disk st, mmap_len = max DEFAULT_MAX_SIZE (length (on_disk st)),
    mmap_page_size = 8192, committed_len = length (on_disk st), disk_limit = disk\<rparr>"
  have io: "mmap_open os disk (on_disk st) 8192 = Inr io"
    using two assms(2) by (simp add: mmap_open_def mmap_open_with_max_size_def io_def Let_def max_absorb1)
  then show "after_refusal os disk (on_disk st) 8192 = on_disk st" by (simp add: after_refusal_def io_def)
  obtain bs hd where bs: "mmap_read_page (store_io st) HEADER_PAGE_ID = Some bs" "header_from_bytes bs = Some (Inr hd)"
    "hdr_page_size hd = 4096"
    using ok by (auto simp: store_ok_def disk_ok_def)
  have "bs = take 4096 (on_disk st)"
    using bs(1) ok(2) inv by (simp add: mmap_read_page_eq slice_of_eq_Some HEADER_PAGE_ID_def)
  moreover have "take 8192 (on_disk st) = take 4096 (on_disk st) @ take 4096 (drop 4096 (on_disk st))"
    using take_add [of 4096 4096 "on_disk st"] by simp
  ultimately have "header_from_bytes (take 8192 (on_disk st)) = Some (Inr hd)"
    using header_from_longer [OF bs(2)] by simp
  moreover have "mmap_read_page io HEADER_PAGE_ID = Some (take 8192 (on_disk st))"
    using two by (simp add: mmap_read_page_def usize_mul_def read_at_def slice_of_def HEADER_PAGE_ID_def io_def)
  ultimately have "open_or_create mmap_ops io = Some (Inl (PageSizeMismatch 8192 4096))"
    using open_refuses_page_size [of mmap_ops io "take 8192 (on_disk st)" hd] bs(3) by (simp add: io_def)
  then show "\<exists>e. engine_open os disk (on_disk st) 8192 = Some (Inl e)" by (simp add: engine_open_def io)
qed

lemma mmap_test_mismatch_passes:
  assumes "\<And>c. os c = None" "2 ^ 20 \<le> disk"
  shows "mmap_test_mismatch printable os disk = Some ()"
proof -
  let ?a = "bytes_of ''a''" and ?v = "bytes_of ''1''"
  have small: "length ?a + length ?v \<le> max_kv_size 4096" by (simp add: test_limits)
  obtain st st1 h1 t1 where st: "file_open os disk [] 4096 = Some st" "file_put st ?a ?v = Some st1"
    "file_ok 4096 disk {?a, ?a} h1 t1 st1" "contents t1 = upsert ?a ?v []"
    by (rule short_puts [where os = os, OF assms small small]) (rule that; assumption)
  obtain e where e: "engine_open os disk (on_disk st1) 8192 = Some (Inl e)"
    using refused_open(1) [where os = os, OF st(3) assms(1)] by blast
  obtain st2 where st2: "file_open os disk (on_disk st1) 4096 = Some st2" "tree_ok mmap_ops h1 t1 st2"
    by (rule file_ok_reopen [where os = os, OF st(3) assms(1)])
  show ?thesis
    by (simp add: mmap_test_mismatch_def st(1,2) file_ok_print [OF st(3)] e st2(1)
        refused_open(2) [where os = os, OF st(3) assms(1)] tree_get_is [OF st2(2)] st(4) assert_that_def)
qed

text \<open>Short entries of few keys stay in one leaf.\<close>

lemma flat_file_puts:
  assumes K: "finite K" "11 + (4 + m) * card K \<le> ps" "m \<le> max_kv_size ps"
  shows "file_ok ps disk K 0 t st \<Longrightarrow> leaf_of K m t \<Longrightarrow> \<forall>(k, v) \<in> set kvs. k \<in> K \<and> length k + length v \<le> m \<Longrightarrow>
    \<exists>st' t'. put_each file_put st kvs = Some st' \<and> file_ok ps disk K 0 t' st' \<and> leaf_of K m t'"
proof (induction kvs arbitrary: st t)
  case (Cons p kvs)
  obtain k v where p: "p = (k, v)" by (cases p)
  then have kv: "k \<in> K" "length k + length v \<le> m" using Cons.prems(3) by simp_all
  then have small: "length k + length v \<le> max_kv_size ps" using K(3) by simp
  obtain st1 h1 t1 where 1: "engine_put mmap_ops st k v = Some (Inr (), st1)" "file_put st k v = Some st1"
    "file_ok ps disk K h1 t1 st1" "contents t1 = upsert k v (contents t)"
    "put_reach ps 0 (write_lock st) < 2 ^ 64" "put_reach ps 0 (write_lock st) \<le> mmap_limit (store_io st)"
    by (rule file_ok_put [OF Cons.prems(1) kv(1) small])
  have ok: "store_ok mmap_ops (mmap_at (max DEFAULT_MAX_SIZE ps) disk) 0 t st" "page_size mmap_ops (store_io st) = ps"
    "store_ok mmap_ops (mmap_at (max DEFAULT_MAX_SIZE ps) disk) h1 t1 st1"
    using Cons.prems(1) 1(3) by (simp_all add: file_ok_def)
  have "h1 = 0 \<and> leaf_of K m t1"
    by (rule mapping.leaf_stays [OF ok(1,2) Cons.prems(2) K kv 1(5,6,1) ok(3) 1(4)])
  then show ?case using Cons.IH [of t1 st1] Cons.prems(3) 1(2,3) p by simp
qed auto

lemma bounded_size_test_passes:
  assumes "\<And>c. os c = None" "2 ^ 20 \<le> disk"
  shows "bounded_size_test printable os disk = Some ()"
proof -
  let ?ks = "map (key_format ''key'' 3) [0..<50]" and ?K = "key_format ''key'' 3 ` {..<50}"
  let ?kvs1 = "map (\<lambda>k. (k, bytes_of ''v0'')) ?ks"
    and ?kvs2 = "concat (map (\<lambda>pass. map (\<lambda>k. (k, key_format ''v'' 0 pass)) ?ks) [0..<30])"
  have len: "length (key_format ''key'' 3 i) = 6" if "i < 50" for i
    using that key_format_len [of 3 i "''key''"] by simp
  have val: "length (key_format ''v'' 0 i) \<le> 3" if "i < 30" for i
    using that key_format_len_le [of i 1 "''v''"] by simp
  have K: "finite ?K" "11 + (4 + 9) * card ?K \<le> 4096" "9 \<le> max_kv_size 4096"
    by (simp_all add: card_numbered test_limits)
  have kvs: "\<forall>(k, v) \<in> set ?kvs1. k \<in> ?K \<and> length k + length v \<le> 9" "\<forall>(k, v) \<in> set ?kvs2. k \<in> ?K \<and> length k + length v \<le> 9"
    using len val by (auto simp: le_numeral_extra)
  have room: "keys_reach 4096 (card ?K) \<le> min (max DEFAULT_MAX_SIZE 4096) disk div 4096"
    by (rule room_4096 [OF assms(2)]) (simp add: card_numbered)
  obtain st where st: "file_open os disk [] 4096 = Some st" "file_ok 4096 disk ?K 0 (CLeaf 1 []) st"
    by (rule file_ok_open [where os = os, OF assms(1) page_4096 K(1) room])
  have leaf: "leaf_of ?K 9 (CLeaf 1 [])" by (simp add: leaf_of_def)
  obtain st1 t1 where st1: "put_each file_put st ?kvs1 = Some st1" "file_ok 4096 disk ?K 0 t1 st1" "leaf_of ?K 9 t1"
    using flat_file_puts [OF K st(2) leaf kvs(1)] by (elim exE conjE)
  obtain st2 t2 where st2: "put_each file_put st1 ?kvs2 = Some st2" "file_ok 4096 disk ?K 0 t2 st2" "leaf_of ?K 9 t2"
    using flat_file_puts [OF K st1(2,3) kvs(2)] by (elim exE conjE)
  have "length (ids t2) = 1" using st2(3) by (auto simp: leaf_of_def)
  then have "unat (next_page_id (write_lock st2)) \<le> 4"
    using st2(2) by (simp add: file_ok_def lean_def accounted_def chain_need_def div_ceil_def)
  moreover have "length (on_disk st2) \<le> unat (next_page_id (write_lock st2)) * 4096"
    using st2(2) by (simp add: file_ok_def file_bounded_def within_def)
  ultimately have "length (on_disk st2) \<le> 4 * 4096" by (meson le_trans mult_le_mono1)
  moreover have "2 * 4096 \<le> length (on_disk st1)" by (rule file_ok_two_pages [OF st1(2)])
  ultimately have "length (on_disk st2) \<le> length (on_disk st1) * 3" by simp
  then show ?thesis
    by (simp add: bounded_size_test_def st(1) st1(1) st2(1) file_ok_print [OF st(2)] file_ok_print [OF st1(2)]
        file_ok_print [OF st2(2)] Let_def assert_that_def del: upt.simps map_map)
qed

section \<open>Property\<close>



end
