(* ===== verification/Thread_Test.thy ===== *)
theory Thread_Test
  imports Lone_Space Integration_Tests
begin

text \<open>
  The test of \<open>src/01-btree/tests/concurrency.rs\<close> with one writing and eight reading threads, on the model
  of the engine on a file: its threads as steps of one system, with the puts in the stages of their
  commits and the lookups page by page.
\<close>

section \<open>The test\<close>

definition thread_keys :: "key list" where
  "thread_keys = [bytes_of ''a'', bytes_of ''b'', bytes_of ''c'', bytes_of ''d'']"

text \<open>The engine on a new file, with a first value for every key.\<close>

definition thread_setup :: "(nat \<Rightarrow> bool) \<Rightarrow> (os_call \<Rightarrow> 'e option) \<Rightarrow> nat \<Rightarrow> mmap_page_io store option" where
  "thread_setup printable os disk =
     do { st \<leftarrow> file_open os disk [] 4096;
          st \<leftarrow> put_each file_put st (map (\<lambda>k. (k, bytes_of ''v0'')) thread_keys);
          file_print printable st }"

text \<open>The put number \<open>n\<close> of the writer: the keys in turn, with the version, which counts the rounds.\<close>

definition thread_put :: "nat \<Rightarrow> key \<times> val" where
  "thread_put n = (thread_keys ! (n mod 4), key_format ''v'' 0 (n div 4 + 1))"

text \<open>
  What a reader asserts of an answer. \<open>str::parse::<u64>\<close> allows a plus sign; a value of the letter and
  digits is UTF-8.
\<close>

definition parses_u64 :: "bytes \<Rightarrow> bool" where
  "parses_u64 bs \<longleftrightarrow> (let ds = (case bs of [] \<Rightarrow> [] | b # r \<Rightarrow> if b = 43 then r else bs)
     in ds \<noteq> [] \<and> list_all (\<lambda>b. 48 \<le> b \<and> b \<le> 57) ds \<and> undec (map unat ds) < 2 ^ 64)"

definition reader_asserts :: "val option \<Rightarrow> unit option" where
  "reader_asserts answer =
     do { text \<leftarrow> answer;
          assert_that (case text of [] \<Rightarrow> False | b # digits \<Rightarrow> b = 118 \<and> parses_u64 digits) }"

text \<open>
  The state of the threads: the engine's, the number of puts the writer has finished, and for each reader
  the number of lookups it has finished.
\<close>

record threads =
  sys :: "mmap_page_io system"
  puts :: nat
  reads :: "nat \<Rightarrow> nat"

text \<open>
  One step of one thread. Reader \<open>i\<close> looks up the keys in turn; the writer puts the keys in turn. A
  thread may stop at any time, so the flag that the test sets after 300 milliseconds needs no step; how
  many lookups come to an end in that time is no part of the model.
\<close>

inductive thread_step :: "threads \<Rightarrow> threads \<Rightarrow> bool" where
  reader_thread: "read_step mmap_ops (sys c) s \<Longrightarrow>
    \<forall>i k. pcs (sys c) i = Outside \<longrightarrow> pcs s i = Entered k \<longrightarrow> i < 8 \<and> k = thread_keys ! (reads c i mod 4) \<Longrightarrow>
    thread_step c (c\<lparr>sys := s,
      reads := \<lambda>i. if pcs (sys c) i \<noteq> Outside \<and> pcs s i = Outside then Suc (reads c i) else reads c i\<rparr>)"
| writer_thread: "writer_step mmap_ops (sys c) s \<Longrightarrow>
    writer (sys c) = Idle \<longrightarrow>
      (\<exists>r tx. writer s = Prepared (fst (thread_put (puts c))) (snd (thread_put (puts c))) r tx) \<Longrightarrow>
    thread_step c (c\<lparr>sys := s, puts := finished (puts c) (sys c) s\<rparr>)"

text \<open>
  Readers may be inside at the gate of every commit, and then no page becomes free. With a page per put,
  and those of the chain, the gibibyte of the mapping has room for this many.
\<close>

definition puts_limit :: nat where "puts_limit = 80000"

text \<open>The threads start on the store of the setup.\<close>

definition thread_start :: "mmap_page_io store \<Rightarrow> threads" where
  "thread_start st =
     \<lparr>sys = (start st)\<lparr>published := map_of (map (\<lambda>k. (k, bytes_of ''v0'')) thread_keys)\<rparr>, puts = 0, reads = (\<lambda>_. 0)\<rparr>"

section \<open>Its values and its keys\<close>

lemma thread_keys_facts: "card (set thread_keys) = 4" "k \<in> set thread_keys \<Longrightarrow> length k = 1" "length thread_keys = 4"
  by (auto simp: thread_keys_def)

abbreviation good_value :: "val \<Rightarrow> bool" where
  "good_value v \<equiv> reader_asserts (Some v) = Some ()"

lemma good_version:
  assumes "n < 2 ^ 64"
  shows "good_value (key_format ''v'' 0 n)" "length (key_format ''v'' 0 n) \<le> 21"
proof -
  let ?ds = "map of_nat (dec n) :: 8 word list"
  have digits: "\<forall>d \<in> set (dec n). 48 \<le> d \<and> d < 58" by (rule dec_digits)
  then have unat: "map unat ?ds = dec n" unfolding map_map by (intro map_idI) (auto simp: unat_of_nat)
  have "48 \<le> b \<and> b \<le> 57" if "b \<in> set ?ds" for b
  proof -
    have "unat b \<in> set (dec n)" using that unat by (metis image_eqI image_set)
    then show ?thesis using digits by (auto simp: word_le_nat_alt)
  qed
  then have all: "list_all (\<lambda>b. 48 \<le> b \<and> b \<le> 57) ?ds" by (simp add: list_all_iff)
  have "dec n \<noteq> []"
  proof
    assume "dec n = []"
    then show False by (cases "n < 10") (simp_all add: dec_small dec_large)
  qed
  then obtain b bs where b: "?ds = b # bs" by (cases ?ds) auto
  then have "48 \<le> b" using all by simp
  then have "b \<noteq> 43" by auto
  then have "parses_u64 ?ds"
    using b all unat undec_dec [of n] assms unfolding parses_u64_def by (simp add: Let_def)
  moreover have "key_format ''v'' 0 n = 118 # ?ds" by (simp add: key_format_def bytes_of_simps)
  ultimately show "good_value (key_format ''v'' 0 n)" by (simp add: reader_asserts_def assert_that_def)
  have "n < 10 ^ Suc 19" using assms by simp
  then show "length (key_format ''v'' 0 n) \<le> 21" using key_format_len_le [of n 19 "''v''"] by simp
qed

lemma thread_put_facts:
  assumes "n div 4 + 1 < 2 ^ 64"
  shows "fst (thread_put n) \<in> set thread_keys" "good_value (snd (thread_put n))"
    "length (fst (thread_put n)) + length (snd (thread_put n)) \<le> 22"
  using good_version [OF assms] thread_keys_facts(2) [of "thread_keys ! (n mod 4)"] thread_keys_facts(3)
  by (simp_all add: thread_put_def)


section \<open>Its runs\<close>

lemma thread_step_puts: "thread_step c c' \<Longrightarrow> puts c' = finished (puts c) (sys c) (sys c') \<and> puts c \<le> puts c'"
  by (induction rule: thread_step.induct) (simp_all add: finished_def read_step_frame(2))

lemma thread_step_lone:
  assumes "thread_step c c'" "puts c \<le> puts_limit" "capacity mmap_ops mmap_limit (shared (sys c)) \<or> writer (sys c) \<noteq> Idle"
  shows "lone_step mmap_ops mmap_limit (set thread_keys) good_value 22 (sys c) (sys c')"
  using assms(1)
proof cases
  case (reader_thread s)
  then show ?thesis by (simp add: lone_read)
next
  case (writer_thread s)
  have "puts c div 4 + 1 < 2 ^ 64" using assms(2) by (simp add: puts_limit_def)
  note put = thread_put_facts [OF this]
  have "capacity mmap_ops mmap_limit (shared (sys c)) \<and>
      (\<exists>k v r tx. writer s = Prepared k v r tx \<and> k \<in> set thread_keys \<and> good_value v \<and> length k + length v \<le> 22)"
    if "writer (sys c) = Idle" using writer_thread(3) that put assms(3) by blast
  then show ?thesis using writer_thread(1,2) by (simp add: lone_write)
qed

text \<open>A reader looks up keys of the test only.\<close>

fun key_of :: "reader_pc \<Rightarrow> key set" where
  "key_of Outside = {}"
| "key_of (Entered k) = {k}"
| "key_of (Rooted k r) = {k}"
| "key_of (At k pg) = {k}"
| "key_of (Answered k v) = {k}"

lemma read_step_key: "read_step ops s s' \<Longrightarrow> key_of (pcs s' i) \<subseteq> key_of (pcs s i) \<or> (\<exists>k. pcs s i = Outside \<and> pcs s' i = Entered k)"
  by (induction rule: read_step.induct) auto

lemma thread_step_keys:
  assumes "thread_step c c'" "\<forall>i. key_of (pcs (sys c) i) \<subseteq> set thread_keys"
  shows "\<forall>i. key_of (pcs (sys c') i) \<subseteq> set thread_keys"
  using assms(1)
proof cases
  case (reader_thread s)
  have "key_of (pcs s i) \<subseteq> set thread_keys" for i
    using read_step_key [OF reader_thread(2), of i]
  proof
    assume "\<exists>k. pcs (sys c) i = Outside \<and> pcs s i = Entered k"
    then obtain k where k: "pcs s i = Entered k" "k = thread_keys ! (reads c i mod 4)" using reader_thread(3) by blast
    have "reads c i mod 4 < length thread_keys" by (simp add: thread_keys_facts(3))
    then show ?thesis using k by simp
  qed (use assms(2) in blast)
  then show ?thesis using reader_thread(1) by simp
next
  case (writer_thread s)
  then show ?thesis using assms(2) writer_step_pcs [OF writer_thread(2)] by simp
qed

text \<open>The setup leaves one leaf with the four keys.\<close>

lemma thread_setup_ok:
  assumes "\<And>c. os c = None" "2 ^ 20 \<le> disk"
  obtains st i es where "thread_setup printable os disk = Some st"
    "store_ok mmap_ops (mmap_at DEFAULT_MAX_SIZE disk) 0 (CLeaf i es) st" "whole (set thread_keys) good_value 22 es"
    "mmap_page_size (store_io st) = 4096" "readers st = 0" "map_of es = published (sys (thread_start st))" "used 4096 1 0 0 (write_lock st)"
proof -
  let ?K = "set thread_keys" and ?kvs = "map (\<lambda>k. (k, bytes_of ''v0'')) thread_keys"
  have K: "finite ?K" "11 + (4 + 22) * card ?K \<le> 4096" "22 \<le> max_kv_size 4096"
    by (simp_all add: thread_keys_facts test_limits)
  have max: "max DEFAULT_MAX_SIZE 4096 = DEFAULT_MAX_SIZE" by (simp add: DEFAULT_MAX_SIZE_def)
  have room: "keys_reach 4096 (card ?K) \<le> min (max DEFAULT_MAX_SIZE 4096) disk div 4096"
    by (rule room_4096 [OF assms(2)]) (simp add: thread_keys_facts)
  obtain st0 where st0: "file_open os disk [] 4096 = Some st0" "file_ok 4096 disk ?K 0 (CLeaf 1 []) st0"
    by (rule file_ok_open [where os = os, OF assms(1) page_4096 K(1) room])
  have leaf: "leaf_of ?K 22 (CLeaf 1 [])" by (simp add: leaf_of_def)
  have kvs: "\<forall>(k, v) \<in> set ?kvs. k \<in> ?K \<and> length k + length v \<le> 22" using thread_keys_facts(2) by fastforce
  have kvs': "\<forall>(k, v) \<in> set ?kvs. k \<in> ?K \<and> length k + length v \<le> max_kv_size 4096" using kvs K(3) by fastforce
  obtain st t where st: "put_each file_put st0 ?kvs = Some st" "file_ok 4096 disk ?K 0 t st" "leaf_of ?K 22 t"
    using flat_file_puts [OF K st0(2) leaf kvs] by (elim exE conjE)
  obtain i es where t: "t = CLeaf i es" "\<forall>p \<in> set es. fst p \<in> ?K \<and> length (fst p) + length (snd p) \<le> 22"
    using st(3) by (auto simp: leaf_of_def)
  obtain h' t' where t': "file_ok 4096 disk ?K h' t' st" "contents t' = upserts ?kvs []"
    using file_ok_puts [OF st0(2) kvs'] st(1) by auto
  have ok: "store_ok mmap_ops (mmap_at DEFAULT_MAX_SIZE disk) 0 (CLeaf i es) st" "mmap_page_size (store_io st) = 4096"
    "readers st = 0" "lean 4096 (0, CLeaf i es, write_lock st)"
    using st(2) t(1) by (simp_all add: file_ok_def max)
  have small: "leaf_small es" "sorted_keys (map fst es)" using ok(1) by (simp_all add: store_ok_def tree_ok_def)
  have "store_ok mmap_ops (mmap_at DEFAULT_MAX_SIZE disk) h' t' st" using t'(1) by (simp add: file_ok_def max)
  then obtain j es' where "t' = CLeaf j es'" using leaf_root ok(1) by metis
  moreover from this have "es' = es"
    using t'(1) ok(1) mk_leaf_entries [of es' es j i] small by (simp add: file_ok_def store_ok_def tree_ok_def max)
  ultimately have es: "es = upserts ?kvs []" using t'(2) by simp
  have "whole ?K good_value 22 es"
  proof -
    have "fst ` set es = ?K" unfolding es by (simp add: upserts_keys image_image)
    moreover have "good_value (snd p)" if "p \<in> set es" for p
    proof -
      have "map_of es (fst p) = Some (snd p)" using small(2) that by (simp add: strict_sorted_iff)
      then have "map_of (rev ?kvs) (fst p) = Some (snd p)" unfolding es by (simp add: map_of_upserts)
      then have "(fst p, snd p) \<in> set ?kvs" by (metis map_of_SomeD set_rev)
      then have "snd p = key_format ''v'' 0 0" by (auto simp: key_format_def bytes_of_simps dec_small)
      then show ?thesis using good_version(1) [of 0] by simp
    qed
    ultimately show ?thesis using small t(2) by (auto simp: whole_def)
  qed
  moreover have "used 4096 1 0 0 (write_lock st)"
    using ok(4) by (simp add: lean_def accounted_def used_def payload_def chain_need_def div_ceil_def)
  moreover have "thread_setup printable os disk = Some st"
    using st0(1) st(1) file_ok_print(1) [OF st(2)] by (simp add: thread_setup_def)
  moreover have "map_of es = published (sys (thread_start st))"
  proof -
    have "map_of es = map_of (rev ?kvs)" unfolding es by (simp add: map_of_upserts)
    also have "\<dots> = map_of ?kvs" by (simp add: thread_keys_def fun_eq_iff)
    finally show ?thesis by (simp add: thread_start_def)
  qed
  ultimately show ?thesis using that ok by blast
qed


text \<open>There is room for the next put.\<close>

lemma puts_room:
  assumes "used 4096 1 n 0 g" "n \<le> puts_limit"
  shows "put_reach 4096 (unat (next_page_id g)) g \<le> 2 ^ 18"
proof -
  have "chain_need 4096 (1 + n) \<le> chain_need 4096 80001"
    using assms(2) by (intro chain_need_mono) (simp add: puts_limit_def)
  also have "\<dots> = 158" by (simp add: chain_need_def div_ceil_def)
  finally have ids: "1 + 2 + n + chain_need 4096 (1 + n) \<le> 80161" using assms(2) by (simp add: puts_limit_def)
  then have "chain_need 4096 (1 + n + Suc (1 + 2 + n + chain_need 4096 (1 + n))) \<le> chain_need 4096 160163"
    using assms(2) by (intro chain_need_mono) (simp add: puts_limit_def)
  also have "\<dots> = 315" by (simp add: chain_need_def div_ceil_def)
  finally show ?thesis using used_room [OF assms(1)] ids by simp
qed

text \<open>What holds in every state that the threads reach.\<close>

definition threads_ok :: "nat \<Rightarrow> threads \<Rightarrow> bool" where
  "threads_ok disk c \<longleftrightarrow> staged_ok mmap_ops (mmap_at DEFAULT_MAX_SIZE disk) mmap_limit (at_door (sys c)) \<and>
     (\<exists>L. lone mmap_ops (mmap_at DEFAULT_MAX_SIZE disk) 4096 (set thread_keys) good_value 22 L (sys c)) \<and>
     spent 4096 1 (puts c) (write_lock (shared (sys c))) (writer (sys c)) \<and>
     (\<forall>i. key_of (pcs (sys c) i) \<subseteq> set thread_keys)"

lemma threads_capacity:
  assumes "threads_ok disk c" "2 ^ 30 \<le> disk" "puts c \<le> puts_limit" "writer (sys c) = Idle"
  shows "capacity mmap_ops mmap_limit (shared (sys c))"
proof -
  obtain L where "lone mmap_ops (mmap_at DEFAULT_MAX_SIZE disk) 4096 (set thread_keys) good_value 22 L (sys c)"
    using assms(1) by (auto simp: threads_ok_def)
  then have io: "mmap_page_size (store_io (shared (sys c))) = 4096" "mmap_limit (store_io (shared (sys c))) = 2 ^ 18"
    using assms(2) by (simp_all add: lone_def mmap_at_def mmap_limit_def DEFAULT_MAX_SIZE_def)
  have "used 4096 1 (puts c) 0 (write_lock (shared (sys c)))" using assms(1,4) by (simp add: threads_ok_def)
  from puts_room [OF this assms(3)] show ?thesis using io by (simp add: capacity_def Let_def)
qed

lemma thread_step_ok:
  assumes "thread_step c c'" "threads_ok disk c" "2 ^ 30 \<le> disk" "puts c \<le> puts_limit"
  shows "threads_ok disk c'"
proof -
  obtain L where c: "staged_ok mmap_ops (mmap_at DEFAULT_MAX_SIZE disk) mmap_limit (at_door (sys c))"
    "lone mmap_ops (mmap_at DEFAULT_MAX_SIZE disk) 4096 (set thread_keys) good_value 22 L (sys c)"
    "spent 4096 1 (puts c) (write_lock (shared (sys c))) (writer (sys c))" "\<forall>i. key_of (pcs (sys c) i) \<subseteq> set thread_keys"
    using assms(2) by (auto simp: threads_ok_def)
  have K: "finite (set thread_keys)" "11 + (4 + 22) * card (set thread_keys) \<le> 4096"
    by (simp_all add: thread_keys_facts)
  have step: "lone_step mmap_ops mmap_limit (set thread_keys) good_value 22 (sys c) (sys c')"
    using thread_step_lone [OF assms(1,4)] threads_capacity [OF assms(2-4)] by blast
  have "spent 4096 1 (puts c') (write_lock (shared (sys c'))) (writer (sys c'))"
    using mapping.lone_step_spent [OF step c(1,2) K page_4096 c(3)] thread_step_puts [OF assms(1)] by simp
  then show ?thesis
    using mapping.lone_step_ok [OF step c(1,2) K] mapping.racing_step_ok [OF lone_step_racing [OF step] c(1)]
      thread_step_keys [OF assms(1) c(4)] by (simp add: threads_ok_def)
qed

lemma thread_run_ok:
  assumes "thread_step\<^sup>*\<^sup>* c0 c" "threads_ok disk c0" "2 ^ 30 \<le> disk" "puts c \<le> puts_limit"
  shows "threads_ok disk c"
  using assms(1,4)
proof (induction rule: rtranclp_induct)
  case base
  then show ?case using assms(2) by simp
next
  case (step c1 c2)
  have "puts c1 \<le> puts_limit" using thread_step_puts [OF step.hyps(2)] step.prems by simp
  then show ?case using thread_step_ok [OF step.hyps(2) step.IH assms(3)] by blast
qed

lemma thread_start_ok:
  assumes st: "store_ok mmap_ops (mmap_at DEFAULT_MAX_SIZE disk) 0 (CLeaf i es) st" "whole (set thread_keys) good_value 22 es"
    "mmap_page_size (store_io st) = 4096" "readers st = 0" "map_of es = published (sys (thread_start st))"
    "used 4096 1 0 0 (write_lock st)"
  shows "threads_ok disk (thread_start st)"
proof -
  let ?s = "sys (thread_start st)"
  have s: "shared ?s = st" "writer ?s = Idle" "pcs ?s = (\<lambda>_. Outside)" "at_door ?s = ?s" "puts (thread_start st) = 0"
    by (simp_all add: thread_start_def start_def at_door_def)
  have "system_ok mmap_ops (mmap_at DEFAULT_MAX_SIZE disk) ?s"
    unfolding system_ok_def s using st(1,4,5) by (auto simp: active_def intro!: exI [of _ 0] exI [of _ "CLeaf i es"])
  then have "staged_ok mmap_ops (mmap_at DEFAULT_MAX_SIZE disk) mmap_limit (at_door ?s)"
    unfolding s(4) using staged_idle [OF s(2)] by blast
  moreover have "lone mmap_ops (mmap_at DEFAULT_MAX_SIZE disk) 4096 (set thread_keys) good_value 22 {i} (start st)"
    using mapping.lone_start [OF st(1,2)] st(3) by simp
  then have "lone mmap_ops (mmap_at DEFAULT_MAX_SIZE disk) 4096 (set thread_keys) good_value 22 {i} ?s"
    by (simp add: lone_def thread_start_def)
  ultimately show ?thesis using st(6) by (auto simp: threads_ok_def s)
qed

lemma thread_answer_ok:
  assumes "threads_ok disk c" "pcs (sys c) j = Answered k v"
  shows "reader_asserts v = Some ()"
proof -
  obtain L where L: "lone mmap_ops (mmap_at DEFAULT_MAX_SIZE disk) 4096 (set thread_keys) good_value 22 L (sys c)"
    and "\<forall>i. key_of (pcs (sys c) i) \<subseteq> set thread_keys"
    using assms(1) by (auto simp: threads_ok_def)
  then have "k \<in> set thread_keys" using assms(2) by (metis key_of.simps(5) insert_subset)
  then show ?thesis using answers_whole [OF L, of j] assms(2) by auto
qed

lemma thread_reader_goes_on:
  assumes "threads_ok disk c" "pcs (sys c) j \<noteq> Outside"
  shows "\<exists>s k v. (own_step mmap_ops j)\<^sup>*\<^sup>* (sys c) s \<and> pcs s j = Answered k v"
  using assms lone_reader_answers unfolding threads_ok_def by blast

lemma thread_writer_goes_on:
  assumes c: "threads_ok disk c" "2 ^ 30 \<le> disk" "puts c \<le> puts_limit"
  shows "\<exists>c'. thread_step c c' \<and> writer_step mmap_ops (sys c) (sys c')"
proof (cases "writer (sys c) = Idle")
  case False
  have "staged_ok mmap_ops (mmap_at DEFAULT_MAX_SIZE disk) mmap_limit (at_door (sys c))" using c(1) by (simp add: threads_ok_def)
  then obtain s where "writer_step mmap_ops (sys c) s" using mapping.racing_writer_step False by blast
  then show ?thesis using thread_step.writer_thread [of c s] False by fastforce
next
  case True
  let ?st = "shared (sys c)" and ?k = "fst (thread_put (puts c))" and ?v = "snd (thread_put (puts c))"
  obtain L where ok: "staged_ok mmap_ops (mmap_at DEFAULT_MAX_SIZE disk) mmap_limit (at_door (sys c))"
    "lone mmap_ops (mmap_at DEFAULT_MAX_SIZE disk) 4096 (set thread_keys) good_value 22 L (sys c)"
    using c(1) by (auto simp: threads_ok_def)
  obtain i es where st: "store_ok mmap_ops (mmap_at DEFAULT_MAX_SIZE disk) 0 (CLeaf i es) ?st"
    by (rule mapping.lone_idle [OF ok(2,1) True])
  have "puts c div 4 + 1 < 2 ^ 64" using c(3) by (simp add: puts_limit_def)
  then have kv: "length ?k + length ?v \<le> max_kv_size (page_size mmap_ops (store_io ?st))"
    using thread_put_facts(3) [of "puts c"] ok(2) by (simp add: lone_def test_limits)
  obtain r tx where "put_prepared mmap_ops (begin_write ?st) ?k ?v = Some (r, tx)"
    by (rule store_put_prepared [OF st kv put_reach_of_capacity(1) [OF st threads_capacity [OF c True]]])
  then have step: "writer_step mmap_ops (sys c) ((sys c)\<lparr>shared := txn_store tx, writer := Prepared ?k ?v r tx\<rparr>)"
    by (rule writer_step.prepare [OF True kv])
  then show ?thesis using thread_step.writer_thread [OF step] by (intro exI conjI) auto
qed

section \<open>Property\<close>



end
