(* ===== verification/Spec2Isabelle.thy ===== *)
theory Spec2Isabelle
  imports Crash Decoding Thread_Test
begin

text \<open>
  A verification development of the key-value store in \<open>src/01-btree\<close>: a copy-on-write B+tree on
  fixed-size pages, over an in-memory page table or a memory-mapped file, with one writer at a time
  and readers that never block.

  The program. \<open>StorageEngine\<close> (\<open>storage/engine.rs\<close>) opens a \<open>Store\<close> (\<open>storage/store.rs\<close>) over a
  backend (\<open>io/\<close>). A \<open>put\<close> (\<open>storage/tree.rs\<close>) begins a write transaction, copies the path from the
  root to a leaf into new pages, splits the nodes that overflow, and commits: it writes the buffered
  pages, adds the pages of the old path to those that wait, makes the waiting pages free if no reader
  is inside, writes the free list to a chain of pages, writes the header page in place, and publishes
  the new root. A \<open>get\<close> counts itself as a reader, loads the root, descends and leaves. The pages
  (\<open>page/\<close>) are byte arrays with \<open>u16\<close> offsets.

  The model. Each theory follows a source file, each definition a function, with the function's name
  (prefixed by its type where Rust has methods).
  \<^item> \<open>Prelude\<close>: panics as \<^const>\<open>None\<close>, \<open>Result\<close> as a sum, slices, little-endian integers, checked
    \<open>u16\<close> arithmetic. The model is the debug profile.
  \<^item> \<open>Page_Io\<close>: \<open>io/mod.rs\<close>, \<open>io/in_memory_backend.rs\<close>, \<open>io/file_backend.rs\<close>. The trait is the record
    \<open>page_io\<close>; what the store relies on is the locale \<open>page_backend\<close>, interpreted on both backends
    (\<open>mem\<close>, \<open>mapping\<close>). The file backend models the file as bytes, its growth and its reserved ceiling.
  \<^item> \<open>Page_Codec\<close>, \<open>Header_Page\<close>, \<open>Free_List_Page\<close>, \<open>Leaf_Page\<close>, \<open>Internal_Page\<close>, \<open>Pages\<close>: \<open>page/\<close>. The
    locale \<open>page_codec\<close> is what every layout promises, and each layout interprets it. \<open>mk_leaf\<close> and
    \<open>mk_internal\<close> relate the byte buffers to lists; every operation is an equation between such nodes.
  \<^item> \<open>Store\<close>, \<open>Btree\<close>, \<open>Engine\<close>: \<open>storage/store.rs\<close>, \<open>storage/tree.rs\<close>, \<open>storage/engine.rs\<close>, with explicit
    state. The descents follow page ids and are partial functions: divergence is \<^const>\<open>None\<close>.
  \<^item> \<open>Debug\<close>: \<open>debug/mod.rs\<close>, the \<open>print_pretty\<close> methods, the texts of the errors and \<open>main.rs\<close>, as the lines
    printed.

  The proofs.
  \<^item> \<open>Sorted_Alist\<close> and \<open>Ctree\<close> are the specification: sorted lists of pairs with \<open>upsert\<close>, and the abstract
    tree with its order, size and balance invariants and its \<open>contents\<close>.
  \<^item> \<open>Txn\<close> and \<open>Insertion\<close>: what a transaction does to the pool of page ids, and that insertion refines
    \<open>upsert\<close>. \<open>Chain\<close>: the persisted free list is read back. \<open>Commit\<close>, \<open>Put\<close>, \<open>Recovery\<close>: the invariant
    \<open>store_ok\<close> (every page has one role; the disk holds what an open needs) is kept by \<open>put\<close> and
    found again by an open. \<open>Engine_Correct\<close>: sequences of puts on both backends.
  \<^item> \<open>Concurrency\<close>: any number of readers, page read by page read, beside whole puts; runs refine an
    abstract map. \<open>Stages\<close> splits the commit into its stages. \<open>Race\<close>: interleaved with readers as the code
    allows, a lookup can miss a present key, because the gate counts the readers before the root is
    published. \<open>Discipline\<close>: it is only that window; if no reader loads the root in it, the store is
    linearizable. \<open>Racing\<close>: a reader in the window endangers itself only, never the stored data or the
    writer. \<open>Lone_Leaf\<close>: as long as the tree is one leaf, not even itself. \<open>Lone_Space\<close>: the pages
    that such runs use.
  \<^item> \<open>Decoding\<close>: what the decoders of the tree pages make of arbitrary bytes.
  \<^item> \<open>Crash\<close>: what an open finds after a crash inside a commit: the old tree, whichever of the buffered
    writes are on the disk; a root that is a free page, between the free list and the header; a root that
    cannot be read, if the header is on the disk and the buffered writes are not.
  \<^item> \<open>Space\<close>, \<open>Growth\<close>, \<open>File_Size\<close>: no page id is lost, and without readers the freed pages are used before the
    file grows; so the pages in use are about twice the different keys at most, however often they are
    put, and the file is no longer than these pages. \<open>Leak\<close>: an open can lose pages of the
    free-list chain for good.
  \<^item> \<open>Page_Tests\<close>, \<open>Test_Support\<close>, \<open>Engine_Tests\<close>, \<open>Store_Tests\<close>: the unit tests of the crate as
    computations on the model, which all pass; \<open>Integration_Tests\<close>: those under \<open>tests/\<close> that need no
    threads, on the engine on a file; \<open>Thread_Test\<close>: the one with threads, in all its interleavings.
    \<open>Flat\<close>: runs in which the tree stays a single leaf.

  Bounds. \<open>page_size_ok\<close> is 49 to 43696 bytes: the header needs 49, and above 43696 the offsets of
  an overfull leaf leave \<open>u16\<close> (\<open>large_page_put_panics\<close>); \<open>small_page_size_damages\<close> shows what
  happens below 49. \<open>put_reach\<close> bounds the page ids a put can use, \<open>capacity\<close> asks for that room.
  Without readers \<open>keys_reach\<close> bounds the ids that puts of so many different keys use, about two per
  key; with readers inside, when no page becomes free, \<open>run_reach\<close> bounds the ids that so many puts
  use; \<open>puts_limit\<close> is the 80000 puts of the concurrent test for which a gibibyte is enough. A
  reader's page read, a step of the commit and a put are the atoms of the interleavings; memory is
  sequentially consistent, as the source's orderings ask. For crashes a page write is atomic. The
  buffered writes of a commit reach the disk in any order and not all of them need to; the free list
  and the header are taken in the order of the code.

  Not modelled: the mutexes (an operation that holds one is one step of its component), poisoning,
  stack depth and memory limits, torn page writes, a partly written free-list chain, the module
  declarations (\<open>lib.rs\<close>, \<open>storage/mod.rs\<close>), the time that the threads of a test take, and
  \<open>src/02-raft\<close>, a separate Java program.
\<close>

section \<open>Properties of the whole engine\<close>

text \<open>C1. The in-memory engine is a map: from an empty engine, any sequence of puts within the size limit
  succeeds, however long, up to \<open>2 ^ 60\<close> different keys, and afterwards every lookup gives the value last
  put for its key, or nothing, and leaves the store as it was.\<close>

theorem memory_engine_correct:
  assumes "page_size_ok ps" "\<forall>(k, v) \<in> set kvs. length k + length v \<le> max_kv_size ps"
    and "card (fst ` set kvs) \<le> 2 ^ 60"
  shows "\<exists>st0 st. engine_in_memory ps = Some st0 \<and> put_all memory_ops st0 kvs = Some st \<and>
    (\<forall>key. engine_get memory_ops st key = Some (map_of (rev kvs) key, st))"
  by (rule memory_run [OF assms]) blast

lemma memory_engine_correct_witness:
  "\<exists>st0 st. engine_in_memory 64 = Some st0 \<and>
    put_all memory_ops st0 [([1], [10]), ([2], [20]), ([1], [30])] = Some st \<and>
    engine_get memory_ops st [1] = Some (Some [30], st) \<and> engine_get memory_ops st [3] = Some (None, st)"
proof -
  let ?kvs = "[([1], [10]), ([2], [20]), ([1], [30])] :: (key \<times> val) list"
  have "page_size_ok 64" "\<forall>(k, v) \<in> set ?kvs. length k + length v \<le> max_kv_size 64" "card (fst ` set ?kvs) \<le> 2 ^ 60"
    by (simp_all add: page_size_ok_def max_kv_size_def INTERNAL_HEADER_def card_insert_if)
  from memory_engine_correct [OF this] show ?thesis by fastforce
qed

text \<open>C2. The engine on a file is a map, and the map is in the file: opening a new file, putting a sequence of
  entries, dropping the engine and opening the file again gives an engine whose lookups give the value
  last put for their key. The hypotheses are that the system calls succeed and that the pages that the
  different keys can need, about two per key, are below the ceiling of the mapping and fit the disk.\<close>

theorem file_engine_durable:
  assumes "\<And>c. os c = None" "page_size_ok ps"
    and "\<forall>(k, v) \<in> set kvs. length k + length v \<le> max_kv_size ps"
    and "keys_reach ps (card (fst ` set kvs)) \<le> min (max DEFAULT_MAX_SIZE ps) disk div ps"
  shows "\<exists>st0 st st'. engine_open os disk [] ps = Some (Inr st0) \<and> put_all mmap_ops st0 kvs = Some st \<and>
    engine_open os disk (file_bytes (store_io st)) ps = Some (Inr st') \<and>
    (\<forall>key. engine_get mmap_ops st key = Some (map_of (rev kvs) key, st) \<and>
       engine_get mmap_ops st' key = Some (map_of (rev kvs) key, st'))"
proof -
  obtain st0 st t h where st: "engine_open os disk [] ps = Some (Inr st0)" "put_all mmap_ops st0 kvs = Some st"
    "store_ok mmap_ops (mmap_at (max DEFAULT_MAX_SIZE ps) disk) h t st" "contents t = upserts kvs []"
    "mmap_page_size (store_io st) = ps"
    "\<And>key. engine_get mmap_ops st key = Some (map_of (rev kvs) key, st)"
    by (rule mmap_run [OF assms]) (rule that; assumption)
  have "mmap_at (max DEFAULT_MAX_SIZE ps) disk (store_io st)" using st(3) by (simp add: store_ok_def)
  then have io: "mmap_open os disk (file_bytes (store_io st)) ps = Inr (store_io st)"
    using st(5) assms(1) by (rule mmap_reopen)
  note st' = mapping.reopen_ok [OF st(3)]
  have "tree_ok mmap_ops h t (reopened mmap_ops st)" using st'(2) by (simp add: store_ok_def)
  then have "engine_get mmap_ops (reopened mmap_ops st) key = Some (map_of (rev kvs) key, reopened mmap_ops st)" for key
    by (simp add: engine_get_ok st(4) map_of_upserts)
  moreover have "engine_open os disk (file_bytes (store_io st)) ps = Some (Inr (reopened mmap_ops st))"
    by (simp add: engine_open_def io st'(1))
  ultimately show ?thesis using st(1,2,6) by blast
qed

lemma file_engine_durable_witness:
  "\<exists>st0 st st'. engine_open (\<lambda>_. None :: unit option) (2 ^ 30) [] 4096 = Some (Inr st0) \<and>
    put_all mmap_ops st0 [([1], [10]), ([2], [20]), ([1], [30])] = Some st \<and>
    engine_open (\<lambda>_. None :: unit option) (2 ^ 30) (file_bytes (store_io st)) 4096 = Some (Inr st') \<and>
    engine_get mmap_ops st' [1] = Some (Some [30], st')"
proof -
  let ?kvs = "[([1], [10]), ([2], [20]), ([1], [30])] :: (key \<times> val) list"
  have 1: "page_size_ok 4096" "\<forall>(k, v) \<in> set ?kvs. length k + length v \<le> max_kv_size 4096"
    by (simp_all add: page_size_ok_def max_kv_size_def INTERNAL_HEADER_def)
  have 2: "keys_reach 4096 (card (fst ` set ?kvs)) \<le> min (max DEFAULT_MAX_SIZE 4096) (2 ^ 30) div 4096"
    by (simp add: keys_reach_def card_insert_if bits.simps chain_need_def div_ceil_def DEFAULT_MAX_SIZE_def)
  have 0: "(\<lambda>_. None :: unit option) c = None" for c :: os_call by simp
  from file_engine_durable [OF 0 1 2] show ?thesis by fastforce
qed

text \<open>C10. Reopening in general: over a backend that keeps its contract, closing a store and opening its backend
  again finds the same tree under the same root, no reader, the same \<open>next_page_id\<close>, and every page that
  was free or waiting is free.\<close>

theorem reopen_correct:
  assumes "page_backend ops ok lim" "store_ok ops ok h t st"
  shows "\<exists>st'. open_or_create ops (store_io st) = Some (Inr st') \<and> store_ok ops ok h t st' \<and>
    root st' = root st \<and> readers st' = 0 \<and> next_page_id (write_lock st') = next_page_id (write_lock st) \<and>
    free_list (write_lock st') = free_list (write_lock st) @ pending_free (write_lock st) \<and>
    pending_free (write_lock st') = []"
  using page_backend.reopen_ok [OF assms] by simp

lemma reopen_correct_witness:
  "\<exists>st st'. engine_in_memory 64 = Some st \<and> open_or_create memory_ops (store_io st) = Some (Inr st') \<and>
     root st' = root st \<and> readers st' = 0"
  by (rule memory_ready) (use reopen_correct [OF mem.page_backend_axioms] in blast)

text \<open>C4. A put within the limits, on any store that satisfies the invariant and has room: it succeeds, the
  invariant holds again, the tree's sorted contents are those before with the key's value replaced or
  inserted, the tree grows by at most one level and no reader is lost.\<close>

theorem put_correct:
  assumes "page_backend ops ok lim" "store_ok ops ok h t st" "capacity ops lim st"
    and "length key + length val \<le> max_kv_size (page_size ops (store_io st))"
  shows "\<exists>st' t' h'. engine_put ops st key val = Some (Inr (), st') \<and> store_ok ops ok h' t' st' \<and>
    contents t' = upsert key val (contents t) \<and> h' \<le> Suc h \<and> readers st' = readers st"
  by (rule page_backend.put_ok [OF assms(1,2,4) put_reach_of_capacity [OF assms(2,3)]]) blast

lemma put_correct_witness:
  "\<exists>st st' t'. engine_in_memory 64 = Some st \<and> engine_put memory_ops st [1] [2, 3] = Some (Inr (), st') \<and>
     contents t' = [([1], [2, 3])] \<and> readers st' = readers st"
proof -
  obtain st where st: "engine_in_memory 64 = Some st" "store_ok memory_ops memory_inv 0 (CLeaf 1 []) st"
    "capacity memory_ops (\<lambda>_. 2 ^ 64) st" "page_size memory_ops (store_io st) = 64" by (rule memory_ready)
  have "length ([1] :: key) + length ([2, 3] :: val) \<le> max_kv_size (page_size memory_ops (store_io st))"
    unfolding st(4) by (simp add: max_kv_size_def INTERNAL_HEADER_def)
  from put_correct [OF mem.page_backend_axioms st(2,3) this] st(1) show ?thesis by auto
qed

text \<open>C7. Copy-on-write: after a put the old root still leads to the old tree; a lookup that starts from it
  gives the answers of before, for every key.\<close>

theorem put_keeps_old_tree:
  assumes "page_backend ops ok lim" "store_ok ops ok h t st" "capacity ops lim st"
    and "engine_put ops st key val = Some (Inr (), st')"
  shows "tree_get ops (st'\<lparr>root := root st\<rparr>) k = tree_get ops st k"
proof -
  have kv: "length key + length val \<le> max_kv_size (page_size ops (store_io st))"
    using put_result(1) [OF assms(4)] by simp
  obtain st1 where 1: "engine_put ops st key val = Some (Inr (), st1)"
    "page_backend.evolves ops ok lim (store_io st) (store_io st1)"
    "\<And>j pg. j \<in> set (ids t) \<union> set (pending_free (write_lock st)) \<Longrightarrow> guard_read ops st j = Some pg \<Longrightarrow>
       guard_read ops st1 j = Some pg"
    by (rule page_backend.put_ok [OF assms(1,2) kv put_reach_of_capacity [OF assms(2,3)]]) (rule that; assumption)
  have st1: "st1 = st'" using 1(1) assms(4) by simp
  have t: "tree_ok ops h t st" using assms(2) by (simp add: store_ok_def)
  have "page_size ops (store_io st') = page_size ops (store_io st)"
    using page_backend.evolves_facts(2) [OF assms(1) 1(2)] st1 by simp
  moreover have "rep (guard_read ops st') t"
    using t 1(3) st1 by (auto simp: tree_ok_def elim!: rep_mono)
  moreover have "guard_read ops (st'\<lparr>root := root st\<rparr>) = guard_read ops st'" by (rule guard_read_cong) simp
  ultimately have "tree_ok ops h t (st'\<lparr>root := root st\<rparr>)" using t by (simp add: tree_ok_def)
  then show ?thesis using t by (simp add: tree_get_ok)
qed

lemma put_keeps_old_tree_witness:
  "\<exists>st st'. engine_in_memory 64 = Some st \<and> engine_put memory_ops st [1] [2] = Some (Inr (), st') \<and>
     tree_get memory_ops (st'\<lparr>root := root st\<rparr>) [1] = tree_get memory_ops st [1]"
proof -
  obtain st where st: "engine_in_memory 64 = Some st" "store_ok memory_ops memory_inv 0 (CLeaf 1 []) st"
    "capacity memory_ops (\<lambda>_. 2 ^ 64) st" "page_size memory_ops (store_io st) = 64" by (rule memory_ready)
  have kv: "length ([1] :: key) + length ([2] :: val) \<le> max_kv_size (page_size memory_ops (store_io st))"
    unfolding st(4) by (simp add: max_kv_size_def INTERNAL_HEADER_def)
  obtain st' where put: "engine_put memory_ops st [1] [2] = Some (Inr (), st')"
    by (rule mem.put_ok [OF st(2) kv put_reach_of_capacity [OF st(2,3)]]) (rule that)
  show ?thesis using put_keeps_old_tree [OF mem.page_backend_axioms st(2,3) put, of "[1]"] put st(1) by blast
qed

text \<open>C9. A lookup on a store that satisfies the invariant ends, gives the value of the key in the tree's contents,
  and leaves the store as it was, the number of readers included.\<close>

theorem get_correct:
  assumes "store_ok ops ok h t st"
  shows "engine_get ops st key = Some (map_of (contents t) key, st)"
proof -
  have "tree_ok ops h t st" using assms by (simp add: store_ok_def)
  then show ?thesis by (rule engine_get_ok)
qed

lemma get_correct_witness:
  "\<exists>st. engine_in_memory 64 = Some st \<and> engine_get memory_ops st [1] = Some (None, st)"
  by (rule memory_ready) (use get_correct in fastforce)

text \<open>C27. An entry above the limit is refused with its size and the limit, and the store is untouched: no page
  is read, allocated or written, whatever state the store is in.\<close>

theorem put_too_large_refused:
  "engine_put ops st key val =
     Some (Inl (EntryTooLarge (length key + length val) (max_kv_size (page_size ops (store_io st)))), st) \<longleftrightarrow>
   max_kv_size (page_size ops (store_io st)) < length key + length val"
  using put_result(1) [of ops st key val] engine_put_too_large [of ops st key val] by fastforce



text \<open>With pages of less than the 49 bytes of a header, creating an in-memory engine panics.\<close>

lemma small_page_size_panics:
  assumes "ps < 49"
  shows "engine_in_memory ps = None"
proof -
  have "page_size memory_ops (memory_new ps) = ps" by (simp add: memory_new_def)
  then show ?thesis
    using assms
    by (auto simp: engine_in_memory_def open_or_create_def memory_first_page header_from_zeros header_to_bytes_small
        Let_def split: bind_splits)
qed



end
